(* ===== verification/Libc_Prelude.thy ===== *)
theory Libc_Prelude
  imports Main "HOL-Library.Word" "HOL-Library.Monad_Syntax"
begin

text \<open>
  Shared vocabulary of the development.

  Memory.  A C object that a routine walks with a pointer is a list of cells, and a pointer
  into it is an index.  Reading and writing a cell (\<open>rd\<close>, \<open>wr\<close>) and copying a run of cells
  (\<open>memcpy\<close>) return \<open>None\<close> outside the object: in the whole development \<open>None\<close> at the outer
  level means that the C code would have accessed memory outside the object it was given.
  A routine is written in the option monad over these accesses, so that \<open>f x \<noteq> None\<close> says
  that the C function \<open>f\<close> stays inside its buffers on input \<open>x\<close> and returns.

  Results.  What a routine hands back to its caller is a sum: \<open>Inl e\<close> for the return value
  that signals failure with \<open>errno = e\<close>, \<open>Inr v\<close> for an ordinary return of \<open>v\<close>.
\<close>

unbundle bit_operations_syntax

named_theorems mem_simps \<open>evaluation of successful memory accesses\<close>
named_theorems byte_simps \<open>bit tests on bytes as comparisons of numbers\<close>

type_synonym byte = "8 word"

text \<open>The error numbers the modelled routines set.\<close>

datatype errno = EMSGSIZE | ENOENT | ENOMEM | EINVAL | ERANGE | ESRCH | ENOSPC | EAFNOSUPPORT | EILSEQ | ENODEV

type_synonym 'a cret = "errno + 'a"

subsection \<open>Checked memory accesses\<close>

definition rd :: "'a list \<Rightarrow> nat \<Rightarrow> 'a option" where
  "rd xs i = (if i < length xs then Some (xs ! i) else None)"

definition wr :: "'a list \<Rightarrow> nat \<Rightarrow> 'a \<Rightarrow> 'a list option" where
  "wr xs i v = (if i < length xs then Some (xs[i := v]) else None)"

text \<open>\<open>memcpy (dst + d, src + s, n)\<close>.\<close>

definition memcpy :: "'a list \<Rightarrow> nat \<Rightarrow> 'a list \<Rightarrow> nat \<Rightarrow> nat \<Rightarrow> 'a list option" where
  "memcpy dst d src s n =
     (if d + n \<le> length dst \<and> s + n \<le> length src
      then Some (take d dst @ take n (drop s src) @ drop (d + n) dst) else None)"

lemma rd_Some_iff: "rd xs i = Some v \<longleftrightarrow> i < length xs \<and> xs ! i = v"
  by (auto simp: rd_def)

lemma rd_None_iff [simp]: "rd xs i = None \<longleftrightarrow> length xs \<le> i"
  by (simp add: rd_def)

lemma rd_in [mem_simps]: "i < length xs \<Longrightarrow> rd xs i = Some (xs ! i)"
  by (simp add: rd_def)

lemma wr_Some_iff: "wr xs i v = Some ys \<longleftrightarrow> i < length xs \<and> ys = xs[i := v]"
  by (auto simp: wr_def)

lemma wr_None_iff [simp]: "wr xs i v = None \<longleftrightarrow> length xs \<le> i"
  by (simp add: wr_def)

lemma wr_in [mem_simps]: "i < length xs \<Longrightarrow> wr xs i v = Some (xs[i := v])"
  by (simp add: wr_def)

lemma memcpy_Some_iff:
  "memcpy dst d src s n = Some ys \<longleftrightarrow>
     d + n \<le> length dst \<and> s + n \<le> length src \<and>
     ys = take d dst @ take n (drop s src) @ drop (d + n) dst"
  by (auto simp: memcpy_def)

lemma memcpy_in [mem_simps]:
  "d + n \<le> length dst \<Longrightarrow> s + n \<le> length src \<Longrightarrow>
     memcpy dst d src s n = Some (take d dst @ take n (drop s src) @ drop (d + n) dst)"
  by (simp add: memcpy_def)

lemma length_memcpy: "memcpy dst d src s n = Some ys \<Longrightarrow> length ys = length dst"
  by (auto simp: memcpy_Some_iff)

lemma rd_Cons [simp]: "rd (x # xs) 0 = Some x" "rd (x # xs) (Suc i) = rd xs i"
  by (simp_all add: rd_def)

lemma rd_append_left: "i < length xs \<Longrightarrow> rd (xs @ ys) i = rd xs i"
  by (simp add: rd_def nth_append)

lemma rd_append_right: "rd (xs @ ys) (length xs + i) = rd ys i"
  by (simp add: rd_def)

lemma rd_append_length [simp]: "rd (xs @ y # ys) (length xs) = Some y"
  by (simp add: rd_def)

subsection \<open>Filling a buffer from the left\<close>

lemma take_Suc_update [simp]:
  "i < length xs \<Longrightarrow> take (Suc i) (xs[i := v]) = take i xs @ [v]"
  by (simp add: take_Suc_conv_app_nth)

lemma take_add_memcpy:
  assumes "memcpy dst d src s n = Some ys"
  shows "take (d + n) ys = take d dst @ take n (drop s src)"
  using assms by (auto simp: memcpy_Some_iff)

text \<open>\<open>overlay xs i ys\<close> overwrites \<open>xs\<close> with \<open>ys\<close> from position \<open>i\<close> on.\<close>

definition overlay :: "'a list \<Rightarrow> nat \<Rightarrow> 'a list \<Rightarrow> 'a list" where
  "overlay xs i ys = take i xs @ ys @ drop (i + length ys) xs"

lemma overlay_Nil [simp]: "overlay xs i [] = xs"
  by (simp add: overlay_def)

lemma length_overlay [simp]: "i + length ys \<le> length xs \<Longrightarrow> length (overlay xs i ys) = length xs"
  by (simp add: overlay_def)

lemma overlay_overlay [simp]:
  "i + length ys + length zs \<le> length xs \<Longrightarrow>
     overlay (overlay xs i ys) (i + length ys) zs = overlay xs i (ys @ zs)"
  by (simp add: overlay_def add_ac)

lemma wr_overlay: "i < length xs \<Longrightarrow> wr xs i v = Some (overlay xs i [v])"
  by (simp add: wr_def overlay_def upd_conv_take_nth_drop)

lemma take_overlay [simp]:
  "i + length ys \<le> length xs \<Longrightarrow> take (i + length ys) (overlay xs i ys) = take i xs @ ys"
  by (simp add: overlay_def)

lemma take_overlay_before [simp]:
  "k \<le> i \<Longrightarrow> i \<le> length xs \<Longrightarrow> take k (overlay xs i ys) = take k xs"
  by (simp add: overlay_def min_absorb1)

lemma memcpy_overlay:
  "d + n \<le> length dst \<Longrightarrow> s + n \<le> length src \<Longrightarrow> memcpy dst d src s n = Some (overlay dst d (take n (drop s src)))"
  by (simp add: memcpy_def overlay_def)

lemma drop_overlay_after:
  "i + length ys \<le> k \<Longrightarrow> i + length ys \<le> length xs \<Longrightarrow> drop k (overlay xs i ys) = drop k xs"
  by (simp add: overlay_def min_absorb1)

lemma nth_overlay:
  "k + length ys \<le> length xs \<Longrightarrow> i < length xs \<Longrightarrow>
     overlay xs k ys ! i = (if k \<le> i \<and> i < k + length ys then ys ! (i - k) else xs ! i)"
  by (auto simp: overlay_def nth_append)

lemma take_prefix_trans:
  assumes "take n xs = take n ys" and "m \<le> n"
  shows "take m xs = take m ys"
  using assms by (metis min.absorb1 take_take)

lemma nth_eq_of_take:
  assumes "take n xs = take n ys" and "i < n"
  shows "xs ! i = ys ! i"
  using assms by (metis nth_take)

subsection \<open>Bytes\<close>

lemma unat_byte_less [simp]: "unat (b :: byte) < 256"
  using unsigned_less [of b, where ?'a = nat] by simp

lemma byte_all:
  assumes "\<forall>k \<in> set [0..<256]. P (word_of_nat k)"
  shows "P (n :: byte)"
proof -
  have "unat n \<in> set [0..<256]" by simp
  with assms have "P (word_of_nat (unat n))" by blast
  then show ?thesis by simp
qed

lemma word_of_nat_byte_eq: "k < 256 \<Longrightarrow> unat (word_of_nat k :: byte) = k"
  by (simp add: unat_of_nat take_bit_eq_mod)

lemma byte_eq_unat: "a = b \<longleftrightarrow> unat a = unat (b :: byte)"
  by (rule word_unat_eq_iff)

lemma unat_eq_zero_byte [simp]: "unat (b :: byte) = 0 \<longleftrightarrow> b = 0"
  by (simp add: unat_eq_0)

subsection \<open>ASCII letters\<close>

text \<open>
  Equality up to the case of ASCII letters, from the two alphabets, and what makes a function that
  folds the case decide it.
\<close>

definition letter_pairs :: "(byte \<times> byte) list" where
  "letter_pairs = zip (map of_char ''ABCDEFGHIJKLMNOPQRSTUVWXYZ'') (map of_char ''abcdefghijklmnopqrstuvwxyz'')"

definition same_ascii :: "byte \<Rightarrow> byte \<Rightarrow> bool" where
  "same_ascii a b \<longleftrightarrow> a = b \<or> (a, b) \<in> set letter_pairs \<or> (b, a) \<in> set letter_pairs"

lemma letter_pairs_eq: "letter_pairs = map (\<lambda>k. (word_of_nat k, word_of_nat (k + 32))) [65..<91]"
  by code_simp

lemma letter_pairs_iff: "(a, b) \<in> set letter_pairs \<longleftrightarrow> 65 \<le> unat a \<and> unat a \<le> 90 \<and> unat b = unat a + 32"
proof
  assume "(a, b) \<in> set letter_pairs"
  then obtain k where "a = word_of_nat k" "b = word_of_nat (k + 32)" "k \<in> {65..<91}"
    unfolding letter_pairs_eq set_map set_upt by blast
  then show "65 \<le> unat a \<and> unat a \<le> 90 \<and> unat b = unat a + 32"
    using word_of_nat_byte_eq [of k] word_of_nat_byte_eq [of "k + 32"] by simp
next
  assume r: "65 \<le> unat a \<and> unat a \<le> 90 \<and> unat b = unat a + 32"
  then have "b = word_of_nat (unat a + 32)" using word_of_nat_byte_eq [of "unat a + 32"] by (simp add: byte_eq_unat)
  then have "(a, b) = (word_of_nat (unat a), word_of_nat (unat a + 32))" by simp
  moreover have "unat a \<in> {65..<91}" using r by simp
  ultimately show "(a, b) \<in> set letter_pairs"
    unfolding letter_pairs_eq set_map set_upt by blast
qed

lemma same_ascii_upper:
  assumes "\<And>c. unat (f c) = (if 97 \<le> unat c \<and> unat c \<le> 122 then unat c - 32 else unat c)"
  shows "f a = (f b :: byte) \<longleftrightarrow> same_ascii a b"
  unfolding same_ascii_def letter_pairs_iff byte_eq_unat [of "f a"] byte_eq_unat [of a] assms by auto

lemma same_ascii_lower:
  assumes "\<And>c. unat (f c) = (if 65 \<le> unat c \<and> unat c \<le> 90 then unat c + 32 else unat c)"
  shows "f a = (f b :: byte) \<longleftrightarrow> same_ascii a b"
  unfolding same_ascii_def letter_pairs_iff byte_eq_unat [of "f a"] byte_eq_unat [of a] assms by auto

end
