(* ===== verification/Dns_Wire.thy ===== *)
theory Dns_Wire
  imports Libc_Prelude
begin

text \<open>
  Domain names in wire format: \<^verbatim>\<open>src/original/resolv/ns_name_unpack.c\<close>, \<^verbatim>\<open>ns_name_skip.c\<close>,
  \<^verbatim>\<open>ns_name_length_uncompressed.c\<close> and \<^verbatim>\<open>ns_samebinaryname.c\<close>.

  The abstract name is a list of labels.  \<open>encode_name\<close> is its uncompressed wire form, and
  \<open>name_at msg p ls h\<close> says that the possibly compressed name at offset \<open>p\<close> of the message
  denotes the labels \<open>ls\<close> and is read through \<open>h\<close> compression pointers.
\<close>

subsection \<open>The abstract name\<close>

type_synonym label = "byte list"

definition valid_label :: "label \<Rightarrow> bool" where
  "valid_label l \<longleftrightarrow> l \<noteq> [] \<and> length l < 64"

definition encode_label :: "label \<Rightarrow> byte list" where
  "encode_label l = word_of_nat (length l) # l"

definition encode_name :: "label list \<Rightarrow> byte list" where
  "encode_name ls = concat (map encode_label ls) @ [0]"

inductive name_at :: "byte list \<Rightarrow> nat \<Rightarrow> label list \<Rightarrow> nat \<Rightarrow> bool" for msg where
  root: "rd msg p = Some 0 \<Longrightarrow> name_at msg p [] 0"
| label: "rd msg p = Some n \<Longrightarrow> 0 < unat n \<Longrightarrow> unat n < 64 \<Longrightarrow> p + 1 + unat n \<le> length msg \<Longrightarrow>
     l = take (unat n) (drop (p + 1) msg) \<Longrightarrow> name_at msg (p + 1 + unat n) ls h \<Longrightarrow>
     name_at msg p (l # ls) h"
| pointer: "rd msg p = Some n \<Longrightarrow> 192 \<le> unat n \<Longrightarrow> rd msg (p + 1) = Some b \<Longrightarrow>
     name_at msg ((unat n - 192) * 256 + unat b) ls h \<Longrightarrow> name_at msg p ls (Suc h)"

text \<open>
  What the loop check of the decoder counts.  \<open>traversed msg p c\<close> says that \<open>c\<close> bytes of labels and
  pointers lie on the way from offset \<open>p\<close> to the target of the last pointer of the name at \<open>p\<close>; it
  is 0 for a name without pointers.
\<close>

inductive traversed :: "byte list \<Rightarrow> nat \<Rightarrow> nat \<Rightarrow> bool" for msg where
  root: "rd msg p = Some 0 \<Longrightarrow> traversed msg p 0"
| label: "rd msg p = Some n \<Longrightarrow> 0 < unat n \<Longrightarrow> unat n < 64 \<Longrightarrow> traversed msg (p + 1 + unat n) c \<Longrightarrow>
     traversed msg p (if c = 0 then 0 else 1 + unat n + c)"
| pointer: "rd msg p = Some n \<Longrightarrow> 192 \<le> unat n \<Longrightarrow> rd msg (p + 1) = Some b \<Longrightarrow>
     traversed msg ((unat n - 192) * 256 + unat b) c \<Longrightarrow> traversed msg p (2 + c)"

text \<open>Equality of names up to the case of ASCII letters.\<close>

definition same_name :: "label list \<Rightarrow> label list \<Rightarrow> bool" where
  "same_name = list_all2 (list_all2 same_ascii)"

lemma same_name_fold:
  assumes "\<And>a b. f a = f b \<longleftrightarrow> same_ascii a b"
  shows "same_name ls ks \<longleftrightarrow> map (map f) ls = map (map f) ks"
proof -
  have "list_all2 same_ascii l k \<longleftrightarrow> map f l = map f k" for l k
    by (simp add: assms [symmetric] list_eq_iff_nth_eq list_all2_conv_all_nth cong: conj_cong)
  then show ?thesis
    by (simp add: same_name_def list_eq_iff_nth_eq [of "map (map f) ls"] list_all2_conv_all_nth cong: conj_cong)
qed

subsection \<open>The routines\<close>

definition NS_CMPRSFLGS :: byte where
  "NS_CMPRSFLGS = 0xC0"

definition NS_MAXCDNAME :: nat where
  "NS_MAXCDNAME = 255"

text \<open>
  The loop of \<open>ns_name_unpack\<close>.  \<open>msg\<close> is the message up to \<open>eom\<close>, \<open>src\<close> and \<open>srcp\<close> are
  offsets into it, \<open>dst\<close> is the output object up to \<open>dstlim\<close> and \<open>dstp\<close> the write position;
  \<open>len\<close> is the C variable that is \<open>-1\<close> until the first compression pointer.  A comparison of
  a pointer difference with a number, as in \<open>n >= eom - srcp\<close>, is written with the pointer on
  the other side, \<open>eom \<le> srcp + n\<close>.
\<close>

definition compression_target :: "byte \<Rightarrow> byte \<Rightarrow> nat" where
  "compression_target n b = push_bit 8 (unat (n AND 0x3F)) OR unat b"

function unpack_loop ::
  "byte list \<Rightarrow> nat \<Rightarrow> nat \<Rightarrow> byte list \<Rightarrow> nat \<Rightarrow> int \<Rightarrow> nat \<Rightarrow> (byte list \<times> int cret) option" where
  "unpack_loop msg src srcp dst dstp len checked =
     do { n \<leftarrow> rd msg srcp;
          if n = 0 then
            do { dst \<leftarrow> wr dst dstp 0;
                 Some (dst, Inr (if len < 0 then int (srcp + 1) - int src else len)) }
          else if n AND NS_CMPRSFLGS = 0 then
            (if 64 \<le> unat n then Some (dst, Inl EMSGSIZE)
             else if length dst \<le> dstp + unat n + 1 \<or> length msg \<le> srcp + 1 + unat n
             then Some (dst, Inl EMSGSIZE)
             else do { dst1 \<leftarrow> wr dst dstp n;
                       dst2 \<leftarrow> memcpy dst1 (dstp + 1) msg (srcp + 1) (unat n);
                       unpack_loop msg src (srcp + 1 + unat n) dst2 (dstp + 1 + unat n) len
                         (checked + unat n + 1) })
          else if n AND NS_CMPRSFLGS = NS_CMPRSFLGS then
            (if length msg \<le> srcp + 1 then Some (dst, Inl EMSGSIZE)
             else do { b \<leftarrow> rd msg (srcp + 1);
                       if length msg \<le> compression_target n b then Some (dst, Inl EMSGSIZE)
                       else if length msg \<le> checked + 2 then Some (dst, Inl EMSGSIZE)
                       else unpack_loop msg src (compression_target n b) dst dstp
                              (if len < 0 then int (srcp + 1) - int src + 1 else len)
                              (checked + 2) })
          else Some (dst, Inl EMSGSIZE) }"
  by pat_completeness auto
termination
  by (relation "measure (\<lambda>(msg, src, srcp, dst, dstp, len, checked).
        (length dst - dstp) + (length msg - checked))")
    (auto simp: wr_Some_iff memcpy_Some_iff)

declare unpack_loop.simps [simp del]

definition ns_name_unpack :: "byte list \<Rightarrow> int \<Rightarrow> byte list \<Rightarrow> (byte list \<times> int cret) option" where
  "ns_name_unpack msg src dst =
     (if src < 0 \<or> int (length msg) \<le> src then Some (dst, Inl EMSGSIZE)
      else unpack_loop msg (nat src) (nat src) dst 0 (-1) 0)"

text \<open>\<open>ns_name_skip\<close>: the offset of the caller's pointer \<open>*ptrptr\<close> in, its new offset out.\<close>

function skip_loop :: "byte list \<Rightarrow> nat \<Rightarrow> nat cret" where
  "skip_loop msg cp =
     (if cp < length msg then
        (let n = msg ! cp in
         if n = 0 then Inr (cp + 1)
         else if n AND NS_CMPRSFLGS = 0 then
           (if length msg < cp + 1 + unat n then Inl EMSGSIZE
            else skip_loop msg (cp + 1 + unat n))
         else if n AND NS_CMPRSFLGS = NS_CMPRSFLGS then
           (if cp + 1 = length msg then Inl EMSGSIZE else Inr (cp + 2))
         else Inl EMSGSIZE)
      else Inl EMSGSIZE)"
  by pat_completeness auto
termination
  by (relation "measure (\<lambda>(msg, cp). length msg - cp)") auto

declare skip_loop.simps [simp del]

definition ns_name_skip :: "byte list \<Rightarrow> nat \<Rightarrow> nat cret" where
  "ns_name_skip msg ptr = skip_loop msg ptr"

function length_uncompressed_loop :: "byte list \<Rightarrow> nat \<Rightarrow> nat \<Rightarrow> nat cret option" where
  "length_uncompressed_loop msg start p =
     (if p = length msg then Some (Inl EMSGSIZE)
      else do { b \<leftarrow> rd msg p;
                if b = 0 then
                  (if NS_MAXCDNAME < p + 1 - start then Some (Inl EMSGSIZE)
                   else Some (Inr (p + 1 - start)))
                else if unat b \<le> 63 then
                  (if p + 1 + unat b \<le> length msg then length_uncompressed_loop msg start (p + 1 + unat b)
                   else Some (Inl EMSGSIZE))
                else Some (Inl EMSGSIZE) })"
  by pat_completeness auto
termination
  by (relation "measure (\<lambda>(msg, start, p). length msg - p)") (auto simp: rd_Some_iff)

declare length_uncompressed_loop.simps [simp del]

definition ns_name_length_uncompressed :: "byte list \<Rightarrow> nat \<Rightarrow> nat cret option" where
  "ns_name_length_uncompressed msg p = length_uncompressed_loop msg p p"

text \<open>
  \<open>ns_samebinaryname\<close> compares two uncompressed names; the inner loop over the characters of
  a label is \<open>same_label\<close>, which returns the positions after the label.
\<close>

definition ascii_toupper :: "byte \<Rightarrow> byte" where
  "ascii_toupper ch = (if 0x61 \<le> ch \<and> ch \<le> 0x7A then ch - 0x61 + 0x41 else ch)"

fun same_label :: "nat \<Rightarrow> byte list \<Rightarrow> nat \<Rightarrow> byte list \<Rightarrow> nat \<Rightarrow> bool option" where
  "same_label 0 a i b j = Some True"
| "same_label (Suc k) a i b j =
     do { x \<leftarrow> rd a i; y \<leftarrow> rd b j;
          if x \<noteq> y \<and> ascii_toupper x \<noteq> ascii_toupper y then Some False
          else same_label k a (i + 1) b (j + 1) }"

function samebinaryname_loop :: "byte list \<Rightarrow> nat \<Rightarrow> byte list \<Rightarrow> nat \<Rightarrow> bool option" where
  "samebinaryname_loop a i b j =
     do { x \<leftarrow> rd a i; y \<leftarrow> rd b j;
          if x \<noteq> 0 \<and> y \<noteq> 0 then
            (if x \<noteq> y then Some False
             else do { same \<leftarrow> same_label (unat x) a (i + 1) b (j + 1);
                       if same then samebinaryname_loop a (i + 1 + unat x) b (j + 1 + unat x)
                       else Some False })
          else Some (x = 0 \<and> y = 0) }"
  by pat_completeness auto
termination
  by (relation "measure (\<lambda>(a, i, b, j). length a - i)") (auto simp: rd_Some_iff)

declare samebinaryname_loop.simps [simp del]

definition ns_samebinaryname :: "byte list \<Rightarrow> byte list \<Rightarrow> bool option" where
  "ns_samebinaryname a b = samebinaryname_loop a 0 b 0"

subsection \<open>Bit tests\<close>

lemma cmprsflgs_none [byte_simps]: "n AND NS_CMPRSFLGS = 0 \<longleftrightarrow> unat n < 64"
  unfolding NS_CMPRSFLGS_def
  by (rule byte_all [of "\<lambda>n. n AND 0xC0 = 0 \<longleftrightarrow> unat n < 64"]) code_simp

lemma cmprsflgs_both [byte_simps]: "n AND NS_CMPRSFLGS = NS_CMPRSFLGS \<longleftrightarrow> 192 \<le> unat n"
  unfolding NS_CMPRSFLGS_def
  by (rule byte_all [of "\<lambda>n. n AND 0xC0 = 0xC0 \<longleftrightarrow> 192 \<le> unat n"]) code_simp

lemma unat_low_six_bits: "192 \<le> unat n \<Longrightarrow> unat (n AND 0x3F :: byte) = unat n - 192"
  by (rule byte_all [of "\<lambda>n. 192 \<le> unat n \<longrightarrow> unat (n AND 0x3F) = unat n - 192", THEN mp])
    code_simp

lemma push_bit_or_byte: "push_bit 8 m OR unat (b :: byte) = m * 256 + unat b"
proof -
  have "push_bit 8 m AND unat b = 0"
    by (rule bit_eqI) (auto simp: bit_simps dest: bit_imp_le_length)
  then have "push_bit 8 m + unat b = push_bit 8 m OR unat b"
    by (rule disjunctive_add_eq_or)
  then show ?thesis by (simp add: push_bit_eq_mult)
qed

lemma compression_target_eq [byte_simps]:
  "192 \<le> unat n \<Longrightarrow> compression_target n b = (unat n - 192) * 256 + unat b"
  by (simp add: compression_target_def unat_low_six_bits push_bit_or_byte)

subsection \<open>One iteration of the unpacking loop\<close>

definition put_label :: "byte list \<Rightarrow> nat \<Rightarrow> byte list \<Rightarrow> nat \<Rightarrow> byte list" where
  "put_label dst dstp msg srcp =
     (let k = unat (msg ! srcp) in
      take dstp dst @ msg ! srcp # take k (drop (srcp + 1) msg) @ drop (dstp + 1 + k) dst)"

definition pointer_target :: "byte list \<Rightarrow> nat \<Rightarrow> nat" where
  "pointer_target msg srcp = (unat (msg ! srcp) - 192) * 256 + unat (msg ! (srcp + 1))"

lemma length_put_label [simp]:
  "dstp + unat (msg ! srcp) + 1 < length dst \<Longrightarrow> srcp + 1 + unat (msg ! srcp) < length msg \<Longrightarrow>
     length (put_label dst dstp msg srcp) = length dst"
  by (simp add: put_label_def Let_def)

lemma unpack_loop_root:
  assumes "srcp < length msg" "msg ! srcp = 0"
  shows "unpack_loop msg src srcp dst dstp len checked =
    map_option (\<lambda>d. (d, Inr (if len < 0 then int (srcp + 1) - int src else len))) (wr dst dstp 0)"
  using assms by (subst unpack_loop.simps) (simp add: mem_simps bind_map_option split: bind_split)

lemma unpack_loop_label:
  assumes "srcp < length msg" "msg ! srcp \<noteq> 0" "unat (msg ! srcp) < 64"
  shows "unpack_loop msg src srcp dst dstp len checked =
    (if length dst \<le> dstp + unat (msg ! srcp) + 1 \<or> length msg \<le> srcp + 1 + unat (msg ! srcp)
     then Some (dst, Inl EMSGSIZE)
     else unpack_loop msg src (srcp + 1 + unat (msg ! srcp)) (put_label dst dstp msg srcp)
            (dstp + 1 + unat (msg ! srcp)) len (checked + unat (msg ! srcp) + 1))"
  using assms
  by (subst unpack_loop.simps) (simp add: mem_simps byte_simps put_label_def Let_def)

lemma unpack_loop_pointer:
  assumes "srcp < length msg" "192 \<le> unat (msg ! srcp)"
  shows "unpack_loop msg src srcp dst dstp len checked =
    (if length msg \<le> srcp + 1 \<or> length msg \<le> pointer_target msg srcp \<or> length msg \<le> checked + 2
     then Some (dst, Inl EMSGSIZE)
     else unpack_loop msg src (pointer_target msg srcp) dst dstp
            (if len < 0 then int (srcp + 1) - int src + 1 else len) (checked + 2))"
proof -
  from assms have "msg ! srcp \<noteq> 0" by auto
  with assms show ?thesis
    by (subst unpack_loop.simps) (simp add: mem_simps byte_simps pointer_target_def)
qed

lemma unpack_loop_bad:
  assumes "srcp < length msg" "64 \<le> unat (msg ! srcp)" "unat (msg ! srcp) < 192"
  shows "unpack_loop msg src srcp dst dstp len checked = Some (dst, Inl EMSGSIZE)"
proof -
  from assms have "msg ! srcp \<noteq> 0" by auto
  with assms show ?thesis
    by (subst unpack_loop.simps) (simp add: mem_simps byte_simps)
qed

lemma unpack_loop_outside: "length msg \<le> srcp \<Longrightarrow> unpack_loop msg src srcp dst dstp len checked = None"
  by (subst unpack_loop.simps) (simp add: rd_def)

lemma label_byte_cases:
  fixes n :: byte
  obtains (root) "n = 0" | (label) "n \<noteq> 0" "unat n < 64" | (pointer) "192 \<le> unat n"
    | (bad) "64 \<le> unat n" "unat n < 192"
  by linarith

text \<open>
  Induction along the loop, with one case per kind of length byte.  The bound in the pointer
  case is the loop check of the source; it and the output limit are why the loop ends.
\<close>

lemma unpack_loop_induct [case_names outside root label pointer bad]:
  assumes outside: "\<And>srcp dst dstp len checked. length msg \<le> srcp \<Longrightarrow> P srcp dst dstp len checked"
    and root: "\<And>srcp dst dstp len checked. srcp < length msg \<Longrightarrow> msg ! srcp = 0 \<Longrightarrow>
      P srcp dst dstp len checked"
    and label: "\<And>srcp dst dstp len checked. srcp < length msg \<Longrightarrow> msg ! srcp \<noteq> 0 \<Longrightarrow>
      unat (msg ! srcp) < 64 \<Longrightarrow>
      (dstp + unat (msg ! srcp) + 1 < length dst \<Longrightarrow> srcp + 1 + unat (msg ! srcp) < length msg \<Longrightarrow>
        P (srcp + 1 + unat (msg ! srcp)) (put_label dst dstp msg srcp) (dstp + 1 + unat (msg ! srcp))
          len (checked + unat (msg ! srcp) + 1)) \<Longrightarrow> P srcp dst dstp len checked"
    and pointer: "\<And>srcp dst dstp len checked. srcp < length msg \<Longrightarrow> 192 \<le> unat (msg ! srcp) \<Longrightarrow>
      (srcp + 1 < length msg \<Longrightarrow> pointer_target msg srcp < length msg \<Longrightarrow> checked + 2 < length msg \<Longrightarrow>
        P (pointer_target msg srcp) dst dstp (if len < 0 then int (srcp + 1) - int src + 1 else len)
          (checked + 2)) \<Longrightarrow> P srcp dst dstp len checked"
    and bad: "\<And>srcp dst dstp len checked. srcp < length msg \<Longrightarrow> 64 \<le> unat (msg ! srcp) \<Longrightarrow>
      unat (msg ! srcp) < 192 \<Longrightarrow> P srcp dst dstp len checked"
  shows "P srcp dst dstp len (checked :: nat)"
proof (induction "(length dst - dstp) + (length msg - checked)" arbitrary: srcp dst dstp len checked
    rule: less_induct)
  case less
  show ?case
  proof (cases "srcp < length msg")
    case True
    show ?thesis
    proof (cases "msg ! srcp" rule: label_byte_cases)
      case root
      with True show ?thesis by (rule assms(2))
    next
      case label
      from True label show ?thesis by (rule assms(3)) (rule less, simp)
    next
      case pointer
      from True pointer show ?thesis by (rule assms(4)) (rule less, simp)
    next
      case bad
      from True bad show ?thesis by (rule assms(5))
    qed
  qed (use outside in simp)
qed

lemmas unpack_steps = unpack_loop_root unpack_loop_label unpack_loop_pointer unpack_loop_bad
  unpack_loop_outside

subsection \<open>Memory safety and termination of unpacking\<close>

lemma unpack_loop_safe:
  "srcp < length msg \<Longrightarrow> dstp < length dst \<Longrightarrow>
     \<exists>dst' r. unpack_loop msg src srcp dst dstp len checked = Some (dst', r) \<and> length dst' = length dst"
  by (induction srcp dst dstp len checked rule: unpack_loop_induct [where msg = msg and src = src])
    (auto simp: unpack_steps mem_simps)

subsection \<open>Unpacking reads the abstract name\<close>

lemma encode_name_simps [simp]:
  "encode_name [] = [0]"
  "encode_name (l # ls) = encode_label l @ encode_name ls"
  by (simp_all add: encode_name_def)

lemma length_encode_label [simp]: "length (encode_label l) = Suc (length l)"
  by (simp add: encode_label_def)

lemma encode_name_nonempty [simp]: "encode_name ls \<noteq> []"
  by (simp add: encode_name_def)

definition reads_name :: "byte list \<Rightarrow> nat \<Rightarrow> byte list \<Rightarrow> nat \<Rightarrow> byte list \<Rightarrow> bool" where
  "reads_name msg srcp dst dstp dst' \<longleftrightarrow>
     (\<exists>ls h. name_at msg srcp ls h \<and> list_all valid_label ls \<and>
        length dst' = length dst \<and> dstp + length (encode_name ls) \<le> length dst \<and>
        take (dstp + length (encode_name ls)) dst' = take dstp dst @ encode_name ls)"

lemma name_at_label:
  assumes "srcp < length msg" "msg ! srcp \<noteq> 0" "unat (msg ! srcp) < 64"
    "srcp + 1 + unat (msg ! srcp) \<le> length msg" "name_at msg (srcp + 1 + unat (msg ! srcp)) ls h"
  shows "name_at msg srcp (take (unat (msg ! srcp)) (drop (srcp + 1) msg) # ls) h"
  using assms by (intro name_at.label [where n = "msg ! srcp"]) (auto simp: unat_gt_0 rd_Some_iff)

lemma name_at_pointer:
  assumes "srcp + 1 < length msg" "192 \<le> unat (msg ! srcp)" "name_at msg (pointer_target msg srcp) ls h"
  shows "name_at msg srcp ls (Suc h)"
  using assms unfolding pointer_target_def
  by (intro name_at.pointer [where n = "msg ! srcp" and b = "msg ! (srcp + 1)"]) (auto simp: rd_Some_iff)

lemma name_at_cases [consumes 1, case_names root label pointer]:
  assumes "name_at msg p ls h"
  obtains "p < length msg" "msg ! p = 0" "ls = []" "h = 0"
  | ls' where "p < length msg" "msg ! p \<noteq> 0" "unat (msg ! p) < 64" "p + 1 + unat (msg ! p) < length msg"
      "ls = take (unat (msg ! p)) (drop (p + 1) msg) # ls'" "name_at msg (p + 1 + unat (msg ! p)) ls' h"
  | h' where "p + 1 < length msg" "192 \<le> unat (msg ! p)" "h = Suc h'"
      "name_at msg (pointer_target msg p) ls h'"
proof -
  have inside: "name_at msg q ls h \<Longrightarrow> q < length msg" for q ls h
    by (induction rule: name_at.induct) (auto simp: rd_Some_iff)
  from assms show ?thesis
    by (cases rule: name_at.cases)
      (use that in \<open>auto simp: rd_Some_iff pointer_target_def unat_gt_0 dest: inside\<close>)
qed

lemma name_at_inside: "name_at msg p ls h \<Longrightarrow> p < length msg"
  by (erule name_at_cases) auto

lemma name_at_root_iff:
  assumes "p < length msg" "msg ! p = 0"
  shows "name_at msg p ls h \<longleftrightarrow> ls = [] \<and> h = 0"
proof
  assume "name_at msg p ls h"
  then show "ls = [] \<and> h = 0" using assms by (cases rule: name_at_cases) auto
qed (use assms in \<open>auto intro: name_at.root simp: rd_Some_iff\<close>)

lemma name_at_label_iff:
  assumes "p < length msg" "msg ! p \<noteq> 0" "unat (msg ! p) < 64"
  shows "name_at msg p ls h \<longleftrightarrow> p + 1 + unat (msg ! p) \<le> length msg \<and>
    (\<exists>ls'. ls = take (unat (msg ! p)) (drop (p + 1) msg) # ls' \<and> name_at msg (p + 1 + unat (msg ! p)) ls' h)"
    (is "_ \<longleftrightarrow> ?rhs")
proof
  assume "name_at msg p ls h"
  then show ?rhs using assms by (cases rule: name_at_cases) auto
qed (use assms in \<open>auto intro: name_at_label [simplified]\<close>)

lemma name_at_pointer_iff:
  assumes "p < length msg" "192 \<le> unat (msg ! p)"
  shows "name_at msg p ls h \<longleftrightarrow>
    p + 1 < length msg \<and> (\<exists>h'. h = Suc h' \<and> name_at msg (pointer_target msg p) ls h')" (is "_ \<longleftrightarrow> ?rhs")
proof
  assume "name_at msg p ls h"
  then show ?rhs using assms by (cases rule: name_at_cases) auto
qed (use assms in \<open>auto intro: name_at_pointer [simplified]\<close>)

lemma name_at_bad:
  assumes "64 \<le> unat (msg ! p)" "unat (msg ! p) < 192"
  shows "\<not> name_at msg p ls h"
proof
  assume "name_at msg p ls h"
  then show False using assms by (cases rule: name_at_cases) auto
qed

lemma name_at_unique: "name_at msg p ls h \<Longrightarrow> name_at msg p ls' h' \<Longrightarrow> ls = ls' \<and> h = h'"
proof (induction arbitrary: ls' h' rule: name_at.induct)
  case (root p)
  from root.prems show ?case using root(1) by (cases rule: name_at_cases) (auto simp: rd_Some_iff)
next
  case (label p n l ls h)
  then have n: "msg ! p = n" "n \<noteq> 0" "unat n < 64" by (auto simp: rd_Some_iff)
  from label.prems show ?case
  proof (cases rule: name_at_cases)
    case (label ls'')
    with label.hyps label.IH [of ls'' h'] n show ?thesis by simp
  qed (use n in auto)
next
  case (pointer p n b ls h)
  then have n: "msg ! p = n" "msg ! (p + 1) = b" "192 \<le> unat n" by (auto simp: rd_Some_iff)
  from pointer.prems show ?case
  proof (cases rule: name_at_cases)
    case (pointer h'')
    with pointer.IH [of ls' h''] n show ?thesis by (simp add: pointer_target_def)
  qed (use n in auto)
qed

lemma name_at_valid: "name_at msg p ls h \<Longrightarrow> list_all valid_label ls"
  by (induction rule: name_at.induct) (auto simp: valid_label_def)

lemma reads_name_root:
  assumes "srcp < length msg" "msg ! srcp = 0" and "wr dst dstp 0 = Some dst'"
  shows "reads_name msg srcp dst dstp dst'"
  unfolding reads_name_def
  using assms by (intro exI [of _ "[]"] exI [of _ 0]) (auto simp: name_at.root wr_Some_iff rd_Some_iff)

lemma reads_name_label:
  assumes n: "srcp < length msg" "msg ! srcp \<noteq> 0" "unat (msg ! srcp) < 64"
      "dstp + unat (msg ! srcp) + 1 < length dst" "srcp + 1 + unat (msg ! srcp) < length msg"
    and r: "reads_name msg (srcp + 1 + unat (msg ! srcp)) (put_label dst dstp msg srcp)
              (dstp + 1 + unat (msg ! srcp)) dst'"
  shows "reads_name msg srcp dst dstp dst'"
proof -
  let ?n = "unat (msg ! srcp)"
  define l where "l = take ?n (drop (srcp + 1) msg)"
  from n have len: "length l = ?n" by (simp add: l_def)
  have enc: "encode_label l = msg ! srcp # l" by (simp add: encode_label_def len)
  from r obtain ls h where ls: "name_at msg (srcp + 1 + ?n) ls h" "list_all valid_label ls"
    "length dst' = length dst" "dstp + 1 + ?n + length (encode_name ls) \<le> length dst"
    "take (dstp + 1 + ?n + length (encode_name ls)) dst' =
       take (dstp + 1 + ?n) (put_label dst dstp msg srcp) @ encode_name ls"
    unfolding reads_name_def length_put_label [OF n(4,5)] by blast
  have "name_at msg srcp (l # ls) h"
    using n ls(1) unfolding l_def by (intro name_at_label) simp_all
  moreover have "list_all valid_label (l # ls)"
    using n ls(2) len by (auto simp: valid_label_def)
  moreover have "take (dstp + 1 + ?n) (put_label dst dstp msg srcp) = take dstp dst @ encode_label l"
    unfolding enc using n by (simp add: put_label_def Let_def l_def)
  ultimately show ?thesis
    unfolding reads_name_def using ls(3-5)
    by (intro exI [of _ "l # ls"] exI [of _ h]) (simp add: len add_ac)
qed

lemma reads_name_pointer:
  assumes "srcp + 1 < length msg" "192 \<le> unat (msg ! srcp)"
    and "reads_name msg (pointer_target msg srcp) dst dstp dst'"
  shows "reads_name msg srcp dst dstp dst'"
  using assms unfolding reads_name_def by (blast intro: name_at_pointer)

lemma unpack_loop_sound:
  "unpack_loop msg src srcp dst dstp len checked = Some (dst', Inr r) \<Longrightarrow>
     reads_name msg srcp dst dstp dst'"
proof (induction srcp dst dstp len checked rule: unpack_loop_induct [where msg = msg and src = src])
  case (root srcp dst dstp len checked)
  then show ?case by (auto simp: unpack_loop_root intro: reads_name_root)
next
  case (label srcp dst dstp len checked)
  then show ?case by (auto simp: unpack_loop_label intro: reads_name_label split: if_splits)
next
  case (pointer srcp dst dstp len checked)
  then show ?case
    by (auto simp del: One_nat_def simp: unpack_loop_pointer intro: reads_name_pointer split: if_split_asm)
qed (simp_all add: unpack_loop_bad unpack_loop_outside)

text \<open>
  Completeness.  A name is unpacked exactly if it fits the output and the bytes traversed when its
  last pointer is followed are fewer than those of the message: that bound is the loop check.
\<close>

lemma unpack_loop_error: "unpack_loop msg src srcp dst dstp len checked = Some (dst', Inl e) \<Longrightarrow> e = EMSGSIZE"
proof (induction msg src srcp dst dstp len checked rule: unpack_loop.induct)
  case (1 msg src srcp dst dstp len checked)
  from "1.prems" "1.IH" show ?case
    unfolding unpack_loop.simps [of msg src srcp dst dstp len checked]
    by (auto split: bind_splits if_split_asm)
qed

lemma traversed_root: "traversed msg p c \<Longrightarrow> rd msg p = Some 0 \<Longrightarrow> c = 0"
  by (erule traversed.cases) auto

lemma traversed_label:
  assumes "traversed msg p c" "rd msg p = Some n" "n \<noteq> 0" "unat n < 64"
  obtains c' where "traversed msg (p + 1 + unat n) c'" "c = (if c' = 0 then 0 else 1 + unat n + c')"
  using assms(1)
proof cases
  case (label n' c')
  with assms(2) that show ?thesis by simp
qed (use assms in auto)

lemma traversed_pointer:
  assumes "traversed msg p c" "p + 1 < length msg" "192 \<le> unat (msg ! p)"
  obtains c' where "traversed msg (pointer_target msg p) c'" "c = 2 + c'"
  using assms(1)
proof cases
  case (pointer n b c')
  with that show ?thesis by (simp add: pointer_target_def rd_Some_iff)
qed (use assms in \<open>auto simp: rd_Some_iff\<close>)

lemma traversed_unique: "traversed msg p c \<Longrightarrow> traversed msg p c' \<Longrightarrow> c' = c"
proof (induction arbitrary: c' rule: traversed.induct)
  case (root p)
  then show ?case by (blast dest: traversed_root)
next
  case (label p n c)
  then have "n \<noteq> 0" by auto
  then show ?case
    using traversed_label [OF label.prems label.hyps(1) _ label.hyps(3)] label.IH by metis
next
  case (pointer p n b c)
  then have p: "p + 1 < length msg" "msg ! p = n" "msg ! (p + 1) = b" by (auto simp: rd_Some_iff)
  show ?case
    using traversed_pointer [OF pointer.prems p(1)] pointer.hyps(2) pointer.IH p(2,3)
    unfolding pointer_target_def by metis
qed

lemma traversed_name:
  "name_at msg p ls h \<Longrightarrow> \<exists>c. traversed msg p c \<and> (c = 0 \<or> c < length (encode_name ls) + 2 * h)"
proof (induction rule: name_at.induct)
  case (root p)
  then show ?case by (blast intro: traversed.root)
next
  case (label p n l ls h)
  then obtain c where c: "traversed msg (p + 1 + unat n) c" "c = 0 \<or> c < length (encode_name ls) + 2 * h" by blast
  have "length l = unat n" using label.hyps by simp
  then show ?case
    using traversed.label [OF label.hyps(1-3) c(1)] c(2) by (intro exI conjI) (assumption, auto)
next
  case (pointer p n b ls h)
  then obtain c where c: "traversed msg ((unat n - 192) * 256 + unat b) c" "c = 0 \<or> c < length (encode_name ls) + 2 * h"
    by blast
  moreover have "0 < length (encode_name ls)" by simp
  ultimately show ?case
    using traversed.pointer [OF pointer.hyps(1-3) c(1)]
    by (intro exI conjI) (assumption, auto simp del: length_greater_0_conv)
qed

lemma unpack_loop_exact:
  assumes "name_at msg srcp ls h" "traversed msg srcp c"
  shows "(\<exists>dst' r. unpack_loop msg src srcp dst dstp len checked = Some (dst', Inr r)) \<longleftrightarrow>
    dstp + length (encode_name ls) \<le> length dst \<and> (c = 0 \<or> checked + c < length msg)"
  using assms
proof (induction srcp dst dstp len checked arbitrary: ls h c
    rule: unpack_loop_induct [where msg = msg and src = src])
  case (root srcp dst dstp len checked)
  have "c = 0" by (rule traversed_root [OF root(4)]) (simp add: root(1,2) rd_Some_iff)
  from root(3) this show ?case using root(1,2)
    by (cases rule: name_at_cases) (auto simp: unpack_loop_root wr_def)
next
  case (label srcp dst dstp len checked)
  let ?n = "unat (msg ! srcp)"
  obtain c' where c': "traversed msg (srcp + 1 + ?n) c'" "c = (if c' = 0 then 0 else 1 + ?n + c')"
    using traversed_label [OF label(6) rd_in [OF label(1)] label(2,3)] by blast
  from label(5) show ?case
  proof (cases rule: name_at_cases)
    case (label ls')
    moreover have "0 < length (encode_name ls')" by simp
    ultimately show ?thesis
      using label.IH [of ls' h c'] label.hyps c'
      by (auto simp: unpack_loop_label simp del: length_greater_0_conv)
  qed (use label in auto)
next
  case (pointer srcp dst dstp len checked)
  from pointer(4) show ?case
  proof (cases rule: name_at_cases)
    case (pointer h')
    moreover obtain c' where "traversed msg (pointer_target msg srcp) c'" "c = 2 + c'"
      using traversed_pointer [OF \<open>traversed msg srcp c\<close> pointer(1,2)] by blast
    moreover have "pointer_target msg srcp < length msg" using pointer(4) by (rule name_at_inside)
    ultimately show ?thesis
      using pointer.hyps pointer.IH [of ls h' c'] by (auto simp: unpack_loop_pointer)
  qed (use pointer in auto)
qed (auto dest: name_at_inside elim: name_at_cases)

subsection \<open>The number of bytes consumed agrees with \<open>ns_name_skip\<close>\<close>

lemma skip_loop_root: "cp < length msg \<Longrightarrow> msg ! cp = 0 \<Longrightarrow> skip_loop msg cp = Inr (cp + 1)"
  by (subst skip_loop.simps) simp

lemma skip_loop_label:
  "cp < length msg \<Longrightarrow> msg ! cp \<noteq> 0 \<Longrightarrow> unat (msg ! cp) < 64 \<Longrightarrow> cp + 1 + unat (msg ! cp) \<le> length msg \<Longrightarrow>
     skip_loop msg cp = skip_loop msg (cp + 1 + unat (msg ! cp))"
  by (subst skip_loop.simps) (simp add: byte_simps)

lemma skip_loop_pointer:
  assumes "cp + 1 < length msg" "192 \<le> unat (msg ! cp)"
  shows "skip_loop msg cp = Inr (cp + 2)"
proof -
  from assms have "msg ! cp \<noteq> 0" by auto
  with assms show ?thesis by (subst skip_loop.simps) (simp add: byte_simps)
qed

lemma skip_loop_range: "skip_loop msg cp = Inr q \<Longrightarrow> cp < q \<and> q \<le> length msg"
proof (induction msg cp rule: skip_loop.induct)
  case (1 msg cp)
  from "1.prems" consider "q = cp + 1" "cp < length msg" | "q = cp + 2" "cp + 1 < length msg"
    | "cp < length msg" "msg ! cp \<noteq> 0" "msg ! cp AND NS_CMPRSFLGS = 0"
      "\<not> length msg < cp + 1 + unat (msg ! cp)" "skip_loop msg (cp + 1 + unat (msg ! cp)) = Inr q"
    by (subst (asm) skip_loop.simps) (auto simp: Let_def split: if_splits)
  then show ?case
  proof cases
    case 3
    from "1.IH" [OF 3(1) refl 3(2-5)] show ?thesis by simp
  qed auto
qed

lemma unpack_loop_consumed:
  "unpack_loop msg src srcp dst dstp len checked = Some (dst', Inr r) \<Longrightarrow> src \<le> srcp \<or> 0 \<le> len \<Longrightarrow>
     (if len < 0 then \<exists>q. skip_loop msg srcp = Inr q \<and> r = int q - int src else r = len)"
proof (induction srcp dst dstp len checked rule: unpack_loop_induct [where msg = msg and src = src])
  case (root srcp dst dstp len checked)
  then show ?case by (auto simp: unpack_loop_root skip_loop_root)
next
  case (label srcp dst dstp len checked)
  from label.prems label.hyps
  have bounds: "dstp + unat (msg ! srcp) + 1 < length dst" "srcp + 1 + unat (msg ! srcp) < length msg"
    by (auto simp: unpack_loop_label split: if_split_asm)
  have skip: "skip_loop msg srcp = skip_loop msg (srcp + 1 + unat (msg ! srcp))"
    using label.hyps bounds by (intro skip_loop_label) auto
  have "unpack_loop msg src (srcp + 1 + unat (msg ! srcp)) (put_label dst dstp msg srcp)
      (dstp + 1 + unat (msg ! srcp)) len (checked + unat (msg ! srcp) + 1) = Some (dst', Inr r)"
    using label.prems(1) bounds unfolding unpack_loop_label [OF label.hyps] by (simp split: if_split_asm)
  from label.IH [OF bounds this] label.prems(2) show ?case
    unfolding skip by fastforce
next
  case (pointer srcp dst dstp len checked)
  from pointer.prems pointer.hyps
  have bounds: "srcp + 1 < length msg" "pointer_target msg srcp < length msg" "checked + 2 < length msg"
    by (auto simp: unpack_loop_pointer split: if_split_asm)
  have "unpack_loop msg src (pointer_target msg srcp) dst dstp
      (if len < 0 then int (srcp + 1) - int src + 1 else len) (checked + 2) = Some (dst', Inr r)"
    using pointer.prems(1) bounds unfolding unpack_loop_pointer [OF pointer.hyps] by (simp split: if_split_asm)
  from pointer.IH [OF bounds this] pointer.prems(2) show ?case
    unfolding skip_loop_pointer [OF bounds(1) pointer.hyps(2)] by (auto split: if_split_asm)
qed (simp_all add: unpack_loop_bad unpack_loop_outside)

subsection \<open>Uncompressed names\<close>

lemma name_at_encode_name:
  assumes "list_all valid_label ls"
  shows "name_at (pre @ encode_name ls @ post) (length pre) ls 0"
  using assms
proof (induction ls arbitrary: pre)
  case Nil
  show ?case by (auto intro: name_at.root simp: rd_Some_iff)
next
  case (Cons l ls)
  have len: "unat (word_of_nat (length l) :: byte) = length l"
    using Cons.prems by (intro word_of_nat_byte_eq) (simp add: valid_label_def)
  have eq: "(pre @ word_of_nat (length l) # l) @ encode_name ls @ post = pre @ encode_name (l # ls) @ post"
    by (simp add: encode_label_def)
  from Cons.IH [of "pre @ word_of_nat (length l) # l"] Cons.prems
  have "name_at (pre @ encode_name (l # ls) @ post) (length pre + 1 + length l) ls 0"
    unfolding eq by simp
  then show ?case
    using Cons.prems
    by (intro name_at.label [where n = "word_of_nat (length l)"])
      (auto simp: rd_Some_iff valid_label_def encode_label_def len)
qed

lemma name_at_uncompressed: "name_at msg p ls h \<Longrightarrow> h = 0 \<Longrightarrow> \<exists>post. drop p msg = encode_name ls @ post"
proof (induction rule: name_at.induct)
  case (root p)
  then have "drop p msg = 0 # drop (Suc p) msg"
    by (metis Cons_nth_drop_Suc rd_Some_iff)
  then show ?case by simp
next
  case (label p n l ls h)
  then obtain post where post: "drop (p + 1 + unat n) msg = encode_name ls @ post" by blast
  have "drop p msg = n # drop (p + 1) msg"
    using label.hyps(1) by (metis Cons_nth_drop_Suc Suc_eq_plus1 rd_Some_iff)
  moreover have "drop (p + 1) msg = l @ drop (p + 1 + unat n) msg"
    unfolding label.hyps(5) by (metis append_take_drop_id drop_drop add.commute)
  moreover have "encode_label l = n # l"
    using label.hyps by (simp add: encode_label_def)
  ultimately show ?case using post by simp
qed simp

lemma uncompressed_length_root:
  "p < length msg \<Longrightarrow> msg ! p = 0 \<Longrightarrow> length_uncompressed_loop msg start p =
     Some (if NS_MAXCDNAME < p + 1 - start then Inl EMSGSIZE else Inr (p + 1 - start))"
  by (subst length_uncompressed_loop.simps) (simp add: mem_simps)

lemma uncompressed_length_label:
  "p < length msg \<Longrightarrow> msg ! p \<noteq> 0 \<Longrightarrow> unat (msg ! p) < 64 \<Longrightarrow>
     length_uncompressed_loop msg start p =
     (if p + 1 + unat (msg ! p) \<le> length msg
      then length_uncompressed_loop msg start (p + 1 + unat (msg ! p)) else Some (Inl EMSGSIZE))"
  by (subst length_uncompressed_loop.simps) (simp add: mem_simps)

lemma uncompressed_length_other:
  assumes "p < length msg \<Longrightarrow> 64 \<le> unat (msg ! p)" "p \<le> length msg"
  shows "length_uncompressed_loop msg start p = Some (Inl EMSGSIZE)"
proof (cases "p = length msg")
  case False
  with assms have "msg ! p \<noteq> 0" by auto
  with False assms show ?thesis
    by (subst length_uncompressed_loop.simps) (simp add: mem_simps)
qed (subst length_uncompressed_loop.simps, simp)

definition uncompressed_result :: "byte list \<Rightarrow> nat \<Rightarrow> nat \<Rightarrow> nat cret \<Rightarrow> bool" where
  "uncompressed_result msg start p r \<longleftrightarrow>
     (\<forall>n. r = Inr n \<longleftrightarrow>
       (\<exists>ls. name_at msg p ls 0 \<and> n = p - start + length (encode_name ls) \<and> n \<le> NS_MAXCDNAME))"

lemma uncompressed_result_none:
  "(\<And>ls. \<not> name_at msg p ls 0) \<Longrightarrow> uncompressed_result msg start p (Inl e)"
  by (simp add: uncompressed_result_def)

lemma uncompressed_result_label:
  assumes "start \<le> p" "p < length msg" "msg ! p \<noteq> 0" "unat (msg ! p) < 64"
    "p + 1 + unat (msg ! p) \<le> length msg" "uncompressed_result msg start (p + 1 + unat (msg ! p)) r"
  shows "uncompressed_result msg start p r"
proof -
  let ?k = "unat (msg ! p)"
  have len: "length (take ?k (drop (p + 1) msg)) = ?k" using assms(5) by simp
  have "(\<exists>ls. name_at msg p ls 0 \<and> n = p - start + length (encode_name ls) \<and> n \<le> NS_MAXCDNAME) \<longleftrightarrow>
      (\<exists>ls. name_at msg (p + 1 + ?k) ls 0 \<and> n = p + 1 + ?k - start + length (encode_name ls) \<and>
        n \<le> NS_MAXCDNAME)" for n
    unfolding name_at_label_iff [OF assms(2-4)] using assms(1,5)
    by (auto simp: len [simplified])
  with assms(6) show ?thesis by (simp add: uncompressed_result_def)
qed

lemma length_uncompressed_loop_correct:
  "start \<le> p \<Longrightarrow> p \<le> length msg \<Longrightarrow>
     \<exists>r. length_uncompressed_loop msg start p = Some r \<and> uncompressed_result msg start p r"
proof (induction "length msg - p" arbitrary: p rule: less_induct)
  case less
  show ?case
  proof (cases "p < length msg")
    case True
    show ?thesis
    proof (cases "msg ! p" rule: label_byte_cases)
      case root
      with True less.prems show ?thesis
        by (auto simp: uncompressed_length_root uncompressed_result_def name_at_root_iff)
    next
      case label
      let ?q = "p + 1 + unat (msg ! p)"
      show ?thesis
      proof (cases "?q \<le> length msg")
        case q: True
        with True less.prems obtain r where "length_uncompressed_loop msg start ?q = Some r"
          "uncompressed_result msg start ?q r"
          using less.hyps [of ?q] by fastforce
        with q label True less.prems show ?thesis
          by (auto simp: uncompressed_length_label intro: uncompressed_result_label [simplified])
      next
        case False
        with label True show ?thesis
          by (simp add: uncompressed_length_label name_at_label_iff uncompressed_result_none)
      qed
    next
      case pointer
      with True less.prems show ?thesis
        by (simp add: uncompressed_length_other name_at_pointer_iff uncompressed_result_none)
    next
      case bad
      with less.prems show ?thesis
        by (simp add: uncompressed_length_other name_at_bad uncompressed_result_none)
    qed
  next
    case False
    with less.prems show ?thesis
      by (auto simp: uncompressed_length_other dest: name_at_inside intro!: uncompressed_result_none)
  qed
qed

subsection \<open>Comparing uncompressed names\<close>

lemma ascii_toupper_same: "ascii_toupper a = ascii_toupper b \<longleftrightarrow> same_ascii a b"
proof (rule same_ascii_upper)
  show "unat (ascii_toupper c) = (if 97 \<le> unat c \<and> unat c \<le> 122 then unat c - 32 else unat c)" for c
    by (rule byte_all) code_simp
qed

lemma same_label_correct:
  assumes "length xs = k" "length ys = k"
  shows "same_label k (pre @ xs @ post) (length pre) (pre' @ ys @ post') (length pre') =
    Some (map ascii_toupper xs = map ascii_toupper ys)"
  using assms
proof (induction k arbitrary: xs ys pre pre')
  case (Suc k)
  then obtain x xs' y ys' where xy: "xs = x # xs'" "ys = y # ys'" "length xs' = k" "length ys' = k"
    by (auto simp: length_Suc_conv)
  have "same_label k ((pre @ [x]) @ xs' @ post) (length (pre @ [x]))
      ((pre' @ [y]) @ ys' @ post') (length (pre' @ [y])) = Some (map ascii_toupper xs' = map ascii_toupper ys')"
    using xy(3,4) by (rule Suc.IH)
  with xy show ?case by simp
qed simp

lemma label_length_byte:
  assumes "valid_label l"
  shows "unat (word_of_nat (length l) :: byte) = length l" "(word_of_nat (length l) :: byte) \<noteq> 0"
proof -
  show len: "unat (word_of_nat (length l) :: byte) = length l"
    using assms by (intro word_of_nat_byte_eq) (simp add: valid_label_def)
  show "(word_of_nat (length l) :: byte) \<noteq> 0"
  proof
    assume "(word_of_nat (length l) :: byte) = 0"
    with len assms show False by (simp add: valid_label_def)
  qed
qed

lemma samebinaryname_loop_correct:
  assumes "list_all valid_label ls" "list_all valid_label ls'"
  shows "samebinaryname_loop (pre @ encode_name ls @ post) (length pre)
      (pre' @ encode_name ls' @ post') (length pre') =
    Some (map (map ascii_toupper) ls = map (map ascii_toupper) ls')"
  using assms
proof (induction ls arbitrary: ls' pre pre')
  case Nil
  then show ?case
    by (cases ls') (subst samebinaryname_loop.simps, auto simp: encode_label_def label_length_byte)+
next
  case (Cons l ls)
  then have l: "valid_label l" "list_all valid_label ls" by auto
  note len = label_length_byte [OF l(1)]
  show ?case
  proof (cases ls')
    case Nil
    with len show ?thesis
      by (subst samebinaryname_loop.simps) (simp add: encode_label_def)
  next
    case (Cons k ks)
    with \<open>list_all valid_label ls'\<close> have k: "valid_label k" "list_all valid_label ks" by auto
    note lenk = label_length_byte [OF k(1)]
    have eq: "(word_of_nat (length l) :: byte) = word_of_nat (length k) \<longleftrightarrow> length l = length k"
      using len(1) lenk(1) by metis
    let ?a = "pre @ encode_name (l # ls) @ post" and ?b = "pre' @ encode_name (k # ks) @ post'"
    have IH: "samebinaryname_loop ?a (length pre + 1 + length l) ?b (length pre' + 1 + length k)
        = Some (map (map ascii_toupper) ls = map (map ascii_toupper) ks)"
      using Cons.IH [OF l(2) k(2), of "pre @ encode_label l" "pre' @ encode_label k"] by simp
    have same: "same_label (length l) ?a (length pre + 1) ?b (length pre' + 1)
        = Some (map ascii_toupper l = map ascii_toupper k)" if "length l = length k"
      using same_label_correct [OF refl that [symmetric], of "pre @ [word_of_nat (length l)]"
          "encode_name ls @ post" "pre' @ [word_of_nat (length k)]" "encode_name ks @ post'"]
      by (simp add: encode_label_def)
    have "rd ?a (length pre) = Some (word_of_nat (length l))"
      "rd ?b (length pre') = Some (word_of_nat (length k))"
      by (simp_all add: encode_label_def)
    note rds = this
    define a b where ab: "a = ?a" "b = ?b"
    note facts = rds [folded ab] IH [folded ab] same [folded ab] len lenk eq
    have "samebinaryname_loop a (length pre) b (length pre') =
        Some (map ascii_toupper l = map ascii_toupper k \<and> map (map ascii_toupper) ls = map (map ascii_toupper) ks)"
    proof (cases "length l = length k")
      case True
      then show ?thesis
        using facts(1-3) facts(4) [OF True] facts(5-)
        by (subst samebinaryname_loop.simps) simp
    next
      case False
      then have "map ascii_toupper l \<noteq> map ascii_toupper k" by (metis length_map)
      with False show ?thesis
        using facts(1,2,5-) by (subst samebinaryname_loop.simps) simp
    qed
    then show ?thesis by (simp add: ab Cons)
  qed
qed

subsection \<open>Properties\<close>

definition example_msg :: "byte list" where
  "example_msg = [2, 100, 101, 0, 3, 119, 119, 119, 0xC0, 0, 7]"

lemma ns_name_unpack_total:
  assumes "dst \<noteq> []"
  shows "\<exists>dst' r. ns_name_unpack msg src dst = Some (dst', r) \<and> length dst' = length dst"
proof (cases "src < 0 \<or> int (length msg) \<le> src")
  case False
  with assms show ?thesis
    unfolding ns_name_unpack_def using unpack_loop_safe [of "nat src" msg 0 dst "nat src" "-1" 0] by auto
qed (simp add: ns_name_unpack_def)

text \<open>
  C1: \<open>ns_name_unpack\<close> is memory safe and terminates on every message and every source pointer,
  compression loops included, provided the output has room for one byte: it never reads outside
  the message or writes outside the output, and always returns.
\<close>

theorem ns_name_unpack_safe:
  assumes "dst \<noteq> []"
  shows "\<exists>dst' r. ns_name_unpack msg src dst = Some (dst', r) \<and> length dst' = length dst"
  using assms by (rule ns_name_unpack_total)

theorem ns_name_unpack_safe_witness:
  "\<exists>dst' r. ns_name_unpack [0xC0, 0] 0 [0] = Some (dst', r) \<and> length dst' = 1"
  using ns_name_unpack_safe [of "[0]" "[0xC0, 0]" 0] by simp

lemma ns_name_unpack_Inr:
  assumes "ns_name_unpack msg src dst = Some (dst', Inr len)"
  shows "\<exists>ls h. name_at msg (nat src) ls h \<and> list_all valid_label ls \<and>
     length (encode_name ls) \<le> length dst \<and> take (length (encode_name ls)) dst' = encode_name ls \<and>
     0 < len \<and> ns_name_skip msg (nat src) = Inr (nat src + nat len)"
proof -
  from assms have loop: "unpack_loop msg (nat src) (nat src) dst 0 (-1) 0 = Some (dst', Inr len)"
    by (auto simp: ns_name_unpack_def split: if_splits)
  obtain q where "skip_loop msg (nat src) = Inr q" "len = int q - int (nat src)"
    using unpack_loop_consumed [OF loop] by auto
  with skip_loop_range [of msg "nat src" q]
  have "0 < len" "ns_name_skip msg (nat src) = Inr (nat src + nat len)"
    by (auto simp: ns_name_skip_def)
  with unpack_loop_sound [OF loop] show ?thesis
    unfolding reads_name_def by fastforce
qed

lemma ns_name_unpack_exact:
  assumes "name_at msg src ls h" "traversed msg src c" "dst \<noteq> []"
  shows "if length (encode_name ls) \<le> length dst \<and> (c = 0 \<or> c < length msg)
    then \<exists>dst' len. ns_name_unpack msg (int src) dst = Some (dst', Inr len) \<and>
      take (length (encode_name ls)) dst' = encode_name ls
    else \<exists>dst'. ns_name_unpack msg (int src) dst = Some (dst', Inl EMSGSIZE)"
proof -
  have eq: "ns_name_unpack msg (int src) dst = unpack_loop msg src src dst 0 (-1) 0"
    using name_at_inside [OF assms(1)] by (simp add: ns_name_unpack_def)
  obtain dst' r where loop: "unpack_loop msg src src dst 0 (-1) 0 = Some (dst', r)"
    using ns_name_unpack_total [OF assms(3), of msg "int src"] unfolding eq by blast
  show ?thesis
  proof (cases r)
    case (Inl e)
    with loop unpack_loop_exact [OF assms(1,2), of src dst 0 "-1" 0] unpack_loop_error [of msg src src dst 0 "-1" 0]
    show ?thesis unfolding eq by auto
  next
    case (Inr len)
    then obtain ls' h' where "name_at msg src ls' h'" "take (length (encode_name ls')) dst' = encode_name ls'"
      using unpack_loop_sound [OF loop [unfolded Inr]] by (auto simp: reads_name_def)
    with name_at_unique [OF assms(1)] loop Inr unpack_loop_exact [OF assms(1,2), of src dst 0 "-1" 0]
    show ?thesis unfolding eq by auto
  qed
qed

lemma ns_name_unpack_name_at:
  assumes "name_at msg src ls h" and "length (encode_name ls) \<le> length dst"
    and "length (encode_name ls) + 2 * h \<le> length msg"
  shows "\<exists>dst' len. ns_name_unpack msg (int src) dst = Some (dst', Inr len) \<and>
     take (length (encode_name ls)) dst' = encode_name ls"
proof -
  obtain c where c: "traversed msg src c" "c = 0 \<or> c < length (encode_name ls) + 2 * h"
    using traversed_name [OF assms(1)] by blast
  have "dst \<noteq> []" using assms(2) by auto
  from ns_name_unpack_exact [OF assms(1) c(1) this] assms(2,3) c(2) show ?thesis by auto
qed

text \<open>
  C11: when \<open>ns_name_unpack\<close> succeeds, the labels of the name at the source offset, following
  compression pointers, stand in the output as an uncompressed name of labels of 1 to 63
  bytes, and the returned count is what \<open>ns_name_skip\<close> advances over.
\<close>

theorem ns_name_unpack_sound:
  assumes "ns_name_unpack msg src dst = Some (dst', Inr len)"
  shows "\<exists>ls h. name_at msg (nat src) ls h \<and> list_all valid_label ls \<and>
     length (encode_name ls) \<le> length dst \<and> take (length (encode_name ls)) dst' = encode_name ls \<and>
     0 < len \<and> ns_name_skip msg (nat src) = Inr (nat src + nat len)"
  using assms by (rule ns_name_unpack_Inr)

theorem ns_name_unpack_sound_witness:
  "\<exists>ls h. name_at example_msg (nat 4) ls h \<and> list_all valid_label ls \<and>
     length (encode_name ls) \<le> length (replicate 16 (0 :: byte)) \<and>
     take (length (encode_name ls)) [3, 119, 119, 119, 2, 100, 101, 0, 0, 0, 0, 0, 0, 0, 0, 0] = encode_name ls \<and>
     0 < (6 :: int) \<and> ns_name_skip example_msg (nat 4) = Inr (nat 4 + nat 6)"
proof (rule ns_name_unpack_sound)
  show "ns_name_unpack example_msg 4 (replicate 16 0) =
      Some ([3, 119, 119, 119, 2, 100, 101, 0, 0, 0, 0, 0, 0, 0, 0, 0], Inr 6)"
    by code_simp
qed

text \<open>
  C12: which compressed names are unpacked.  For the name \<open>ls\<close> that stands at the source offset, with \<open>c\<close>
  bytes of labels and pointers traversed when the last pointer is followed, \<open>ns_name_unpack\<close> writes
  that name if it fits the output and there is no pointer or \<open>c\<close> is less than the message size, and
  fails with \<open>EMSGSIZE\<close> otherwise.  The count stays below the size of the name plus two bytes for
  each of its \<open>h\<close> pointers, so that names for which this does not exceed the message are never refused.
\<close>

theorem ns_name_unpack_complete:
  assumes "name_at msg src ls h" and "traversed msg src c" and "dst \<noteq> []"
  shows "(if length (encode_name ls) \<le> length dst \<and> (c = 0 \<or> c < length msg)
    then \<exists>dst' len. ns_name_unpack msg (int src) dst = Some (dst', Inr len) \<and>
      take (length (encode_name ls)) dst' = encode_name ls
    else \<exists>dst'. ns_name_unpack msg (int src) dst = Some (dst', Inl EMSGSIZE)) \<and>
    (c = 0 \<or> c < length (encode_name ls) + 2 * h)"
  using ns_name_unpack_exact [OF assms] traversed_name [OF assms(1)] traversed_unique [OF assms(2)] by blast

lemma example_msg_name: "name_at example_msg 4 [[119, 119, 119], [100, 101]] 1"
proof -
  have "name_at example_msg (0 + 1 + unat (2 :: byte)) [] 0"
    by (rule name_at.root) (simp add: rd_def example_msg_def)
  then have "name_at example_msg ((unat (0xC0 :: byte) - 192) * 256 + unat (0 :: byte)) [[100, 101]] 0"
    using name_at.label [of example_msg 0 2 "[100, 101]" "[]" 0] by (simp add: rd_def example_msg_def)
  then have "name_at example_msg (4 + 1 + unat (3 :: byte)) [[100, 101]] 1"
    using name_at.pointer [of example_msg 8 "0xC0" 0 "[[100, 101]]" 0] by (simp add: rd_def example_msg_def)
  then show ?thesis
    using name_at.label [of example_msg 4 3 "[119, 119, 119]" "[[100, 101]]" 1] by (simp add: rd_def example_msg_def)
qed

lemma example_msg_traversed: "traversed example_msg 4 6"
proof -
  have "traversed example_msg (0 + 1 + unat (2 :: byte)) 0"
    by (rule traversed.root) (simp add: rd_def example_msg_def)
  then have "traversed example_msg ((unat (0xC0 :: byte) - 192) * 256 + unat (0 :: byte)) 0"
    using traversed.label [of example_msg 0 2 0] by (simp add: rd_def example_msg_def)
  then have "traversed example_msg (4 + 1 + unat (3 :: byte)) 2"
    using traversed.pointer [of example_msg 8 "0xC0" 0 0] by (simp add: rd_def example_msg_def)
  then show ?thesis
    using traversed.label [of example_msg 4 3 2] by (simp add: rd_def example_msg_def)
qed

theorem ns_name_unpack_complete_witness:
  "(\<exists>dst' len. ns_name_unpack example_msg (int 4) (replicate 8 0) = Some (dst', Inr len) \<and>
     take (length (encode_name [[119, 119, 119], [100, 101]])) dst' = encode_name [[119, 119, 119], [100, 101]]) \<and>
   (\<exists>dst'. ns_name_unpack example_msg (int 4) (replicate 7 0) = Some (dst', Inl EMSGSIZE))"
  using ns_name_unpack_complete [OF example_msg_name example_msg_traversed, of "replicate 8 0"]
    ns_name_unpack_complete [OF example_msg_name example_msg_traversed, of "replicate 7 0"]
  by (simp add: example_msg_def)

text \<open>
  A name without a loop that the loop check refuses: the pointer at the end of the message leads
  back into the bytes of the first label, which spell a second one.
\<close>

lemma ns_name_unpack_refuses_loop_free:
  "name_at [3, 1, 97, 0, 0xC0, 1] 0 [[1, 97, 0], [97]] 1 \<and>
   (\<exists>dst'. ns_name_unpack [3, 1, 97, 0, 0xC0, 1] 0 (replicate 8 0) = Some (dst', Inl EMSGSIZE))"
proof
  let ?msg = "[3, 1, 97, 0, 0xC0, 1] :: byte list"
  have "name_at ?msg (1 + 1 + unat (1 :: byte)) [] 0" by (rule name_at.root) (simp add: rd_def)
  then have "name_at ?msg ((unat (0xC0 :: byte) - 192) * 256 + unat (1 :: byte)) [[97]] 0"
    using name_at.label [of ?msg 1 1 "[97]" "[]" 0] by (simp add: rd_def)
  then have "name_at ?msg (0 + 1 + unat (3 :: byte)) [[97]] 1"
    using name_at.pointer [of ?msg 4 "0xC0" 1 "[[97]]" 0] by (simp add: rd_def)
  then show "name_at ?msg 0 [[1, 97, 0], [97]] 1"
    using name_at.label [of ?msg 0 3 "[1, 97, 0]" "[[97]]" 1] by (simp add: rd_def)
  have "ns_name_unpack ?msg 0 (replicate 8 0) = Some ([3, 1, 97, 0, 0, 0, 0, 0], Inl EMSGSIZE)" by code_simp
  then show "\<exists>dst'. ns_name_unpack ?msg 0 (replicate 8 0) = Some (dst', Inl EMSGSIZE)" by blast
qed

text \<open>
  C39: \<open>ns_name_length_uncompressed\<close> never reads outside the packet, and returns \<open>n\<close> exactly when
  an uncompressed name of \<open>n \<le> 255\<close> bytes stands at the given position.
\<close>

theorem ns_name_length_uncompressed_correct:
  assumes "p \<le> length msg"
  shows "\<exists>r. ns_name_length_uncompressed msg p = Some r \<and>
    (\<forall>n. r = Inr n \<longleftrightarrow> (\<exists>ls. name_at msg p ls 0 \<and> n = length (encode_name ls) \<and> n \<le> 255))"
  using length_uncompressed_loop_correct [of p p msg] assms
  by (simp add: ns_name_length_uncompressed_def uncompressed_result_def NS_MAXCDNAME_def)

theorem ns_name_length_uncompressed_witness:
  "\<exists>r. ns_name_length_uncompressed example_msg 0 = Some r \<and>
    (\<forall>n. r = Inr n \<longleftrightarrow> (\<exists>ls. name_at example_msg 0 ls 0 \<and> n = length (encode_name ls) \<and> n \<le> 255))"
  using ns_name_length_uncompressed_correct [of 0 example_msg] by simp

text \<open>
  C38: \<open>ns_samebinaryname\<close> decides whether two uncompressed names have the same labels up to the case of
  the letters A to Z - each pair of characters equal, or the two forms of one letter -, and reads
  only the two names.
\<close>

theorem ns_samebinaryname_correct:
  assumes "list_all valid_label ls" and "list_all valid_label ls'"
  shows "ns_samebinaryname (encode_name ls) (encode_name ls') = Some (same_name ls ls')"
  using samebinaryname_loop_correct [OF assms, of "[]" "[]" "[]" "[]"]
  by (simp add: ns_samebinaryname_def same_name_fold [OF ascii_toupper_same])

theorem ns_samebinaryname_witness:
  "ns_samebinaryname (encode_name [[119], [68, 101]]) (encode_name [[87], [100, 69]]) =
    Some (same_name [[119], [68, 101]] [[87], [100, 69]]) \<and>
   ns_samebinaryname (encode_name [[0x5A]]) (encode_name [[0x7A]]) = Some (same_name [[0x5A]] [[0x7A]])"
  using ns_samebinaryname_correct [of "[[119], [68, 101]]" "[[87], [100, 69]]"]
    ns_samebinaryname_correct [of "[[0x5A]]" "[[0x7A]]"]
  by (simp add: valid_label_def)

end
