(* ===== verification/Dns_Ntop.thy ===== *)
theory Dns_Ntop
  imports Dns_Wire
begin

text \<open>
  Domain names from wire to presentation format: \<^verbatim>\<open>src/original/resolv/ns_name_ntop.c\<close> and
  \<^verbatim>\<open>ns_name_uncompress.c\<close>.

  A pointer that only moves forward over its object is the rest of the object it points to:
  \<open>*src++\<close> takes the head off the list, and is a fault on the empty list.  \<open>text_of\<close> is the
  reference: labels joined by dots, special characters escaped.
\<close>

subsection \<open>From wire to text\<close>

definition special :: "byte \<Rightarrow> bool" where
  "special ch \<longleftrightarrow> ch = 0x22 \<or> ch = 0x2E \<or> ch = 0x3B \<or> ch = 0x5C \<or> ch = 0x28 \<or> ch = 0x29
     \<or> ch = 0x40 \<or> ch = 0x24"

definition printable :: "byte \<Rightarrow> bool" where
  "printable ch \<longleftrightarrow> 0x20 < ch \<and> ch < 0x7F"

fun ntop_label :: "nat \<Rightarrow> byte list \<Rightarrow> byte list \<Rightarrow> nat \<Rightarrow> (byte list \<times> (byte list \<times> nat) cret) option" where
  "ntop_label 0 cp dst dn = Some (dst, Inr (cp, dn))"
| "ntop_label (Suc l) [] dst dn = None"
| "ntop_label (Suc l) (c # cp) dst dn =
     (if special c then
        (if length dst < dn + 2 then Some (dst, Inl EMSGSIZE)
         else do { dst \<leftarrow> wr dst dn 0x5C; dst \<leftarrow> wr dst (dn + 1) c; ntop_label l cp dst (dn + 2) })
      else if \<not> printable c then
        (if length dst < dn + 4 then Some (dst, Inl EMSGSIZE)
         else do { dst \<leftarrow> wr dst dn 0x5C;
                   dst \<leftarrow> wr dst (dn + 1) (0x30 + c div 100);
                   dst \<leftarrow> wr dst (dn + 2) (0x30 + (c mod 100) div 10);
                   dst \<leftarrow> wr dst (dn + 3) (0x30 + c mod 10);
                   ntop_label l cp dst (dn + 4) })
      else
        (if length dst < dn + 2 then Some (dst, Inl EMSGSIZE)
         else do { dst \<leftarrow> wr dst dn c; ntop_label l cp dst (dn + 1) }))"

lemma ntop_label_rest:
  "ntop_label l cp dst dn = Some (dst', Inr (cp', dn')) \<Longrightarrow> cp' = drop l cp"
  by (induction l cp dst dn arbitrary: dst' rule: ntop_label.induct) (auto split: if_splits bind_splits)

definition ntop_finish :: "byte list \<Rightarrow> nat \<Rightarrow> (byte list \<times> nat cret) option" where
  "ntop_finish dst dn =
     (if dn = 0 \<and> length dst \<le> dn then Some (dst, Inl EMSGSIZE)
      else do { (dst, dn) \<leftarrow> (if dn = 0 then do { dst \<leftarrow> wr dst dn 0x2E; Some (dst, dn + 1) } else Some (dst, dn));
                if length dst \<le> dn then Some (dst, Inl EMSGSIZE)
                else do { dst \<leftarrow> wr dst dn 0; Some (dst, Inr (dn + 1)) } })"

function ntop_loop :: "byte list \<Rightarrow> byte list \<Rightarrow> nat \<Rightarrow> (byte list \<times> nat cret) option" where
  "ntop_loop [] dst dn = None"
| "ntop_loop (l # cp) dst dn =
     (if l = 0 then ntop_finish dst dn
      else if 64 \<le> unat l then Some (dst, Inl EMSGSIZE)
      else if dn \<noteq> 0 \<and> length dst \<le> dn then Some (dst, Inl EMSGSIZE)
      else do { (dst, dn) \<leftarrow> (if dn \<noteq> 0 then do { dst \<leftarrow> wr dst dn 0x2E; Some (dst, dn + 1) } else Some (dst, dn));
                (dst, r) \<leftarrow> ntop_label (unat l) cp dst dn;
                case r of Inl e \<Rightarrow> Some (dst, Inl e)
                | Inr (cp', dn') \<Rightarrow> ntop_loop cp' dst dn' })"
  by pat_completeness auto
termination
  by (relation "measure (\<lambda>(cp, dst, dn). length cp)") (auto dest!: ntop_label_rest)

declare ntop_loop.simps [simp del]

definition ns_name_ntop :: "byte list \<Rightarrow> byte list \<Rightarrow> (byte list \<times> nat cret) option" where
  "ns_name_ntop src dst = ntop_loop src dst 0"

text \<open>
  A local array is uninitialised when the function starts; its contents (\<open>tmp0\<close>, \<open>buf0\<close>, of
  \<open>NS_MAXCDNAME\<close> bytes) are an argument of the model.
\<close>

definition ns_name_uncompress ::
  "byte list \<Rightarrow> byte list \<Rightarrow> int \<Rightarrow> byte list \<Rightarrow> (byte list \<times> int cret) option" where
  "ns_name_uncompress tmp0 msg src dst =
     do { (tmp, n) \<leftarrow> ns_name_unpack msg src tmp0;
          case n of Inl e \<Rightarrow> Some (dst, Inl e)
          | Inr n \<Rightarrow> do { (dst, r) \<leftarrow> ns_name_ntop tmp dst;
                          case r of Inl e \<Rightarrow> Some (dst, Inl e) | Inr _ \<Rightarrow> Some (dst, Inr n) } }"

subsection \<open>The text of a name\<close>

text \<open>
  The characters that master files give a meaning stand behind a backslash, other graphic ASCII
  characters for themselves, and every other byte is a backslash with three decimal digits.
\<close>

definition escape_chars :: "byte list" where
  "escape_chars = map of_char (CHR 0x22 # CHR 0x5C # ''$().;@'')"

definition graphic :: "byte \<Rightarrow> bool" where
  "graphic c \<longleftrightarrow> 33 \<le> unat c \<and> unat c \<le> 126"

definition esc :: "byte \<Rightarrow> byte list" where
  "esc c = (if c \<in> set escape_chars then [0x5C, c]
     else if graphic c then [c]
     else [0x5C, 0x30 + c div 100, 0x30 + (c mod 100) div 10, 0x30 + c mod 10])"

lemma special_escaped: "special c \<longleftrightarrow> c \<in> set escape_chars"
  by (rule byte_all) code_simp

lemma printable_graphic: "printable c \<longleftrightarrow> graphic c"
  by (rule byte_all) code_simp

lemma esc_code:
  "esc c = (if special c then [0x5C, c]
     else if \<not> printable c then [0x5C, 0x30 + c div 100, 0x30 + (c mod 100) div 10, 0x30 + c mod 10]
     else [c])"
  by (simp add: esc_def special_escaped printable_graphic)

definition text_label :: "label \<Rightarrow> byte list" where
  "text_label l = concat (map esc l)"

definition text_tail :: "label list \<Rightarrow> byte list" where
  "text_tail ls = concat (map (\<lambda>l. 0x2E # text_label l) ls)"

definition text_of :: "label list \<Rightarrow> byte list" where
  "text_of ls = (case ls of [] \<Rightarrow> [0x2E] | l # ls' \<Rightarrow> text_label l @ text_tail ls')"

lemma text_label_simps [simp]:
  "text_label [] = []" "text_label (c # l) = esc c @ text_label l"
  by (simp_all add: text_label_def)

lemma text_tail_simps [simp]:
  "text_tail [] = []" "text_tail (l # ls) = 0x2E # text_label l @ text_tail ls"
  by (simp_all add: text_tail_def)

lemma esc_nonempty [simp]: "esc c \<noteq> []"
  by (simp add: esc_def)

subsection \<open>What \<open>ns_name_ntop\<close> writes\<close>

lemma ntop_label_step:
  "ntop_label (Suc l) (c # cp) dst dn =
     (if length dst < dn + max 2 (length (esc c)) then Some (dst, Inl EMSGSIZE)
      else ntop_label l cp (overlay dst dn (esc c)) (dn + length (esc c)))"
  using overlay_overlay [of dn "[0x5C]" "[c]" dst]
    overlay_overlay [of dn "[0x5C]" "[0x30 + c div 100]" dst]
    overlay_overlay [of dn "[0x5C, 0x30 + c div 100]" "[0x30 + (c mod 100) div 10]" dst]
    overlay_overlay [of dn "[0x5C, 0x30 + c div 100, 0x30 + (c mod 100) div 10]" "[0x30 + c mod 10]" dst]
  by (simp add: esc_code wr_overlay eval_nat_numeral)

declare ntop_label.simps(3) [simp del]

lemma ntop_label_fits:
  "dn + length (text_label xs) < length dst \<Longrightarrow>
     ntop_label (length xs) (xs @ rest) dst dn =
       Some (overlay dst dn (text_label xs), Inr (rest, dn + length (text_label xs)))"
proof (induction xs arbitrary: dst dn)
  case (Cons c xs)
  have "length (esc c) > 0" by simp
  with Cons show ?case by (auto simp: ntop_label_step add.assoc simp del: length_greater_0_conv)
qed simp

lemma ntop_label_full:
  "length dst \<le> dn + length (text_label xs) \<Longrightarrow> dn \<le> length dst \<Longrightarrow>
     \<exists>dst' r. ntop_label (length xs) (xs @ rest) dst dn = Some (dst', r) \<and> length dst' = length dst \<and>
       (r = Inl EMSGSIZE \<or> r = Inr (rest, length dst))"
proof (induction xs arbitrary: dst dn)
  case (Cons c xs)
  show ?case
  proof (cases "length dst < dn + max 2 (length (esc c))")
    case True
    then show ?thesis by (simp add: ntop_label_step)
  next
    case False
    then have le: "dn + length (esc c) \<le> length dst" by simp
    with Cons.IH [of "overlay dst dn (esc c)" "dn + length (esc c)"] Cons.prems False show ?thesis
      by (simp add: ntop_label_step)
  qed
qed simp

lemma ntop_loop_root: "ntop_loop (0 # cp) dst dn = ntop_finish dst dn"
  by (simp add: ntop_loop.simps)

lemma ntop_loop_label:
  assumes "valid_label l"
  shows "ntop_loop (encode_label l @ cp) dst dn =
    (if dn \<noteq> 0 \<and> length dst \<le> dn then Some (dst, Inl EMSGSIZE)
     else do { (dst, r) \<leftarrow> (if dn \<noteq> 0 then ntop_label (length l) (l @ cp) (overlay dst dn [0x2E]) (dn + 1)
                          else ntop_label (length l) (l @ cp) dst dn);
               case r of Inl e \<Rightarrow> Some (dst, Inl e) | Inr (cp', dn') \<Rightarrow> ntop_loop cp' dst dn' })"
  using label_length_byte [OF assms] assms
  by (simp add: encode_label_def ntop_loop.simps(2) valid_label_def wr_overlay)

lemma ntop_loop_tail:
  "list_all valid_label ls \<Longrightarrow> 0 < dn \<Longrightarrow> dn \<le> length dst \<Longrightarrow>
   (if dn + length (text_tail ls) < length dst
    then ntop_loop (encode_name ls @ post) dst dn =
      Some (overlay dst dn (text_tail ls @ [0]), Inr (dn + length (text_tail ls) + 1))
    else \<exists>dst'. ntop_loop (encode_name ls @ post) dst dn = Some (dst', Inl EMSGSIZE) \<and> length dst' = length dst)"
proof (induction ls arbitrary: dst dn)
  case Nil
  then show ?case by (simp add: ntop_loop_root ntop_finish_def wr_overlay)
next
  case (Cons l ls)
  show ?case
  proof (cases "dn < length dst")
    case False
    with Cons.prems show ?thesis by (simp add: ntop_loop_label)
  next
    case dn: True
    let ?d = "overlay dst dn [0x2E]"
    show ?thesis
    proof (cases "dn + 1 + length (text_label l) < length dst")
      case True
      define d' where "d' = overlay dst dn (0x2E # text_label l)"
      have step: "ntop_loop (encode_name (l # ls) @ post) dst dn =
          ntop_loop (encode_name ls @ post) d' (dn + 1 + length (text_label l))"
        using True dn Cons.prems overlay_overlay [of dn "[0x2E]" "text_label l" dst]
        by (simp add: ntop_loop_label ntop_label_fits d'_def)
      show ?thesis
        using Cons.IH [of "dn + 1 + length (text_label l)" d'] Cons.prems True
          overlay_overlay [of dn "0x2E # text_label l" "text_tail ls @ [0]" dst]
        unfolding step by (auto simp: d'_def add_ac split: if_split_asm)
    next
      case False
      then obtain d' r where "ntop_label (length l) (l @ encode_name ls @ post) ?d (dn + 1) = Some (d', r)"
        "length d' = length dst" "r = Inl EMSGSIZE \<or> r = Inr (encode_name ls @ post, length dst)"
        using ntop_label_full [of ?d "dn + 1" l "encode_name ls @ post"] dn by auto
      moreover from dn have "dst \<noteq> []" by auto
      ultimately show ?thesis
        using Cons.prems False dn Cons.IH [of "length dst" d']
        by (auto simp: ntop_loop_label)
    qed
  qed
qed

lemma ntop_correct:
  assumes "list_all valid_label ls"
  shows "if length (text_of ls) < length dst
    then ns_name_ntop (encode_name ls @ post) dst =
      Some (overlay dst 0 (text_of ls @ [0]), Inr (length (text_of ls) + 1))
    else \<exists>dst'. ns_name_ntop (encode_name ls @ post) dst = Some (dst', Inl EMSGSIZE) \<and> length dst' = length dst"
proof (cases ls)
  case Nil
  then show ?thesis
    using overlay_overlay [of 0 "[0x2E]" "[0]" dst] length_overlay [of 0 "[0x2E]" dst]
    by (auto simp: Suc_le_eq ns_name_ntop_def ntop_loop_root ntop_finish_def wr_overlay text_of_def)
next
  case (Cons l ks)
  with assms have l: "valid_label l" "list_all valid_label ks" by auto
  then have pos: "0 < length (text_label l)" by (cases l) (auto simp: valid_label_def)
  show ?thesis
  proof (cases "length (text_label l) < length dst")
    case True
    have step: "ns_name_ntop (encode_name ls @ post) dst =
        ntop_loop (encode_name ks @ post) (overlay dst 0 (text_label l)) (length (text_label l))"
      using True l by (simp add: Cons ns_name_ntop_def ntop_loop_label ntop_label_fits)
    show ?thesis
      using ntop_loop_tail [OF l(2) pos, of "overlay dst 0 (text_label l)" post] True
        overlay_overlay [of 0 "text_label l" "text_tail ks @ [0]" dst]
      unfolding step by (auto simp: Cons text_of_def add_ac split: if_split_asm)
  next
    case False
    show ?thesis
    proof (cases "dst = []")
      case True
      from l obtain c cs where "l = c # cs" by (cases l) (auto simp: valid_label_def)
      with True l show ?thesis
        by (simp add: Cons ns_name_ntop_def ntop_loop_label ntop_label_step text_of_def)
    next
      case dst: False
    from False obtain d' r where "ntop_label (length l) (l @ encode_name ks @ post) dst 0 = Some (d', r)"
      "length d' = length dst" "r = Inl EMSGSIZE \<or> r = Inr (encode_name ks @ post, length dst)"
      using ntop_label_full [of dst 0 l "encode_name ks @ post"] by auto
    moreover have "\<exists>d''. ntop_loop (encode_name ks @ post) d' (length dst) = Some (d'', Inl EMSGSIZE) \<and>
          length d'' = length dst" if "length d' = length dst"
        using ntop_loop_tail [OF l(2), of "length dst" d' post] that dst by auto
      ultimately show ?thesis
        using False l by (auto simp: Cons ns_name_ntop_def ntop_loop_label text_of_def)
    qed
  qed
qed

lemma ntop_fits:
  "list_all valid_label ls \<Longrightarrow> length (text_of ls) < length dst \<Longrightarrow>
     ns_name_ntop (encode_name ls @ post) dst =
       Some (overlay dst 0 (text_of ls @ [0]), Inr (length (text_of ls) + 1))"
  using ntop_correct [of ls dst post] by simp

subsection \<open>Properties\<close>

text \<open>
  C33: \<open>ns_name_ntop\<close> on a well-formed wire name writes its escaped text and a terminator and returns
  the number of bytes written, if the output has room for both; otherwise it fails with
  \<open>EMSGSIZE\<close> without having written outside the output.
\<close>

theorem ns_name_ntop_correct:
  assumes "list_all valid_label ls"
  shows "if length (text_of ls) < length dst
    then ns_name_ntop (encode_name ls @ post) dst =
      Some (overlay dst 0 (text_of ls @ [0]), Inr (length (text_of ls) + 1))
    else \<exists>dst'. ns_name_ntop (encode_name ls @ post) dst = Some (dst', Inl EMSGSIZE) \<and> length dst' = length dst"
  using assms by (rule ntop_correct)

theorem ns_name_ntop_witness:
  "ns_name_ntop [3, 119, 46, 7, 2, 100, 101, 0] (replicate 12 0) =
     Some ([119, 92, 46, 92, 48, 48, 55, 46, 100, 101, 0, 0], Inr 11)"
  using ns_name_ntop_correct [of "[[119, 46, 7], [100, 101]]" "replicate 12 0" "[]"]
  by (simp add: valid_label_def encode_label_def text_of_def esc_code special_def printable_def overlay_def)

text \<open>
  C28: \<open>ns_name_uncompress\<close> turns a compressed name of a message into the text of the labels it
  denotes, and returns the number of message bytes \<open>ns_name_skip\<close> would step over; when the
  text does not fit the output the result is \<open>EMSGSIZE\<close>.  The name and two bytes for each of its \<open>h\<close>
  pointers must not exceed the message, so that the loop check of \<open>ns_name_unpack\<close> cannot refuse it.
\<close>

theorem ns_name_uncompress_correct:
  assumes "name_at msg src ls h" and "length (encode_name ls) \<le> length tmp0"
    and "length (encode_name ls) + 2 * h \<le> length msg"
  shows "if length (text_of ls) < length dst
    then \<exists>n. ns_name_uncompress tmp0 msg (int src) dst = Some (overlay dst 0 (text_of ls @ [0]), Inr n) \<and>
      ns_name_skip msg src = Inr (src + nat n)
    else \<exists>dst'. ns_name_uncompress tmp0 msg (int src) dst = Some (dst', Inl EMSGSIZE) \<and> length dst' = length dst"
proof -
  obtain tmp n where unp: "ns_name_unpack msg (int src) tmp0 = Some (tmp, Inr n)"
    "take (length (encode_name ls)) tmp = encode_name ls"
    using ns_name_unpack_name_at [OF assms] by blast
  then obtain post where tmp: "tmp = encode_name ls @ post" by (metis append_take_drop_id)
  have "ns_name_skip msg src = Inr (src + nat n)" using ns_name_unpack_Inr [OF unp(1)] by auto
  with unp(1) ntop_correct [OF name_at_valid [OF assms(1)], of dst post] show ?thesis
    by (auto simp: ns_name_uncompress_def tmp split: if_splits)
qed

theorem ns_name_uncompress_witness:
  "\<exists>n. ns_name_uncompress (replicate 255 0) example_msg (int 4) (replicate 8 0) =
      Some ([119, 119, 119, 46, 100, 101, 0, 0], Inr n) \<and> ns_name_skip example_msg 4 = Inr (4 + nat n)"
  using ns_name_uncompress_correct [OF example_msg_name, of "replicate 255 0" "replicate 8 0"]
  by (simp add: example_msg_def text_of_def esc_code special_def printable_def overlay_def)

end
