(* ===== verification/Dns_Pton.thy ===== *)
theory Dns_Pton
  imports Dns_Ntop
begin

text \<open>
  Domain names from presentation to wire format: \<^verbatim>\<open>src/original/resolv/ns_name_pton.c\<close>.

  Characters are bytes.  The source reads them through \<open>char\<close>, whose values from 128 on are
  negative; every test they are put to (against digits and single ASCII characters) gives the
  same answer for the negative value and for the byte.  The loop is proved against a reference
  parser that first cuts the text into tokens and then the tokens into labels.
\<close>

subsection \<open>From text to wire\<close>

definition is_digit :: "byte \<Rightarrow> bool" where
  "is_digit c \<longleftrightarrow> 0x30 \<le> c \<and> c \<le> 0x39"

text \<open>
  The end of the string, reached by the loop of \<open>ns_name_pton\<close>, and the end after an unescaped
  dot share the closing of the name; the C code has it twice.  \<open>fq\<close> is the value returned.
\<close>

definition pton_close :: "byte list \<Rightarrow> nat \<Rightarrow> nat \<Rightarrow> nat \<Rightarrow> (byte list \<times> nat cret) option" where
  "pton_close dst c bp fq =
     (if c \<noteq> 0 \<and> length dst \<le> bp then Some (dst, Inl EMSGSIZE)
      else do { (dst, bp) \<leftarrow> (if c \<noteq> 0 then do { dst \<leftarrow> wr dst bp 0; Some (dst, bp + 1) } else Some (dst, bp));
                if NS_MAXCDNAME < bp then Some (dst, Inl EMSGSIZE) else Some (dst, Inr fq) })"

definition pton_end :: "byte list \<Rightarrow> nat \<Rightarrow> nat \<Rightarrow> bool \<Rightarrow> (byte list \<times> nat cret) option" where
  "pton_end dst label bp escaped =
     (if escaped then Some (dst, Inl EMSGSIZE)
      else let c = bp - label - 1 in
        if c AND unat NS_CMPRSFLGS \<noteq> 0 then Some (dst, Inl EMSGSIZE)
        else if length dst \<le> label then Some (dst, Inl EMSGSIZE)
        else do { dst \<leftarrow> wr dst label (word_of_nat c); pton_close dst c bp 0 })"

text \<open>The main loop; \<open>sz\<close>-checked stores of a character are the last lines of the loop body.\<close>

fun pton_loop :: "byte list \<Rightarrow> byte list \<Rightarrow> nat \<Rightarrow> nat \<Rightarrow> bool \<Rightarrow> (byte list \<times> nat cret) option" where
  "pton_loop [] dst label bp escaped = None"
| "pton_loop (c # src) dst label bp escaped =
     (if c = 0 then pton_end dst label bp escaped
      else if escaped then
        (if is_digit c then
           (case src of
              [] \<Rightarrow> None
            | c2 # src2 \<Rightarrow>
                if c2 = 0 \<or> \<not> is_digit c2 then Some (dst, Inl EMSGSIZE)
                else (case src2 of
                   [] \<Rightarrow> None
                 | c3 # src3 \<Rightarrow>
                     if c3 = 0 \<or> \<not> is_digit c3 then Some (dst, Inl EMSGSIZE)
                     else let n = (unat c - 48) * 100 + (unat c2 - 48) * 10 + (unat c3 - 48) in
                       if 255 < n then Some (dst, Inl EMSGSIZE)
                       else if length dst \<le> bp then Some (dst, Inl EMSGSIZE)
                       else do { dst \<leftarrow> wr dst bp (word_of_nat n);
                                 pton_loop src3 dst label (bp + 1) False }))
         else if length dst \<le> bp then Some (dst, Inl EMSGSIZE)
         else do { dst \<leftarrow> wr dst bp c; pton_loop src dst label (bp + 1) False })
      else if c = 0x5C then pton_loop src dst label bp True
      else if c = 0x2E then
        (let k = bp - label - 1 in
         if k AND unat NS_CMPRSFLGS \<noteq> 0 then Some (dst, Inl EMSGSIZE)
         else if length dst \<le> label then Some (dst, Inl EMSGSIZE)
         else do { dst \<leftarrow> wr dst label (word_of_nat k);
                   case src of
                     [] \<Rightarrow> None
                   | d # _ \<Rightarrow>
                       if d = 0 then pton_close dst k bp 1
                       else if k = 0 \<or> d = 0x2E then Some (dst, Inl EMSGSIZE)
                       else pton_loop src dst bp (bp + 1) False })
      else if length dst \<le> bp then Some (dst, Inl EMSGSIZE)
      else do { dst \<leftarrow> wr dst bp c; pton_loop src dst label (bp + 1) False })"

definition ns_name_pton :: "byte list \<Rightarrow> byte list \<Rightarrow> (byte list \<times> nat cret) option" where
  "ns_name_pton src dst = pton_loop src dst 0 1 False"

subsection \<open>What \<open>ns_name_pton\<close> accepts\<close>

text \<open>
  The reference: the text is cut into tokens, an unescaped dot or a character, and the tokens
  into labels.  \<open>lex_name\<close> and \<open>labels_of\<close> do no bounds checking; the limits on names (63 bytes per
  label, 255 bytes on the wire) and the size of the output are conditions of \<open>name_result\<close>.
\<close>

datatype tok = Dot | Ch byte

definition dec3 :: "byte \<Rightarrow> byte \<Rightarrow> byte \<Rightarrow> nat" where
  "dec3 c c2 c3 = (unat c - 48) * 100 + (unat c2 - 48) * 10 + (unat c3 - 48)"

fun lex_name :: "byte list \<Rightarrow> tok list option" where
  "lex_name [] = Some []"
| "lex_name (c # s) =
     (if c = 0x5C then
        (case s of
           [] \<Rightarrow> None
         | d # s1 \<Rightarrow>
             if is_digit d then
               (case s1 of
                  e # f # s3 \<Rightarrow>
                    if is_digit e \<and> is_digit f \<and> dec3 d e f \<le> 255
                    then map_option ((#) (Ch (word_of_nat (dec3 d e f)))) (lex_name s3) else None
                | _ \<Rightarrow> None)
             else map_option ((#) (Ch d)) (lex_name s1))
      else if c = 0x2E then map_option ((#) Dot) (lex_name s)
      else map_option ((#) (Ch c)) (lex_name s))"

fun labels_of :: "label \<Rightarrow> tok list \<Rightarrow> (label list \<times> nat) option" where
  "labels_of cur [] = Some (if cur = [] then [] else [cur], 0)"
| "labels_of cur (Ch c # ts) = labels_of (cur @ [c]) ts"
| "labels_of cur [Dot] = Some (if cur = [] then [] else [cur], 1)"
| "labels_of cur (Dot # t # ts) =
     (if cur = [] \<or> t = Dot then None
      else map_option (\<lambda>(ls, fq). (cur # ls, fq)) (labels_of [] (t # ts)))"

definition fits_name :: "nat \<Rightarrow> label list \<Rightarrow> bool" where
  "fits_name sz ls \<longleftrightarrow> list_all valid_label ls \<and> length (encode_name ls) \<le> NS_MAXCDNAME \<and> length (encode_name ls) \<le> sz"

definition parse_name :: "byte list \<Rightarrow> (label list \<times> nat) option" where
  "parse_name s = Option.bind (lex_name s) (labels_of [])"

lemma lex_name_char: "c \<noteq> 0x5C \<Longrightarrow> c \<noteq> 0x2E \<Longrightarrow> lex_name (c # s) = map_option ((#) (Ch c)) (lex_name s)"
  by simp

lemma lex_name_dot: "lex_name (0x2E # s) = map_option ((#) Dot) (lex_name s)"
  by simp

lemma lex_name_escaped: "\<not> is_digit c \<Longrightarrow> lex_name (0x5C # c # s) = map_option ((#) (Ch c)) (lex_name s)"
  by simp

lemma lex_name_decimal:
  "is_digit c \<Longrightarrow> is_digit d \<Longrightarrow> is_digit e \<Longrightarrow> lex_name (0x5C # c # d # e # s) =
     (if dec3 c d e \<le> 255 then map_option ((#) (Ch (word_of_nat (dec3 c d e)))) (lex_name s) else None)"
  by simp

lemma lex_name_bad:
  "lex_name [0x5C] = None"
  "is_digit c \<Longrightarrow> lex_name [0x5C, c] = None"
  "is_digit c \<Longrightarrow> \<not> is_digit d \<Longrightarrow> lex_name (0x5C # c # d # s) = None"
  "is_digit c \<Longrightarrow> lex_name [0x5C, c, d] = None"
  "is_digit c \<Longrightarrow> \<not> is_digit e \<Longrightarrow> lex_name (0x5C # c # d # e # s) = None"
  by (simp_all split: list.split)

lemma lex_name_Cons: "lex_name (d # s) = Some ts \<Longrightarrow> \<exists>t ts'. ts = t # ts' \<and> (t = Dot \<longleftrightarrow> d = 0x2E)"
  by (auto split: if_splits list.splits)

lemmas lex_name_steps = lex_name_char lex_name_dot lex_name_escaped lex_name_decimal lex_name_bad

declare lex_name.simps(2) [simp del]

text \<open>Parsing the text of a name gives the name back.\<close>

lemma esc_digits:
  "is_digit (0x30 + c div 100)" "is_digit (0x30 + (c mod 100) div 10)" "is_digit (0x30 + c mod 10)"
  "dec3 (0x30 + c div 100) (0x30 + (c mod 100) div 10) (0x30 + c mod 10) = unat c"
proof -
  have "is_digit (0x30 + c div 100) \<and> is_digit (0x30 + (c mod 100) div 10) \<and> is_digit (0x30 + c mod 10) \<and>
      dec3 (0x30 + c div 100) (0x30 + (c mod 100) div 10) (0x30 + c mod 10) = unat c"
    by (rule byte_all [of "\<lambda>c. is_digit (0x30 + c div 100) \<and> is_digit (0x30 + (c mod 100) div 10) \<and>
       is_digit (0x30 + c mod 10) \<and>
       dec3 (0x30 + c div 100) (0x30 + (c mod 100) div 10) (0x30 + c mod 10) = unat c"]) code_simp
  then show "is_digit (0x30 + c div 100)" "is_digit (0x30 + (c mod 100) div 10)" "is_digit (0x30 + c mod 10)"
    "dec3 (0x30 + c div 100) (0x30 + (c mod 100) div 10) (0x30 + c mod 10) = unat c" by blast+
qed

lemma special_not_digit: "special c \<Longrightarrow> \<not> is_digit c"
  by (auto simp: special_def is_digit_def)

lemma lex_esc: "lex_name (esc c @ s) = map_option ((#) (Ch c)) (lex_name s)"
proof -
  have "unat c \<le> 255" using unat_byte_less [of c] by linarith
  then show ?thesis
    using special_not_digit [of c]
    by (auto simp: esc_code esc_digits special_def lex_name_steps)
qed

lemma lex_text_label: "lex_name (text_label l @ s) = map_option ((@) (map Ch l)) (lex_name s)"
  by (induction l) (auto simp: lex_esc option.map_comp comp_def option.map_ident)

lemma labels_of_chars: "labels_of cur (map Ch l @ ts) = labels_of (cur @ l) ts"
  by (induction l arbitrary: cur) auto

lemma text_tail_lex: "\<exists>ts. lex_name (text_tail ls) = Some ts \<and> (ls \<noteq> [] \<longrightarrow> list_all valid_label ls \<longrightarrow>
    (\<exists>c ts'. ts = Dot # Ch c # ts' \<and> labels_of [] (Ch c # ts') = Some (ls, 0)))"
proof (induction ls)
  case (Cons l ls)
  then obtain ts where ts: "lex_name (text_tail ls) = Some ts" by blast
  have lx: "lex_name (text_tail (l # ls)) = Some (Dot # map Ch l @ ts)"
    by (simp add: lex_text_label ts lex_name_dot)
  show ?case
  proof (cases "list_all valid_label (l # ls)")
    case True
    then obtain c l' where l: "l = c # l'" by (cases l) (auto simp: valid_label_def)
    have "labels_of [] (map Ch l @ ts) = Some (l # ls, 0)"
    proof (cases ls)
      case Nil
      with ts have "ts = []" by simp
      with l show ?thesis unfolding labels_of_chars by (simp add: Nil)
    next
      case (Cons k ks)
      with True Cons.IH ts obtain d ts' where "ts = Dot # Ch d # ts'" "labels_of [] (Ch d # ts') = Some (ls, 0)"
        by auto
      with l show ?thesis unfolding labels_of_chars by simp
    qed
    with lx l show ?thesis by auto
  qed (use lx in auto)
qed simp

lemma parse_text_of:
  assumes "list_all valid_label ls"
  shows "parse_name (text_of ls) = Some (ls, if ls = [] then 1 else 0)"
proof (cases ls)
  case Nil
  then show ?thesis by (simp add: parse_name_def text_of_def lex_name_dot)
next
  case (Cons l ks)
  from text_tail_lex [of ls] assms Cons obtain c ts' where
    "lex_name (text_tail ls) = Some (Dot # Ch c # ts')" "labels_of [] (Ch c # ts') = Some (ls, 0)" by auto
  with Cons show ?thesis
    by (auto simp: parse_name_def text_of_def lex_name_dot)
qed

lemma text_no_nul: "0 \<notin> set (text_of ls)"
proof -
  have "0 \<notin> set (esc c)" for c
    by (rule byte_all [of "\<lambda>c. 0 \<notin> set (esc c)"]) code_simp
  then show ?thesis by (auto simp: text_of_def text_label_def text_tail_def split: list.splits)
qed

subsection \<open>The loop of \<open>ns_name_pton\<close> against the reference\<close>

lemma flags_iff:
  assumes "k < 256"
  shows "k AND unat NS_CMPRSFLGS = 0 \<longleftrightarrow> k < 64"
proof -
  have "k AND unat NS_CMPRSFLGS = unat (word_of_nat k AND NS_CMPRSFLGS)"
    using assms by (simp only: unsigned_and_eq word_of_nat_byte_eq)
  with assms show ?thesis by (simp add: cmprsflgs_none word_of_nat_byte_eq)
qed

lemma flags_small: "k < 64 \<Longrightarrow> k AND unat NS_CMPRSFLGS = 0"
  by (simp add: flags_iff)

lemma flags_big: "64 \<le> k \<Longrightarrow> k < 256 \<Longrightarrow> k AND unat NS_CMPRSFLGS \<noteq> 0"
  by (simp add: flags_iff)

lemma pton_close_long:
  "NS_MAXCDNAME < bp \<Longrightarrow> \<exists>dst'. pton_close dst c bp fq = Some (dst', Inl EMSGSIZE) \<and> length dst' = length dst"
  by (simp add: pton_close_def mem_simps)

lemma pton_loop_char:
  "c \<noteq> 0 \<Longrightarrow> c \<noteq> 0x5C \<Longrightarrow> c \<noteq> 0x2E \<Longrightarrow> pton_loop (c # s) dst label bp False =
     (if length dst \<le> bp then Some (dst, Inl EMSGSIZE) else pton_loop s (dst[bp := c]) label (bp + 1) False)"
  by (simp add: mem_simps)

lemma pton_loop_escaped:
  "c \<noteq> 0 \<Longrightarrow> \<not> is_digit c \<Longrightarrow> pton_loop (0x5C # c # s) dst label bp False =
     (if length dst \<le> bp then Some (dst, Inl EMSGSIZE) else pton_loop s (dst[bp := c]) label (bp + 1) False)"
  by (simp add: mem_simps)

lemma pton_loop_decimal:
  "is_digit c \<Longrightarrow> is_digit d \<Longrightarrow> is_digit e \<Longrightarrow> pton_loop (0x5C # c # d # e # s) dst label bp False =
     (if 255 < dec3 c d e \<or> length dst \<le> bp then Some (dst, Inl EMSGSIZE)
      else pton_loop s (dst[bp := word_of_nat (dec3 c d e)]) label (bp + 1) False)"
  by (auto simp: mem_simps is_digit_def dec3_def Let_def)

lemma pton_loop_decimal_bad:
  "is_digit c \<Longrightarrow> \<not> is_digit d \<Longrightarrow> pton_loop (0x5C # c # d # s) dst label bp False = Some (dst, Inl EMSGSIZE)"
  "is_digit c \<Longrightarrow> is_digit d \<Longrightarrow> \<not> is_digit e \<Longrightarrow>
     pton_loop (0x5C # c # d # e # s) dst label bp False = Some (dst, Inl EMSGSIZE)"
  by (auto simp: is_digit_def)

lemma pton_loop_trailing: "pton_loop (0x5C # 0 # s) dst label bp False = Some (dst, Inl EMSGSIZE)"
  by (simp add: pton_end_def)

lemma pton_loop_nul: "pton_loop (0 # s) dst label bp False = pton_end dst label bp False"
  by simp

lemma pton_loop_dot:
  "pton_loop (0x2E # d # s) dst label bp False =
     (if (bp - label - 1) AND unat NS_CMPRSFLGS \<noteq> 0 \<or> length dst \<le> label then Some (dst, Inl EMSGSIZE)
      else let dst' = dst[label := word_of_nat (bp - label - 1)] in
        if d = 0 then pton_close dst' (bp - label - 1) bp 1
        else if bp - label - 1 = 0 \<or> d = 0x2E then Some (dst', Inl EMSGSIZE)
        else pton_loop (d # s) dst' bp (bp + 1) False)"
  by (simp add: mem_simps Let_def)

declare pton_loop.simps(2) [simp del]

text \<open>The shapes of a text, as the loop meets them.\<close>

definition bad_decimal :: "byte list \<Rightarrow> bool" where
  "bad_decimal s \<longleftrightarrow> (case s of c # s1 \<Rightarrow> is_digit c \<and>
     (case s1 of d # s2 \<Rightarrow> is_digit d \<longrightarrow> (case s2 of e # _ \<Rightarrow> \<not> is_digit e | [] \<Rightarrow> True) | [] \<Rightarrow> True)
     | [] \<Rightarrow> False)"

lemma escape_cases:
  assumes "0 \<notin> set s"
  obtains (trailing) "s = []"
  | (escaped) c s' where "s = c # s'" "c \<noteq> 0" "\<not> is_digit c" "0 \<notin> set s'"
  | (decimal) c d e s' where "s = c # d # e # s'" "is_digit c" "is_digit d" "is_digit e" "0 \<notin> set s'"
  | (bad) "bad_decimal s"
proof (cases "s = [] \<or> bad_decimal s")
  case False
  then obtain c s1 where c: "s = c # s1" by (cases s) auto
  show ?thesis
  proof (cases "is_digit c")
    case True
    with False c obtain d e s3 where "s1 = d # e # s3" "is_digit d" "is_digit e"
      by (auto simp: bad_decimal_def split: list.splits)
    with True c assms show ?thesis by (intro decimal [of c d e s3]) auto
  qed (use c assms escaped in auto)
qed (use trailing bad in auto)

lemma text_cases:
  assumes "0 \<notin> set s"
  obtains (empty) "s = []"
  | (char) c s' where "s = c # s'" "c \<noteq> 0" "c \<noteq> 0x5C" "c \<noteq> 0x2E" "0 \<notin> set s'"
  | (dot) s' where "s = 0x2E # s'" "0 \<notin> set s'"
  | (backslash) s' where "s = 0x5C # s'" "0 \<notin> set s'"
proof (cases s)
  case (Cons c s')
  with assms show ?thesis
    by (cases "c = 0x5C"; cases "c = 0x2E") (auto intro: char dot backslash)
qed (rule empty)

lemma not_digit_zero [simp]: "\<not> is_digit 0"
  by (simp add: is_digit_def)

lemma pton_loop_bad_decimal:
  assumes "bad_decimal s"
  shows "pton_loop (0x5C # s @ 0 # post) dst label bp False = Some (dst, Inl EMSGSIZE)" (is ?L)
    and "lex_name (0x5C # s) = None"
proof -
  obtain c s1 where c: "s = c # s1" "is_digit c"
    using assms by (auto simp: bad_decimal_def split: list.splits)
  consider "s1 = []" | d s2 where "s1 = d # s2" "\<not> is_digit d" | d where "s1 = [d]" "is_digit d"
    | d e s3 where "s1 = d # e # s3" "is_digit d" "\<not> is_digit e"
    using assms c by (auto simp: bad_decimal_def split: list.splits)
  note cases = this
  from cases show ?L
    using c by cases (simp_all add: pton_loop_decimal_bad)
  from cases show "lex_name (0x5C # s) = None"
    using c by cases (simp_all add: lex_name_bad)
qed

text \<open>
  A name that is already longer than 255 bytes is refused at the latest when it ends.  (The
  test of the label length, \<open>c & NS_CMPRSFLGS\<close>, does not see lengths such as 256; this is why
  they are refused all the same.)
\<close>

lemma pton_loop_long:
  "0 \<notin> set s \<Longrightarrow> NS_MAXCDNAME < bp \<Longrightarrow>
     \<exists>dst'. pton_loop (s @ 0 # post) dst label bp False = Some (dst', Inl EMSGSIZE) \<and> length dst' = length dst"
proof (induction "length s" arbitrary: s dst label bp rule: less_induct)
  case less
  from less.prems(1) show ?case
  proof (cases rule: text_cases)
    case empty
    with less.prems pton_close_long [of bp "dst[label := word_of_nat (bp - label - 1)]"] show ?thesis
      by (auto simp: pton_loop_nul pton_end_def Let_def mem_simps)
  next
    case (char c s')
    with less.prems less.hyps [of s' "bp + 1" "dst[bp := c]" label] show ?thesis
      by (auto simp: pton_loop_char)
  next
    case (dot s')
    let ?d = "dst[label := word_of_nat (bp - label - 1)]"
    obtain d s'' where d: "s' @ 0 # post = d # s''" by (cases s') auto
    have "\<exists>dst'. pton_loop (d # s'') ?d bp (bp + 1) False = Some (dst', Inl EMSGSIZE) \<and> length dst' = length dst"
      using less.hyps [of s' "bp + 1" ?d bp] dot less.prems d by auto
    with pton_close_long [OF less.prems(2), of ?d] dot d show ?thesis
      by (auto simp: pton_loop_dot Let_def)
  next
    case (backslash s')
    from backslash(2) show ?thesis
    proof (cases rule: escape_cases)
      case trailing
      with backslash show ?thesis by (simp add: pton_loop_trailing)
    next
      case (escaped c s'')
      with backslash less.prems less.hyps [of s'' "bp + 1" "dst[bp := c]" label] show ?thesis
        by (auto simp: pton_loop_escaped)
    next
      case (decimal c d e s'')
      with backslash less.prems less.hyps [of s'' "bp + 1" "dst[bp := word_of_nat (dec3 c d e)]" label]
      show ?thesis by (auto simp: pton_loop_decimal)
    next
      case bad
      with backslash show ?thesis by (simp add: pton_loop_bad_decimal)
    qed
  qed
qed

definition name_result :: "nat \<Rightarrow> nat \<Rightarrow> label \<Rightarrow> byte list \<Rightarrow> (label list \<times> nat) option" where
  "name_result sz label cur s =
     (case Option.bind (lex_name s) (labels_of cur) of
        None \<Rightarrow> None
      | Some (ls, fq) \<Rightarrow>
          if list_all valid_label ls \<and> label + length (encode_name ls) \<le> NS_MAXCDNAME \<and>
             label + length (encode_name ls) \<le> sz then Some (ls, fq) else None)"

definition pton_agrees ::
  "byte list \<Rightarrow> nat \<Rightarrow> (label list \<times> nat) option \<Rightarrow> (byte list \<times> nat cret) option \<Rightarrow> bool" where
  "pton_agrees dst label res out \<longleftrightarrow>
     (\<exists>dst' r. out = Some (dst', r) \<and> length dst' = length dst \<and>
        (case res of None \<Rightarrow> r = Inl EMSGSIZE
         | Some (ls, fq) \<Rightarrow> r = Inr fq \<and>
             take (label + length (encode_name ls)) dst' = take label dst @ encode_name ls))"

lemma pton_agrees_error [simp]:
  "pton_agrees dst label None (Some (dst', r)) \<longleftrightarrow> length dst' = length dst \<and> r = Inl EMSGSIZE"
  by (simp add: pton_agrees_def)

lemma labels_of_current: "labels_of cur ts = Some (ls, fq) \<Longrightarrow> cur \<noteq> [] \<Longrightarrow> \<exists>k ks. ls = (cur @ k) # ks"
  by (induction cur ts arbitrary: ls rule: labels_of.induct) (auto split: if_splits)

lemma name_result_bounds:
  assumes "name_result sz label cur s = Some (ls, fq)" "cur \<noteq> []"
  shows "length cur < 64" "label + length cur + 2 \<le> sz" "label + length cur + 2 \<le> NS_MAXCDNAME"
proof -
  from assms(1) obtain ts where "labels_of cur ts = Some (ls, fq)"
    by (auto simp: name_result_def bind_eq_Some_conv split: option.splits if_splits)
  from labels_of_current [OF this assms(2)] obtain k ks where ls: "ls = (cur @ k) # ks" by blast
  obtain m where "length (encode_name ks) = Suc m" by (cases "length (encode_name ks)") auto
  with assms(1) show "length cur < 64" "label + length cur + 2 \<le> sz" "label + length cur + 2 \<le> NS_MAXCDNAME"
    by (auto simp: ls name_result_def valid_label_def split: option.splits if_splits)
qed

lemma name_result_None:
  assumes "cur \<noteq> []" "64 \<le> length cur \<or> sz < label + length cur + 2 \<or> NS_MAXCDNAME < label + length cur + 2"
  shows "name_result sz label cur s = None"
proof (cases "name_result sz label cur s")
  case (Some r)
  with name_result_bounds [of sz label cur s "fst r" "snd r"] assms show ?thesis by auto
qed

lemma name_result_char:
  "c \<noteq> 0x5C \<Longrightarrow> c \<noteq> 0x2E \<Longrightarrow> name_result sz label cur (c # s) = name_result sz label (cur @ [c]) s"
  "\<not> is_digit c \<Longrightarrow> name_result sz label cur (0x5C # c # s) = name_result sz label (cur @ [c]) s"
  "is_digit c \<Longrightarrow> is_digit d \<Longrightarrow> is_digit e \<Longrightarrow> dec3 c d e \<le> 255 \<Longrightarrow>
     name_result sz label cur (0x5C # c # d # e # s) = name_result sz label (cur @ [word_of_nat (dec3 c d e)]) s"
  by (simp_all add: name_result_def bind_map_option comp_def lex_name_steps)

lemma name_result_dot_bad:
  assumes "s \<noteq> []" "cur = [] \<or> hd s = 0x2E"
  shows "name_result sz label cur (0x2E # s) = None"
proof (cases "lex_name s")
  case (Some ts)
  obtain d s' where s: "s = d # s'" using assms(1) by (cases s) auto
  then obtain t ts' where "ts = t # ts'" "t = Dot \<longleftrightarrow> d = 0x2E"
    using lex_name_Cons [of d s' ts] Some by auto
  with Some assms s show ?thesis by (auto simp: name_result_def lex_name_dot)
qed (simp add: name_result_def lex_name_dot)

lemma name_result_dot:
  assumes "s \<noteq> []" "cur \<noteq> []" "hd s \<noteq> 0x2E" "length cur < 64"
  shows "name_result sz label cur (0x2E # s) =
    map_option (\<lambda>(ls, fq). (cur # ls, fq)) (name_result sz (label + 1 + length cur) [] s)"
proof (cases "lex_name s")
  case (Some ts)
  obtain d s' where s: "s = d # s'" using assms(1) by (cases s) auto
  then obtain t ts' where ts: "ts = t # ts'" "t \<noteq> Dot"
    using lex_name_Cons [of d s' ts] Some assms by auto
  have "valid_label cur" using assms by (simp add: valid_label_def)
  with Some assms ts show ?thesis
    by (cases "labels_of [] (t # ts')") (auto simp: name_result_def lex_name_dot add.assoc)
qed (simp add: name_result_def lex_name_dot)

lemma store_current:
  assumes "take (length cur) (drop (Suc label) dst) = cur" "Suc (label + length cur) < length dst"
  shows "take (length (cur @ [c])) (drop (Suc label) (dst[Suc (label + length cur) := c])) = cur @ [c]"
proof -
  let ?i = "Suc (label + length cur)"
  have "drop (Suc label) (dst[?i := c]) = (drop (Suc label) dst)[length cur := c]"
    using assms(2) by (simp add: drop_update_swap)
  with assms show ?thesis by (simp add: take_Suc_conv_app_nth)
qed

lemma close_current:
  assumes "take (length cur) (drop (Suc label) dst) = cur" "Suc (label + length cur) \<le> length dst"
  shows "take (Suc (label + length cur)) (dst[label := k]) = take label dst @ k # cur"
proof -
  have "dst[label := k] = take label dst @ k # drop (Suc label) dst"
    using assms(2) by (simp add: upd_conv_take_nth_drop)
  with assms show ?thesis by simp
qed

lemma pton_close_correct:
  assumes cur: "take (length cur) (drop (Suc label) dst) = cur" "length cur < 64" "label < length dst"
    and bp: "bp = label + 1 + length cur" "cur \<noteq> [] \<longrightarrow> bp \<le> length dst"
    and res: "res = (let ls = if cur = [] then [] else [cur] in
        if label + length (encode_name ls) \<le> NS_MAXCDNAME \<and> label + length (encode_name ls) \<le> length dst
        then Some (ls, fq) else None)"
  shows "pton_agrees dst label res (pton_close (dst[label := word_of_nat (length cur)]) (length cur) bp fq)"
proof (cases "cur = []")
  case True
  with bp res cur(3) show ?thesis
    by (auto simp: pton_close_def pton_agrees_def)
next
  case False
  then have bound: "Suc (label + length cur) \<le> length dst" using bp by simp
  let ?d = "dst[label := word_of_nat (length cur)]"
  from close_current [OF cur(1) bound, of "word_of_nat (length cur)"] bp
  have tk: "take bp ?d = take label dst @ encode_label cur" by (simp add: encode_label_def)
  have "take (Suc bp) (?d[bp := 0]) = take label dst @ encode_label cur @ [0]" if "bp < length dst"
    using that tk by simp
  with False bp res show ?thesis
    by (auto simp: pton_close_def pton_agrees_def mem_simps Let_def split: if_splits)
qed

lemma pton_finish_correct:
  assumes lx: "Option.bind (lex_name s) (labels_of cur) = Some (if cur = [] then [] else [cur], fq)"
    and cur: "take (length cur) (drop (Suc label) dst) = cur"
    and bp: "bp = label + 1 + length cur" "cur \<noteq> [] \<longrightarrow> bp \<le> length dst"
  shows "pton_agrees dst label (name_result (length dst) label cur s)
    (if length cur AND unat NS_CMPRSFLGS \<noteq> 0 \<or> length dst \<le> label then Some (dst, Inl EMSGSIZE)
     else pton_close (dst[label := word_of_nat (length cur)]) (length cur) bp fq)"
proof (cases "64 \<le> length cur")
  case True
  then have none: "name_result (length dst) label cur s = None" by (intro name_result_None) auto
  show ?thesis
  proof (cases "length cur < 256")
    case False
    then have "NS_MAXCDNAME < bp" using bp by (simp add: NS_MAXCDNAME_def)
    from pton_close_long [OF this, of "dst[label := word_of_nat (length cur)]" "length cur" fq] show ?thesis
      by (auto simp: none)
  qed (use flags_big True none in simp)
next
  case False
  then have small: "length cur < 64" by simp
  then have valid: "list_all valid_label (if cur = [] then [] else [cur])" by (simp add: valid_label_def)
  show ?thesis
  proof (cases "label < length dst")
    case True
    have "pton_agrees dst label (name_result (length dst) label cur s)
        (pton_close (dst[label := word_of_nat (length cur)]) (length cur) bp fq)"
      using cur small True bp valid lx by (intro pton_close_correct) (auto simp: name_result_def)
    with True small show ?thesis by (simp add: flags_small)
  next
    case False
    with bp lx have "name_result (length dst) label cur s = None"
      by (auto simp: name_result_def)
    with False show ?thesis by simp
  qed
qed

lemma pton_dot_correct:
  assumes s: "s \<noteq> []" "0 \<notin> set s" and cur: "take (length cur) (drop (Suc label) dst) = cur" "cur \<noteq> []"
    and dot: "hd s \<noteq> 0x2E" and bp: "bp = label + 1 + length cur" "bp \<le> length dst"
    and IH: "\<And>dst. pton_agrees dst bp (name_result (length dst) bp [] s) (pton_loop (s @ 0 # post) dst bp (bp + 1) False)"
  shows "pton_agrees dst label (name_result (length dst) label cur (0x2E # s))
    (if length cur AND unat NS_CMPRSFLGS \<noteq> 0 then Some (dst, Inl EMSGSIZE)
     else pton_loop (s @ 0 # post) (dst[label := word_of_nat (length cur)]) bp (bp + 1) False)"
proof (cases "64 \<le> length cur")
  case True
  with cur have none: "name_result (length dst) label cur (0x2E # s) = None" by (intro name_result_None) auto
  show ?thesis
  proof (cases "length cur < 256")
    case False
    then have "NS_MAXCDNAME < bp + 1" using bp by (simp add: NS_MAXCDNAME_def)
    from pton_loop_long [OF s(2) this, of post "dst[label := word_of_nat (length cur)]" bp] show ?thesis
      by (auto simp: none)
  qed (use flags_big True none in simp)
next
  case False
  then have res: "name_result (length dst) label cur (0x2E # s) =
      map_option (\<lambda>(ls, fq). (cur # ls, fq)) (name_result (length dst) bp [] s)"
    using s cur dot bp by (simp add: name_result_dot)
  let ?d = "dst[label := word_of_nat (length cur)]"
  from close_current [OF cur(1), of "word_of_nat (length cur)"] bp
  have "take bp ?d = take label dst @ encode_label cur" by (simp add: encode_label_def)
  with IH [of ?d] False bp show ?thesis
    unfolding res by (auto simp: pton_agrees_def flags_small add.assoc split: option.splits)
qed

lemma pton_end_eq:
  "bp = label + 1 + k \<Longrightarrow> pton_end dst label bp False =
     (if k AND unat NS_CMPRSFLGS \<noteq> 0 \<or> length dst \<le> label then Some (dst, Inl EMSGSIZE)
      else pton_close (dst[label := word_of_nat k]) k bp 0)"
  by (simp add: pton_end_def mem_simps)

lemma pton_loop_correct:
  "0 \<notin> set s \<Longrightarrow> bp = label + 1 + length cur \<Longrightarrow> cur \<noteq> [] \<longrightarrow> bp \<le> length dst \<Longrightarrow>
     take (length cur) (drop (Suc label) dst) = cur \<Longrightarrow>
     pton_agrees dst label (name_result (length dst) label cur s) (pton_loop (s @ 0 # post) dst label bp False)"
proof (induction "length s" arbitrary: s dst label bp cur rule: less_induct)
  case less
  note bp = less.prems(2,3) and cur = less.prems(4)
  have store: "pton_agrees dst label (name_result (length dst) label (cur @ [c]) s')
      (if length dst \<le> bp then Some (dst, Inl EMSGSIZE)
       else pton_loop (s' @ 0 # post) (dst[bp := c]) label (bp + 1) False)"
    if "length s' < length s" "0 \<notin> set s'" for c s'
  proof (cases "length dst \<le> bp")
    case True
    with bp show ?thesis by (simp add: name_result_None)
  next
    case False
    have "pton_agrees (dst[bp := c]) label (name_result (length (dst[bp := c])) label (cur @ [c]) s')
      (pton_loop (s' @ 0 # post) (dst[bp := c]) label (bp + 1) False)"
      using that False bp cur store_current [of cur label dst c] by (intro less.hyps) auto
    with False bp show ?thesis by (auto simp: pton_agrees_def split: option.splits)
  qed
  from less.prems(1) show ?case
  proof (cases rule: text_cases)
    case empty
    have "Option.bind (lex_name s) (labels_of cur) = Some (if cur = [] then [] else [cur], 0)"
      using empty by simp
    from pton_finish_correct [OF this cur bp] empty show ?thesis
      unfolding pton_end_eq [OF bp(1), symmetric] by (simp only: append_Nil pton_loop_nul)
  next
    case (char c s')
    with store [of s' c] show ?thesis by (simp add: pton_loop_char name_result_char)
  next
    case (dot s')
    show ?thesis
    proof (cases s')
      case Nil
      then have "Option.bind (lex_name s) (labels_of cur) = Some (if cur = [] then [] else [cur], 1)"
        using dot by (simp add: lex_name_dot)
      from pton_finish_correct [OF this cur bp] dot Nil bp show ?thesis
        by (auto simp: pton_loop_dot Let_def split: if_splits)
    next
      case (Cons d s'')
      show ?thesis
      proof (cases "cur = [] \<or> d = 0x2E")
        case True
        with Cons dot less.prems show ?thesis
          by (auto simp: pton_loop_dot name_result_dot_bad Let_def)
      next
        case False
        have "pton_agrees dst bp (name_result (length dst) bp [] s') (pton_loop (s' @ 0 # post) dst bp (bp + 1) False)" for dst
          using dot by (intro less.hyps) auto
        from pton_dot_correct [OF _ _ cur _ _ _ _ this] False Cons dot bp less.prems show ?thesis
          by (auto simp: pton_loop_dot Let_def)
      qed
    qed
  next
    case (backslash s')
    from backslash(2) show ?thesis
    proof (cases rule: escape_cases)
      case trailing
      with backslash show ?thesis by (simp add: pton_loop_trailing name_result_def lex_name_bad)
    next
      case (escaped c s'')
      with backslash store [of s'' c] show ?thesis by (simp add: pton_loop_escaped name_result_char)
    next
      case (decimal c d e s'')
      then show ?thesis
        using backslash store [of s'' "word_of_nat (dec3 c d e)"]
        by (cases "dec3 c d e \<le> 255")
          (auto simp: pton_loop_decimal name_result_char, auto simp: name_result_def lex_name_decimal)
    next
      case bad
      with backslash show ?thesis by (simp add: pton_loop_bad_decimal name_result_def)
    qed
  qed
qed

lemma pton_text:
  assumes "0 \<notin> set s"
  shows "\<exists>dst' r. ns_name_pton (s @ 0 # post) dst = Some (dst', r) \<and> length dst' = length dst \<and>
    r = (case parse_name s of None \<Rightarrow> Inl EMSGSIZE
         | Some (ls, fq) \<Rightarrow> if fits_name (length dst) ls then Inr fq else Inl EMSGSIZE) \<and>
    (\<forall>ls fq. parse_name s = Some (ls, fq) \<longrightarrow> fits_name (length dst) ls \<longrightarrow>
       take (length (encode_name ls)) dst' = encode_name ls)"
  using pton_loop_correct [OF assms, of 1 0 "[]" dst post]
  by (auto simp: ns_name_pton_def pton_agrees_def name_result_def parse_name_def fits_name_def
      split: option.splits prod.splits if_splits)

subsection \<open>Properties\<close>

text \<open>
  C9: \<open>ns_name_pton\<close> on a terminated string stays inside the string and the output and accepts
  exactly the texts of the reference parser whose labels have at most 63 bytes and whose wire
  form has at most 255 bytes and fits the output.  It then leaves that wire form in the output
  and returns 1 if the text ended in an unescaped dot, 0 otherwise.
\<close>

theorem ns_name_pton_correct:
  assumes "0 \<notin> set s"
  shows "\<exists>dst' r. ns_name_pton (s @ 0 # post) dst = Some (dst', r) \<and> length dst' = length dst \<and>
    r = (case parse_name s of None \<Rightarrow> Inl EMSGSIZE
         | Some (ls, fq) \<Rightarrow> if fits_name (length dst) ls then Inr fq else Inl EMSGSIZE) \<and>
    (\<forall>ls fq. parse_name s = Some (ls, fq) \<longrightarrow> fits_name (length dst) ls \<longrightarrow>
       take (length (encode_name ls)) dst' = encode_name ls)"
  using assms by (rule pton_text)

theorem ns_name_pton_witness:
  "\<exists>dst' r. ns_name_pton [92, 48, 52, 54, 46, 97, 46, 0] (replicate 5 0) = Some (dst', r) \<and> r = Inr 1 \<and>
     take 5 dst' = [1, 46, 1, 97, 0]"
proof -
  have "parse_name [92, 48, 52, 54, 46, 97, 46] = Some ([[46], [97]], 1)" by code_simp
  moreover have "fits_name 5 [[46], [97]]" by code_simp
  moreover have "encode_name [[46], [97]] = [1, 46, 1, 97, 0]" by code_simp
  ultimately show ?thesis
    using ns_name_pton_correct [of "[92, 48, 52, 54, 46, 97, 46]" "[]" "replicate 5 0"] by auto
qed

text \<open>
  C14: round trip: the text \<open>ns_name_ntop\<close> produces for a wire name, read back by \<open>ns_name_pton\<close>,
  gives the same wire name, whatever bytes the labels contain.
\<close>

theorem ntop_pton_roundtrip:
  assumes "list_all valid_label ls" and "length (encode_name ls) \<le> NS_MAXCDNAME"
    and "length (encode_name ls) \<le> length dst" and "length (text_of ls) < length txt"
  shows "\<exists>txt' n dst' fq. ns_name_ntop (encode_name ls @ post) txt = Some (txt', Inr n) \<and>
     ns_name_pton txt' dst = Some (dst', Inr fq) \<and> take (length (encode_name ls)) dst' = encode_name ls"
proof -
  have ov: "overlay txt 0 (text_of ls @ [0]) = text_of ls @ 0 # drop (Suc (length (text_of ls))) txt"
    by (simp add: overlay_def)
  have "fits_name (length dst) ls" using assms by (simp add: fits_name_def)
  with pton_text [OF text_no_nul, of ls "drop (Suc (length (text_of ls))) txt" dst]
  show ?thesis
    by (auto simp: ntop_fits [OF assms(1,4)] ov parse_text_of [OF assms(1)])
qed

theorem ntop_pton_roundtrip_witness:
  "\<exists>txt' n dst' fq. ns_name_ntop ([2, 46, 200, 0] @ []) (replicate 8 0) = Some (txt', Inr n) \<and>
     ns_name_pton txt' (replicate 4 0) = Some (dst', Inr fq) \<and> take 4 dst' = [2, 46, 200, 0]"
  using ntop_pton_roundtrip [of "[[46, 200]]" "replicate 4 0" "replicate 8 0" "[]"]
  by (simp add: valid_label_def encode_label_def NS_MAXCDNAME_def text_of_def esc_code special_def printable_def eval_nat_numeral)

end
