(* ===== verification/Dns_Check.thy ===== *)
theory Dns_Check
  imports Dns_Pton
begin

text \<open>
  Checks on domain names: \<^verbatim>\<open>src/original/resolv/res-name-checking.c\<close>.
\<close>

subsection \<open>Checks on names\<close>

fun printable_string :: "byte list \<Rightarrow> bool option" where
  "printable_string [] = None"
| "printable_string (ch # dn) =
     (if ch = 0 then Some True
      else if sint ch \<le> 0x20 \<or> 0x7E < sint ch then Some False
      else printable_string dn)"

definition hnok_char :: "byte \<Rightarrow> bool" where
  "hnok_char ch \<longleftrightarrow> (0x30 \<le> ch \<and> ch \<le> 0x39) \<or> (0x41 \<le> ch \<and> ch \<le> 0x5A) \<or> (0x61 \<le> ch \<and> ch \<le> 0x7A)
     \<or> ch = 0x2D \<or> ch = 0x5F"

text \<open>The inner \<open>do ... while\<close> loop over the \<open>k + 1\<close> characters of a label, then the outer loop.\<close>

fun hnok_label :: "nat \<Rightarrow> byte list \<Rightarrow> (byte list option) option" where
  "hnok_label k [] = None"
| "hnok_label k (ch # dn) =
     (if \<not> hnok_char ch then Some None
      else case k of 0 \<Rightarrow> Some (Some dn) | Suc k' \<Rightarrow> hnok_label k' dn)"

lemma hnok_label_length: "hnok_label k dn = Some (Some dn') \<Longrightarrow> length dn' < length dn"
  by (induction k dn rule: hnok_label.induct) (auto split: if_splits nat.splits)

function binary_hnok :: "byte list \<Rightarrow> bool option" where
  "binary_hnok [] = None"
| "binary_hnok (l # dn) =
     (if l = 0 then Some True
      else do { r \<leftarrow> hnok_label (unat l - 1) dn;
                case r of None \<Rightarrow> Some False | Some dn' \<Rightarrow> binary_hnok dn' })"
  by pat_completeness auto
termination
  by (relation "measure length") (auto dest!: hnok_label_length)

declare binary_hnok.simps [simp del]

definition binary_leading_dash :: "byte list \<Rightarrow> bool option" where
  "binary_leading_dash dn =
     do { l \<leftarrow> rd dn 0; if 0 < l then do { c \<leftarrow> rd dn 1; Some (c = 0x2D) } else Some False }"

definition res_binary_hnok :: "byte list \<Rightarrow> bool option" where
  "res_binary_hnok dn =
     do { dash \<leftarrow> binary_leading_dash dn; if dash then Some False else binary_hnok dn }"

definition res_hnok :: "byte list \<Rightarrow> byte list \<Rightarrow> bool option" where
  "res_hnok buf0 dn =
     do { p \<leftarrow> printable_string dn;
          if \<not> p then Some False
          else do { (buf, r) \<leftarrow> ns_name_pton dn buf0;
                    case r of Inl _ \<Rightarrow> Some False | Inr _ \<Rightarrow> res_binary_hnok buf } }"

text \<open>What \<open>res_ownok\<close> and \<open>res_mailok\<close> do with the converted name.\<close>

definition binary_ownok :: "byte list \<Rightarrow> bool option" where
  "binary_ownok buf =
     do { dash \<leftarrow> binary_leading_dash buf;
          if dash then Some False
          else do { b0 \<leftarrow> rd buf 0;
                    star \<leftarrow> (if b0 = 1 then do { b1 \<leftarrow> rd buf 1; Some (b1 = 0x2A) } else Some False);
                    if star then binary_hnok (drop 2 buf) else binary_hnok buf } }"

definition binary_mailok :: "byte list \<Rightarrow> bool option" where
  "binary_mailok buf =
     do { label_length \<leftarrow> rd buf 0;
          if label_length = 0 then Some True
          else do { t \<leftarrow> rd buf (1 + unat label_length);
                    if t = 0 then Some False
                    else binary_hnok (drop (1 + unat label_length) buf) } }"

definition res_ownok :: "byte list \<Rightarrow> byte list \<Rightarrow> bool option" where
  "res_ownok buf0 dn =
     do { p \<leftarrow> printable_string dn;
          if \<not> p then Some False
          else do { (buf, r) \<leftarrow> ns_name_pton dn buf0;
                    case r of Inl _ \<Rightarrow> Some False | Inr _ \<Rightarrow> binary_ownok buf } }"

definition res_mailok :: "byte list \<Rightarrow> byte list \<Rightarrow> bool option" where
  "res_mailok buf0 dn =
     do { p \<leftarrow> printable_string dn;
          if \<not> p then Some False
          else do { (buf, r) \<leftarrow> ns_name_pton dn buf0;
                    case r of Inl _ \<Rightarrow> Some False | Inr _ \<Rightarrow> binary_mailok buf } }"

definition res_dnok :: "byte list \<Rightarrow> byte list \<Rightarrow> bool option" where
  "res_dnok buf0 dn =
     do { p \<leftarrow> printable_string dn;
          if \<not> p then Some False
          else do { (buf, r) \<leftarrow> ns_name_pton dn buf0;
                    case r of Inl _ \<Rightarrow> Some False | Inr _ \<Rightarrow> Some True } }"

subsection \<open>The rules for names\<close>

text \<open>The labels of host names consist of letters, digits, hyphens and underscores.\<close>

definition host_chars :: "byte list" where
  "host_chars = map of_char ''ABCDEFGHIJKLMNOPQRSTUVWXYZabcdefghijklmnopqrstuvwxyz0123456789-_''"

definition host_labels :: "label list \<Rightarrow> bool" where
  "host_labels ls \<longleftrightarrow> list_all (list_all (\<lambda>c. c \<in> set host_chars)) ls"

lemma hnok_char_host: "hnok_char c \<longleftrightarrow> c \<in> set host_chars"
  by (rule byte_all) code_simp

lemma host_labels_code: "host_labels ls \<longleftrightarrow> list_all (list_all hnok_char) ls"
  unfolding host_labels_def hnok_char_host [symmetric] by (rule refl)

definition no_dash :: "label list \<Rightarrow> bool" where
  "no_dash ls \<longleftrightarrow> (case ls of l # _ \<Rightarrow> hd l \<noteq> 0x2D | [] \<Rightarrow> True)"

definition host_name :: "label list \<Rightarrow> bool" where
  "host_name ls \<longleftrightarrow> no_dash ls \<and> host_labels ls"

definition owner_name :: "label list \<Rightarrow> bool" where
  "owner_name ls \<longleftrightarrow> host_name ls \<or> (\<exists>ks. ls = [0x2A] # ks \<and> host_labels ks)"

definition mail_name :: "label list \<Rightarrow> bool" where
  "mail_name ls \<longleftrightarrow> ls = [] \<or> tl ls \<noteq> [] \<and> host_labels (tl ls)"

text \<open>A text is accepted when it is printable, denotes a name, and the name obeys the rule.\<close>

definition name_ok :: "(label list \<Rightarrow> bool) \<Rightarrow> byte list \<Rightarrow> bool" where
  "name_ok P s \<longleftrightarrow> list_all graphic s \<and>
     (case parse_name s of None \<Rightarrow> False | Some (ls, fq) \<Rightarrow> fits_name NS_MAXCDNAME ls \<and> P ls)"

lemma sint_graphic: "sint ch \<le> 0x20 \<or> 0x7E < sint ch \<longleftrightarrow> \<not> graphic ch"
  by (rule byte_all [of "\<lambda>ch. sint ch \<le> 0x20 \<or> 0x7E < sint ch \<longleftrightarrow> \<not> graphic ch"]) code_simp

lemma printable_string_correct:
  "0 \<notin> set s \<Longrightarrow> printable_string (s @ 0 # post) = Some (list_all graphic s)"
  by (induction s) (auto simp: sint_graphic)

text \<open>
  The contract between the four checks and the converter: a check on the converted name that
  decides a rule on its labels, reading nothing behind the name, gives a check on texts.
\<close>

locale name_check =
  fixes check :: "byte list \<Rightarrow> bool option" and rule :: "label list \<Rightarrow> bool"
  assumes check_name: "list_all valid_label ls \<Longrightarrow> check (encode_name ls @ post) = Some (rule ls)"
begin

lemma check_text:
  assumes "0 \<notin> set s" and "length buf0 = NS_MAXCDNAME"
  shows "do { p \<leftarrow> printable_string (s @ 0 # post);
          if \<not> p then Some False
          else do { (buf, r) \<leftarrow> ns_name_pton (s @ 0 # post) buf0;
                    case r of Inl _ \<Rightarrow> Some False | Inr _ \<Rightarrow> check buf } } = Some (name_ok rule s)"
proof -
  obtain buf r where pton: "ns_name_pton (s @ 0 # post) buf0 = Some (buf, r)"
    and r: "r = (case parse_name s of None \<Rightarrow> Inl EMSGSIZE
         | Some (ls, fq) \<Rightarrow> if fits_name NS_MAXCDNAME ls then Inr fq else Inl EMSGSIZE)"
    and enc: "\<And>ls fq. parse_name s = Some (ls, fq) \<Longrightarrow> fits_name NS_MAXCDNAME ls \<Longrightarrow>
       take (length (encode_name ls)) buf = encode_name ls"
    using pton_text [OF assms(1), of post buf0] unfolding assms(2) by blast
  have "check buf = Some (rule ls)" if "parse_name s = Some (ls, fq)" "fits_name NS_MAXCDNAME ls" for ls fq
  proof -
    from enc [OF that] obtain rest where "buf = encode_name ls @ rest" by (metis append_take_drop_id)
    with that(2) check_name show ?thesis by (simp add: fits_name_def)
  qed
  then show ?thesis
    using r by (auto simp: printable_string_correct [OF assms(1)] pton name_ok_def split: option.split)
qed

end

lemma hnok_label_correct:
  "l \<noteq> [] \<Longrightarrow> hnok_label (length l - 1) (l @ rest) = Some (if list_all hnok_char l then Some rest else None)"
proof (induction l)
  case (Cons c l)
  then show ?case by (cases l) auto
qed simp

lemma binary_hnok_correct:
  "list_all valid_label ls \<Longrightarrow> binary_hnok (encode_name ls @ post) = Some (host_labels ls)"
proof (induction ls)
  case Nil
  then show ?case by (simp add: binary_hnok.simps host_labels_code)
next
  case (Cons l ls)
  then have l: "l \<noteq> []" "unat (word_of_nat (length l) :: byte) = length l"
    by (auto simp: valid_label_def word_of_nat_byte_eq)
  then have "(word_of_nat (length l) :: byte) \<noteq> 0" using unat_eq_zero_byte by fastforce
  with Cons l hnok_label_correct [OF l(1)] show ?case
    by (simp add: binary_hnok.simps encode_label_def host_labels_code)
qed

lemma encode_name_heads:
  assumes "valid_label l"
  shows "rd (encode_name (l # ls) @ post) 0 = Some (word_of_nat (length l))"
    and "rd (encode_name (l # ls) @ post) (Suc 0) = Some (hd l)"
    and "drop (1 + length l) (encode_name (l # ls) @ post) = encode_name ls @ post"
  using assms by (auto simp: rd_def encode_label_def valid_label_def nth_append hd_conv_nth)

lemma valid_label_byte:
  "valid_label l \<Longrightarrow> unat (word_of_nat (length l) :: byte) = length l"
  "valid_label l \<Longrightarrow> (word_of_nat (length l) :: byte) \<noteq> 0"
  "valid_label l \<Longrightarrow> (word_of_nat (length l) :: byte) = 1 \<longleftrightarrow> length l = 1"
  by (auto simp: valid_label_def byte_eq_unat word_of_nat_byte_eq)

lemma leading_dash_correct:
  "list_all valid_label ls \<Longrightarrow> binary_leading_dash (encode_name ls @ post) = Some (\<not> no_dash ls)"
proof (cases ls)
  case (Cons l ks)
  assume "list_all valid_label ls"
  with Cons show ?thesis
    by (simp add: binary_leading_dash_def no_dash_def encode_name_heads valid_label_byte word_gt_0
        del: encode_name_simps)
qed (simp add: binary_leading_dash_def no_dash_def rd_def)

interpretation hostname: name_check res_binary_hnok host_name
  by unfold_locales
    (auto simp: res_binary_hnok_def leading_dash_correct binary_hnok_correct host_name_def)

lemma host_star: "\<not> hnok_char 0x2A"
  by (simp add: hnok_char_def)

lemma binary_ownok_correct:
  assumes "list_all valid_label ls"
  shows "binary_ownok (encode_name ls @ post) = Some (owner_name ls)"
proof (cases ls)
  case Nil
  then show ?thesis
    using assms leading_dash_correct [of "[]" post] binary_hnok_correct [of "[]" post]
    by (simp add: binary_ownok_def owner_name_def host_name_def rd_def no_dash_def)
next
  case (Cons l ks)
  with assms have l: "valid_label l" "list_all valid_label ks" by auto
  have len1: "length l = 1 \<and> hd l = 0x2A \<longleftrightarrow> l = [0x2A]" by (cases l) auto
  have dr: "drop 2 (encode_name (l # ks) @ post) = encode_name ks @ post" if "length l = 1"
    using encode_name_heads(3) [OF l(1), of ks post] that by (simp add: eval_nat_numeral)
  show ?thesis
    using assms len1 dr binary_hnok_correct [OF l(2), of post] binary_hnok_correct [OF assms, of post]
      leading_dash_correct [OF assms, of post]
    by (auto simp: Cons binary_ownok_def owner_name_def host_name_def encode_name_heads [OF l(1)]
        valid_label_byte [OF l(1)] host_star host_labels_code no_dash_def simp del: encode_name_simps drop_append)
qed

lemma binary_mailok_correct:
  assumes "list_all valid_label ls"
  shows "binary_mailok (encode_name ls @ post) = Some (mail_name ls)"
proof (cases ls)
  case Nil
  then show ?thesis by (simp add: binary_mailok_def rd_def mail_name_def)
next
  case (Cons l ks)
  with assms have l: "valid_label l" "list_all valid_label ks" by auto
  have "rd (encode_name ls @ post) (1 + length l) = rd (encode_name ks @ post) 0"
    using rd_append_right [of "encode_label l" "encode_name ks @ post" 0] by (simp add: Cons)
  moreover have "rd (encode_name ks @ post) 0 = Some 0 \<longleftrightarrow> ks = []"
    using l(2) by (cases ks) (auto simp: rd_def encode_label_def dest: valid_label_byte(2))
  moreover obtain b where "rd (encode_name ks @ post) 0 = Some b"
    by (cases "rd (encode_name ks @ post) 0") auto
  ultimately show ?thesis
    using encode_name_heads(1,3) [OF l(1), of ks post] valid_label_byte [OF l(1)]
      binary_hnok_correct [OF l(2), of post]
    by (auto simp: Cons binary_mailok_def mail_name_def simp del: encode_name_simps)
qed

interpretation owner: name_check binary_ownok owner_name
  by unfold_locales (rule binary_ownok_correct)

interpretation mail: name_check binary_mailok mail_name
  by unfold_locales (rule binary_mailok_correct)

interpretation domain: name_check "\<lambda>_. Some True" "\<lambda>_. True"
  by unfold_locales simp

subsection \<open>Properties\<close>

text \<open>
  C34: the four checks \<open>res_hnok\<close>, \<open>res_ownok\<close>, \<open>res_mailok\<close> and \<open>res_dnok\<close> decide, without reading
  outside the string, whether a terminated string is printable, denotes a name of at most 255
  bytes, and the name obeys the rule for host, owner, mail-box or arbitrary domain names; the
  initial contents of the local buffer play no part.
\<close>

theorem res_name_checks_correct:
  assumes "0 \<notin> set s" and "length buf0 = NS_MAXCDNAME"
  shows "res_hnok buf0 (s @ 0 # post) = Some (name_ok host_name s) \<and>
     res_ownok buf0 (s @ 0 # post) = Some (name_ok owner_name s) \<and>
     res_mailok buf0 (s @ 0 # post) = Some (name_ok mail_name s) \<and>
     res_dnok buf0 (s @ 0 # post) = Some (name_ok (\<lambda>_. True) s)"
  unfolding res_hnok_def res_ownok_def res_mailok_def res_dnok_def
  using assms by (intro conjI hostname.check_text owner.check_text mail.check_text domain.check_text)

theorem res_name_checks_witness:
  "res_ownok (replicate 255 0) [42, 46, 97, 0] = Some True \<and> res_hnok (replicate 255 0) [42, 46, 97, 0] = Some False"
proof -
  have "name_ok owner_name [42, 46, 97]" "\<not> name_ok host_name [42, 46, 97]"
  proof -
    have p: "parse_name [42, 46, 97] = Some ([[42], [97]], 0)" by code_simp
    have f: "fits_name NS_MAXCDNAME [[42], [97]]" by code_simp
    show "name_ok owner_name [42, 46, 97]" "\<not> name_ok host_name [42, 46, 97]"
      using f by (simp_all add: name_ok_def p owner_name_def host_name_def host_labels_code hnok_char_def
          graphic_def)
  qed
  then show ?thesis
    using res_name_checks_correct [of "[42, 46, 97]" "replicate 255 0" "[]"]
    by (simp add: NS_MAXCDNAME_def)
qed

end
