(* ===== verification/Dns_Pack.thy ===== *)
theory Dns_Pack
  imports Dns_Check
begin

text \<open>
  Compression of domain names: \<^verbatim>\<open>src/original/resolv/ns_name_pack.c\<close> and \<^verbatim>\<open>ns_name_compress.c\<close>.

  \<open>mem\<close> is the buffer of the message, from \<open>msg = dnptrs[0]\<close> on; the output \<open>dst\<close> is an offset
  into it.  The table of earlier names is the list of their offsets, without the first entry
  and the terminating null pointer; \<open>None\<close> is a missing table (\<open>dnptrs\<close> null, or \<open>dnptrs[0]\<close> null).
  \<open>lastdnptr\<close> is the number of slots between \<open>dnptrs + 1\<close> and the end of the table, if given.

  A compression pointer in the message could lead \<open>dn_find\<close> around a cycle, so \<open>dn_match\<close> is a
  partial function; the theorems show that it returns on messages packed by these routines.
\<close>

subsection \<open>The routines\<close>

definition mklower :: "byte \<Rightarrow> byte" where
  "mklower ch = (if 0x41 \<le> ch \<and> ch \<le> 0x5A then ch - 0x41 + 0x61 else ch)"

text \<open>The loop over the characters of a label: \<open>n\<close> bytes of \<open>dn\<close> against \<open>msg\<close> at \<open>cp\<close>.\<close>

fun find_label :: "nat \<Rightarrow> byte list \<Rightarrow> byte list \<Rightarrow> nat \<Rightarrow> bool option" where
  "find_label 0 dn msg cp = Some True"
| "find_label (Suc n) dn msg cp =
     do { a \<leftarrow> rd dn 0; b \<leftarrow> rd msg cp;
          if mklower a \<noteq> mklower b then Some False else find_label n (drop 1 dn) msg (cp + 1) }"

text \<open>The loop over the labels; \<open>Inr False\<close> is the jump to \<open>next\<close>.\<close>

partial_function (option) dn_match :: "byte list \<Rightarrow> byte list \<Rightarrow> nat \<Rightarrow> bool cret option" where
  "dn_match msg dn cp =
     do { n \<leftarrow> rd msg cp;
          if n = 0 then Some (Inr False)
          else if n AND NS_CMPRSFLGS = 0 then
            do { d \<leftarrow> rd dn 0;
                 if n \<noteq> d then Some (Inr False)
                 else do { eq \<leftarrow> find_label (unat n) (drop 1 dn) msg (cp + 1);
                           if \<not> eq then Some (Inr False)
                           else do { e \<leftarrow> rd dn (1 + unat n);
                                     if e = 0 then do { c \<leftarrow> rd msg (cp + 1 + unat n); Some (Inr (c = 0)) }
                                     else dn_match msg (drop (1 + unat n) dn) (cp + 1 + unat n) } } }
          else if n AND NS_CMPRSFLGS = NS_CMPRSFLGS then
            do { b \<leftarrow> rd msg (cp + 1); dn_match msg dn (compression_target n b) }
          else Some (Inl EMSGSIZE) }"

declare dn_match.simps [code]

text \<open>The search in one earlier name, at \<open>sp\<close>; the result is the offset found.\<close>

function dn_find_from :: "byte list \<Rightarrow> byte list \<Rightarrow> nat \<Rightarrow> nat option cret option" where
  "dn_find_from domain msg sp =
     do { n \<leftarrow> rd msg sp;
          if n \<noteq> 0 \<and> n AND NS_CMPRSFLGS = 0 \<and> sp < 0x4000 then
            do { r \<leftarrow> dn_match msg domain sp;
                 case r of Inl e \<Rightarrow> Some (Inl e)
                 | Inr True \<Rightarrow> Some (Inr (Some sp))
                 | Inr False \<Rightarrow> dn_find_from domain msg (sp + unat n + 1) }
          else Some (Inr None) }"
  by pat_completeness auto
termination
  by (relation "measure (\<lambda>(domain, msg, sp). length msg - sp)") (auto simp: rd_Some_iff)

declare dn_find_from.simps [simp del]

fun dn_find :: "byte list \<Rightarrow> byte list \<Rightarrow> nat list \<Rightarrow> nat cret option" where
  "dn_find domain msg [] = Some (Inl ENOENT)"
| "dn_find domain msg (sp # dnptrs) =
     do { r \<leftarrow> dn_find_from domain msg sp;
          case r of Inl e \<Rightarrow> Some (Inl e)
          | Inr (Some l) \<Rightarrow> Some (Inr l)
          | Inr None \<Rightarrow> dn_find domain msg dnptrs }"

text \<open>The first loop of \<open>ns_name_pack\<close>: is the domain legal?\<close>

function pack_legal :: "byte list \<Rightarrow> nat \<Rightarrow> unit cret option" where
  "pack_legal srcp l =
     do { n \<leftarrow> rd srcp 0;
          if 64 \<le> unat n then Some (Inl EMSGSIZE)
          else if NS_MAXCDNAME < l + unat n + 1 then Some (Inl EMSGSIZE)
          else if n = 0 then Some (Inr ())
          else pack_legal (drop (unat n + 1) srcp) (l + unat n + 1) }"
  by pat_completeness auto
termination
  by (relation "measure (\<lambda>(srcp, l). length srcp)") (auto simp: rd_Some_iff)

declare pack_legal.simps [simp del]

text \<open>
  The second loop.  \<open>dnptrs\<close> is the table as it was when the function was called (the part that
  is searched, up to \<open>lpp\<close>), \<open>tab\<close> the table with the new entry if there is one.
\<close>

type_synonym pack_result = "(byte list \<times> nat list option \<times> nat cret) option"

function pack_loop ::
  "byte list \<Rightarrow> byte list \<Rightarrow> nat \<Rightarrow> int \<Rightarrow> nat \<Rightarrow> nat list option \<Rightarrow> nat list option \<Rightarrow> int option \<Rightarrow> bool \<Rightarrow>
     pack_result" where
  "pack_loop srcp mem dst eob dstp dnptrs tab lastdnptr first =
     do { n \<leftarrow> rd srcp 0;
          found \<leftarrow> (if n \<noteq> 0 \<and> dnptrs \<noteq> None
                   then do { r \<leftarrow> dn_find srcp mem (the dnptrs); Some (case r of Inl e \<Rightarrow> None | Inr l \<Rightarrow> Some l) }
                   else Some None);
          case found of
            Some l \<Rightarrow>
              if eob - int dstp \<le> 1 then Some (mem, dnptrs, Inl EMSGSIZE)
              else do { mem \<leftarrow> wr mem dstp (word_of_nat (l div 256) OR NS_CMPRSFLGS);
                        mem \<leftarrow> wr mem (dstp + 1) (word_of_nat (l mod 256));
                        Some (mem, tab, Inr (dstp + 2 - dst)) }
          | None \<Rightarrow>
              let save = (n \<noteq> 0 \<and> dnptrs \<noteq> None \<and> lastdnptr \<noteq> None \<and>
                          int (length (the tab)) < the lastdnptr - 1 \<and> dstp < 0x4000 \<and> first);
                  tab = (if save then map_option (\<lambda>t. t @ [dstp]) tab else tab);
                  first = (if save then False else first)
              in if 64 \<le> unat n then Some (mem, dnptrs, Inl EMSGSIZE)
                 else if eob - int dstp < int (unat n + 1) then Some (mem, dnptrs, Inl EMSGSIZE)
                 else do { mem \<leftarrow> memcpy mem dstp srcp 0 (unat n + 1);
                           if n \<noteq> 0
                           then pack_loop (drop (unat n + 1) srcp) mem dst eob (dstp + unat n + 1) dnptrs tab lastdnptr first
                           else if eob < int (dstp + unat n + 1) then Some (mem, dnptrs, Inl EMSGSIZE)
                           else Some (mem, tab, Inr (dstp + unat n + 1 - dst)) } }"
  by pat_completeness auto
termination
  by (relation "measure (\<lambda>(srcp, _). length srcp)") (auto simp: rd_Some_iff)

declare pack_loop.simps [simp del]

definition ns_name_pack ::
  "byte list \<Rightarrow> byte list \<Rightarrow> nat \<Rightarrow> int \<Rightarrow> nat list option \<Rightarrow> int option \<Rightarrow> pack_result" where
  "ns_name_pack src mem dst dstsiz dnptrs lastdnptr =
     do { r \<leftarrow> pack_legal src 0;
          case r of Inl e \<Rightarrow> Some (mem, dnptrs, Inl e)
          | Inr _ \<Rightarrow> pack_loop src mem dst (int dst + dstsiz) dst dnptrs dnptrs lastdnptr True }"

definition ns_name_compress ::
  "byte list \<Rightarrow> byte list \<Rightarrow> byte list \<Rightarrow> nat \<Rightarrow> int \<Rightarrow> nat list option \<Rightarrow> int option \<Rightarrow> pack_result" where
  "ns_name_compress tmp0 src mem dst dstsiz dnptrs lastdnptr =
     do { (tmp, r) \<leftarrow> ns_name_pton src tmp0;
          case r of Inl e \<Rightarrow> Some (mem, dnptrs, Inl e)
          | Inr _ \<Rightarrow> ns_name_pack tmp mem dst dstsiz dnptrs lastdnptr }"

subsection \<open>What \<open>dn_find\<close> finds\<close>

lemma mklower_same: "mklower a = mklower b \<longleftrightarrow> same_ascii a b"
proof (rule same_ascii_lower)
  show "unat (mklower c) = (if 65 \<le> unat c \<and> unat c \<le> 90 then unat c + 32 else unat c)" for c
    by (rule byte_all) code_simp
qed

lemmas same_name_mklower = same_name_fold [where f = mklower, OF mklower_same]

lemma same_name_simps [simp]:
  "same_name [] ks \<longleftrightarrow> ks = []"
  "same_name ls [] \<longleftrightarrow> ls = []"
  "same_name (l # ls) (k # ks) \<longleftrightarrow> map mklower l = map mklower k \<and> same_name ls ks"
  by (auto simp: same_name_mklower)

lemma same_name_refl [simp]: "same_name ls ls"
  by (simp add: same_name_mklower)

lemma same_name_trans: "same_name ls ks \<Longrightarrow> same_name ks js \<Longrightarrow> same_name ls js"
  by (simp add: same_name_mklower)

lemma same_name_length: "same_name ls ks \<Longrightarrow> length (encode_name ls) = length (encode_name ks)"
proof (induction ls arbitrary: ks)
  case (Cons l ls)
  then obtain k ks' where k: "ks = k # ks'" "same_name ls ks'" "map mklower l = map mklower k"
    by (cases ks) auto
  then have "length l = length k" by (metis length_map)
  with Cons.IH [OF k(2)] k(1) show ?case by simp
qed simp

lemma find_label_correct:
  "cp + length l \<le> length msg \<Longrightarrow> find_label (length l) (l @ dn) msg cp =
     Some (map mklower l = map mklower (take (length l) (drop cp msg)))"
proof (induction l arbitrary: cp)
  case (Cons c l)
  then have lt: "cp < length msg" by simp
  then have tk: "take (Suc (length l)) (drop cp msg) = msg ! cp # take (length l) (drop (Suc cp) msg)"
    by (simp add: Cons_nth_drop_Suc [symmetric])
  have "rd msg cp = Some (msg ! cp)" using lt by (rule rd_in)
  then show ?case
    using Cons.IH [of "cp + 1"] Cons.prems by (simp add: rd_def tk)
qed simp

text \<open>The three shapes of a name, as \<open>dn_match\<close> meets them.\<close>

lemma dn_match_root: "rd msg cp = Some 0 \<Longrightarrow> dn_match msg dn cp = Some (Inr False)"
  by (simp add: dn_match.simps)

lemma dn_match_pointer:
  "rd msg cp = Some n \<Longrightarrow> 192 \<le> unat n \<Longrightarrow> rd msg (cp + 1) = Some b \<Longrightarrow>
     dn_match msg dn cp = dn_match msg dn ((unat n - 192) * 256 + unat b)"
  by (subst dn_match.simps) (auto simp: byte_simps)

lemma dn_match_label:
  assumes "rd msg cp = Some n" "0 < unat n" "unat n < 64" "cp + 1 + unat n \<le> length msg" "valid_label l"
    and "l' = take (unat n) (drop (cp + 1) msg)"
  shows "dn_match msg (encode_label l @ dn) cp =
    (if map mklower l \<noteq> map mklower l' then Some (Inr False)
     else do { e \<leftarrow> rd dn 0;
               if e = 0 then do { c \<leftarrow> rd msg (cp + 1 + unat n); Some (Inr (c = 0)) }
               else dn_match msg dn (cp + 1 + unat n) })"
proof -
  have len: "unat (word_of_nat (length l) :: byte) = length l" by (rule valid_label_byte [OF assms(5)])
  have n0: "n \<noteq> 0" using assms(2) by auto
  have l': "length l' = unat n" using assms(4,6) by simp
  have hd: "rd (encode_label l @ dn) 0 = Some (word_of_nat (length l))" by (simp add: encode_label_def rd_def)
  show ?thesis
  proof (cases "n = word_of_nat (length l)")
    case False
    then have "length l \<noteq> unat n" by auto
    then have "map mklower l \<noteq> map mklower l'" using l' by (metis length_map)
    with False n0 assms(1,3) hd show ?thesis by (subst dn_match.simps) (simp add: byte_simps)
  next
    case True
    then have n: "unat n = length l" using len by simp
    have "find_label (unat n) (l @ dn) msg (cp + 1) = Some (map mklower l = map mklower l')"
      using find_label_correct [of "cp + 1" l msg dn] assms(4,6) n by simp
    moreover have "rd (encode_label l @ dn) (1 + unat n) = rd dn 0"
      using rd_append_right [of "encode_label l" dn 0] n by simp
    moreover have "drop (1 + unat n) (encode_label l @ dn) = dn" "drop 1 (encode_label l @ dn) = l @ dn"
      using n by (simp_all add: encode_label_def)
    ultimately show ?thesis
      using n0 assms(1,3) hd [folded True] by (subst dn_match.simps) (simp add: byte_simps del: drop_append cong: if_cong)
  qed
qed

lemma encode_name_head: "list_all valid_label ls \<Longrightarrow> rd (encode_name ls @ post) 0 = Some e \<Longrightarrow> e = 0 \<longleftrightarrow> ls = []"
  by (cases ls) (auto simp: rd_def encode_label_def valid_label_byte)

lemma dn_match_correct:
  assumes "name_at msg cp ks h" "list_all valid_label ls" "ls \<noteq> []"
  shows "\<exists>b. dn_match msg (encode_name ls @ post) cp = Some (Inr b) \<and> (b \<longrightarrow> same_name ls ks)"
  using assms
proof (induction arbitrary: ls)
  case (root p)
  then show ?case by (intro exI [of _ False]) (simp add: dn_match_root)
next
  case (pointer p n b ks h)
  then show ?case by (simp add: dn_match_pointer)
next
  case (label p n l' ks h)
  from label.prems obtain l ls' where ls: "ls = l # ls'" "valid_label l" "list_all valid_label ls'"
    by (cases ls) auto
  obtain e where e: "rd (encode_name ls' @ post) 0 = Some e"
    by (cases "rd (encode_name ls' @ post) 0") auto
  have inside: "p + 1 + unat n < length msg" using name_at_inside [OF label.hyps(6)] .
  have step: "dn_match msg (encode_name ls @ post) p =
      (if map mklower l \<noteq> map mklower l' then Some (Inr False)
       else if e = 0 then Some (Inr (msg ! (p + 1 + unat n) = 0))
       else dn_match msg (encode_name ls' @ post) (p + 1 + unat n))"
    using dn_match_label [OF label.hyps(1-4) ls(2) label.hyps(5), of "encode_name ls' @ post"] e inside ls(1)
    by (simp add: rd_in)
  show ?case
  proof (cases "e = 0")
    case True
    with encode_name_head [OF ls(3) e] have "ls' = []" by simp
    moreover have "ks = []" if "msg ! (p + 1 + unat n) = 0"
      using label.hyps(6) that inside by (cases rule: name_at_cases) (auto simp: rd_def)
    ultimately show ?thesis using True step ls(1) by auto
  next
    case False
    with encode_name_head [OF ls(3) e] label.IH [OF ls(3)] step ls(1) show ?thesis by auto
  qed
qed

lemma rd_append_Some: "rd m p = Some v \<Longrightarrow> rd (m @ x) p = Some v"
  by (simp add: rd_Some_iff nth_append)

lemma name_at_append: "name_at m p ks h \<Longrightarrow> name_at (m @ x) p ks h"
proof (induction rule: name_at.induct)
  case (root p)
  then show ?case by (intro name_at.root) (auto simp: rd_append_left rd_Some_iff nth_append)
next
  case (label p n l ks h)
  then have "l = take (unat n) (drop (p + 1) (m @ x))" by auto
  with label show ?case by (intro name_at.label [of _ p n]) (auto simp: rd_Some_iff nth_append)
next
  case (pointer p n b ks h)
  then show ?case by (intro name_at.pointer [of _ p n b]) (auto simp: rd_Some_iff nth_append)
qed

definition name_fits :: "byte list \<Rightarrow> nat \<Rightarrow> label list \<Rightarrow> bool" where
  "name_fits m p ks \<longleftrightarrow> (\<exists>h. name_at m p ks h \<and> length (encode_name ks) + 2 * h \<le> length m)"

lemma dn_find_from_correct:
  assumes "name_at m sp ks h" "length (encode_name ks) + 2 * h \<le> length m"
    and ls: "list_all valid_label ls" "ls \<noteq> []"
  shows "\<exists>r. dn_find_from (encode_name ls @ post) (m @ x) sp = Some (Inr r) \<and>
    (\<forall>q. r = Some q \<longrightarrow> q < 0x4000 \<and> (\<exists>ks. name_fits m q ks \<and> same_name ls ks))"
  using assms(1,2)
proof (induction rule: name_at.induct)
  case (root p)
  then show ?case by (auto simp: dn_find_from.simps rd_append_Some)
next
  case (pointer p n b ks h)
  then show ?case by (auto simp: dn_find_from.simps [of _ _ p] rd_append_Some byte_simps)
next
  case (label p n l ks h)
  have rd: "rd (m @ x) p = Some n" using label.hyps(1) by (auto simp: rd_Some_iff nth_append)
  have here: "name_at m p (l # ks) h" using label.hyps by (rule name_at.label)
  from dn_match_correct [OF name_at_append [OF here] ls, of x post] obtain b
    where b: "dn_match (m @ x) (encode_name ls @ post) p = Some (Inr b)" "b \<longrightarrow> same_name ls (l # ks)" by blast
  show ?case
  proof (cases "b \<or> 0x4000 \<le> p")
    case True
    have "name_fits m p (l # ks)" using here label.prems by (auto simp: name_fits_def)
    with True rd b label.hyps(2,3) show ?thesis
      by (auto simp: dn_find_from.simps [of _ _ p] byte_simps)
  next
    case False
    with rd b label.hyps(2,3) have "dn_find_from (encode_name ls @ post) (m @ x) p =
        dn_find_from (encode_name ls @ post) (m @ x) (p + 1 + unat n)"
      by (auto simp: dn_find_from.simps [of _ _ p] byte_simps)
    with label.IH label.prems show ?thesis by simp
  qed
qed

definition good_table :: "byte list \<Rightarrow> nat list \<Rightarrow> bool" where
  "good_table m ptrs \<longleftrightarrow> (\<forall>p \<in> set ptrs. \<exists>ks. name_fits m p ks)"

lemma dn_find_correct:
  assumes "good_table m ptrs" "list_all valid_label ls" "ls \<noteq> []"
  shows "\<exists>r. dn_find (encode_name ls @ post) (m @ x) ptrs = Some r \<and>
    (\<forall>q. r = Inr q \<longrightarrow> q < 0x4000 \<and> (\<exists>ks. name_fits m q ks \<and> same_name ls ks))"
  using assms(1)
proof (induction ptrs)
  case (Cons p ptrs)
  then obtain ks h where "name_at m p ks h" "length (encode_name ks) + 2 * h \<le> length m"
    by (auto simp: good_table_def name_fits_def)
  from dn_find_from_correct [OF this assms(2,3), of post x] Cons show ?case
    by (auto simp: good_table_def split: option.splits)
qed simp

subsection \<open>What \<open>ns_name_pack\<close> writes\<close>

lemma name_fits_append: "name_fits m p ks \<Longrightarrow> name_fits (m @ x) p ks"
  by (auto simp: name_fits_def intro: name_at_append)

lemma good_table_append: "good_table m ptrs \<Longrightarrow> good_table (m @ x) ptrs"
  by (auto simp: good_table_def dest: name_fits_append)

text \<open>
  \<open>packed m d p ls\<close>: the message \<open>m\<close> ends in a name that starts at \<open>p\<close>, denotes \<open>ls\<close> up to case,
  and is followed by \<open>ns_name_unpack\<close> within its bound on the work; \<open>d\<close> bytes of the
  message precede the name being packed.
\<close>

definition packed :: "byte list \<Rightarrow> nat \<Rightarrow> nat \<Rightarrow> label list \<Rightarrow> bool" where
  "packed m d p ls \<longleftrightarrow> (\<exists>ks h. name_at m p ks h \<and> same_name ls ks \<and>
     p + length (encode_name ks) + 2 * h \<le> length m + d \<and> skip_loop m p = Inr (length m))"

lemma packed_root: "packed (m @ [0]) d (length m) []"
proof -
  have "name_at (m @ [0]) (length m) [] 0" by (rule name_at.root) simp
  moreover have "skip_loop (m @ [0]) (length m) = Inr (length (m @ [0]))"
    using skip_loop_root [of "length m" "m @ [0]"] by simp
  ultimately show ?thesis unfolding packed_def
    by (intro exI [of _ "[]"] exI [of _ 0]) simp
qed

lemma packed_label:
  assumes "packed (m @ encode_label l @ out) d (length m + length (encode_label l)) ls" "valid_label l"
  shows "packed (m @ encode_label l @ out) d (length m) (l # ls)"
proof -
  let ?m = "m @ encode_label l @ out"
  let ?n = "word_of_nat (length l) :: byte"
  have n: "unat ?n = length l" "0 < length l" "length l < 64"
    using assms(2) by (auto simp: valid_label_byte valid_label_def)
  obtain ks h where k: "name_at ?m (length m + length (encode_label l)) ks h" "same_name ls ks"
    "length m + length (encode_label l) + length (encode_name ks) + 2 * h \<le> length ?m + d"
    "skip_loop ?m (length m + length (encode_label l)) = Inr (length ?m)"
    using assms(1) unfolding packed_def by blast
  have rd: "rd ?m (length m) = Some ?n" by (simp add: encode_label_def)
  have "name_at ?m (length m) (l # ks) h"
    using k(1) n rd by (intro name_at.label [of _ _ ?n]) (auto simp: encode_label_def)
  moreover have "skip_loop ?m (length m) = Inr (length ?m)"
    using skip_loop_label [of "length m" ?m] k(4) n valid_label_byte(2) [OF assms(2)] by (simp add: encode_label_def nth_append)
  ultimately show ?thesis using k(2,3) unfolding packed_def
    by (intro exI [of _ "l # ks"] exI [of _ h]) simp
qed

lemma pointer_bytes:
  assumes "l < 0x4000"
  shows "unat (word_of_nat (l div 256) OR NS_CMPRSFLGS :: byte) = 192 + l div 256"
proof -
  have "unat n < 64 \<longrightarrow> unat (n OR 0xC0) = 192 + unat n" for n :: byte
    by (rule byte_all [of "\<lambda>n. unat n < 64 \<longrightarrow> unat (n OR 0xC0) = 192 + unat n"]) code_simp
  moreover have "unat (word_of_nat (l div 256) :: byte) = l div 256" "l div 256 < 64"
    using assms by (simp_all add: word_of_nat_byte_eq)
  ultimately show ?thesis by (simp add: NS_CMPRSFLGS_def)
qed

lemma packed_pointer:
  assumes "name_fits m0 l ks" "same_name ls ks" "l < 0x4000" "take (length m0) m = m0" "length m0 \<le> length m"
  shows "packed (m @ [word_of_nat (l div 256) OR NS_CMPRSFLGS, word_of_nat (l mod 256)]) (length m0) (length m) ls"
    (is "packed ?m _ _ _")
proof -
  let ?hi = "word_of_nat (l div 256) OR NS_CMPRSFLGS :: byte" and ?lo = "word_of_nat (l mod 256) :: byte"
  have hi: "unat ?hi = 192 + l div 256" using assms(3) by (rule pointer_bytes)
  have lo: "unat ?lo = l mod 256" by (simp add: word_of_nat_byte_eq)
  obtain h where h: "name_at m0 l ks h" "length (encode_name ks) + 2 * h \<le> length m0"
    using assms(1) unfolding name_fits_def by blast
  have "m = m0 @ drop (length m0) m" using assms(4) append_take_drop_id [of "length m0" m] by simp
  then have "name_at ?m l ks h" using name_at_append [OF h(1)] by (metis append.assoc)
  then have "name_at ?m ((unat ?hi - 192) * 256 + unat ?lo) ks h" by (simp add: hi lo)
  moreover have "rd ?m (length m) = Some ?hi" "rd ?m (length m + 1) = Some ?lo" by (simp_all add: rd_def nth_append)
  ultimately have "name_at ?m (length m) ks (Suc h)"
    using name_at.pointer [of ?m "length m" ?hi ?lo ks h] hi by simp
  moreover have "skip_loop ?m (length m) = Inr (length ?m)"
    using skip_loop_pointer [of "length m" ?m] hi by simp
  ultimately show ?thesis using assms(2) h(2) unfolding packed_def
    by (intro exI [of _ ks] exI [of _ "Suc h"]) simp
qed

definition table_ok :: "byte list \<Rightarrow> nat list option \<Rightarrow> bool" where
  "table_ok m dnptrs \<longleftrightarrow> (case dnptrs of None \<Rightarrow> True | Some t \<Rightarrow> good_table m t)"

lemma pack_lookup:
  assumes "table_ok m dnptrs" "list_all valid_label ls" "ls \<noteq> []" "mem = m @ x"
  obtains found where
    "(if n \<noteq> 0 \<and> dnptrs \<noteq> None
      then do { r \<leftarrow> dn_find (encode_name ls @ post) mem (the dnptrs); Some (case r of Inl e \<Rightarrow> None | Inr l \<Rightarrow> Some l) }
      else Some None) = Some found"
    "\<And>l. found = Some l \<Longrightarrow> l < 0x4000 \<and> (\<exists>ks. name_fits m l ks \<and> same_name ls ks)"
proof (cases "n \<noteq> 0 \<and> dnptrs \<noteq> None")
  case True
  then obtain t where t: "dnptrs = Some t" "good_table m t" using assms(1) by (auto simp: table_ok_def)
  from dn_find_correct [OF t(2) assms(2,3), of post x] obtain r where
    "dn_find (encode_name ls @ post) (m @ x) t = Some r"
    "\<forall>q. r = Inr q \<longrightarrow> q < 0x4000 \<and> (\<exists>ks. name_fits m q ks \<and> same_name ls ks)" by blast
  with True t(1) assms(4) show ?thesis
    by (intro that [of "case r of Inl e \<Rightarrow> None | Inr l \<Rightarrow> Some l"]) (auto split: sum.splits)
next
  case False
  then show ?thesis by (intro that [of None]) auto
qed

lemma pack_loop_found:
  assumes "rd srcp 0 = Some n"
    "(if n \<noteq> 0 \<and> dnptrs \<noteq> None
      then do { r \<leftarrow> dn_find srcp mem (the dnptrs); Some (case r of Inl e \<Rightarrow> None | Inr l \<Rightarrow> Some l) }
      else Some None) = Some (Some l)" "e \<le> length mem"
  shows "pack_loop srcp mem dst (int e) dstp dnptrs tab lastdnptr first =
    (if e \<le> dstp + 1 then Some (mem, dnptrs, Inl EMSGSIZE)
     else Some (overlay mem dstp [word_of_nat (l div 256) OR NS_CMPRSFLGS, word_of_nat (l mod 256)], tab,
       Inr (dstp + 2 - dst)))"
  using assms overlay_overlay [of dstp "[word_of_nat (l div 256) OR NS_CMPRSFLGS]" "[word_of_nat (l mod 256)]" mem]
  by (subst pack_loop.simps) (auto simp: wr_overlay)

lemma pack_loop_label:
  assumes "valid_label l"
    "(if (word_of_nat (length l) :: byte) \<noteq> 0 \<and> dnptrs \<noteq> None
      then do { r \<leftarrow> dn_find (encode_label l @ srcp) mem (the dnptrs); Some (case r of Inl e \<Rightarrow> None | Inr l \<Rightarrow> Some l) }
      else Some None) = Some None" "e \<le> length mem"
  shows "\<exists>new first'. set new \<subseteq> {dstp} \<and> pack_loop (encode_label l @ srcp) mem dst (int e) dstp dnptrs tab lastdnptr first =
    (if e < dstp + Suc (length l) then Some (mem, dnptrs, Inl EMSGSIZE)
     else pack_loop srcp (overlay mem dstp (encode_label l)) dst (int e) (dstp + Suc (length l)) dnptrs
       (map_option (\<lambda>t. t @ new) tab) lastdnptr first')"
proof -
  let ?n = "word_of_nat (length l) :: byte"
  define save where "save = (?n \<noteq> 0 \<and> dnptrs \<noteq> None \<and> lastdnptr \<noteq> None \<and>
    int (length (the tab)) < the lastdnptr - 1 \<and> dstp < 0x4000 \<and> first)"
  have n: "unat ?n = length l" "?n \<noteq> 0" "length l < 64"
    using assms(1) by (auto simp: valid_label_byte valid_label_def)
  have rd: "rd (encode_label l @ srcp) 0 = Some ?n" by (simp add: encode_label_def)
  have cp: "memcpy mem dstp (encode_label l @ srcp) 0 (length l + 1) = Some (overlay mem dstp (encode_label l))"
    if "dstp + Suc (length l) \<le> e"
    using that assms(3) by (simp add: memcpy_overlay)
  have dr: "drop (Suc (length l)) (encode_label l @ srcp) = srcp" by simp
  show ?thesis
    by (intro exI [of _ "if save then [dstp] else []"] exI [of _ "if save then False else first"],
        subst pack_loop.simps, unfold rd bind.bind_lunit assms(2) Let_def save_def [symmetric])
      (cases save; use n cp in \<open>simp add: dr option.map_ident del: drop_append\<close>)
qed

definition pack_outcome ::
  "byte list \<Rightarrow> nat \<Rightarrow> nat \<Rightarrow> nat \<Rightarrow> nat \<Rightarrow> label list \<Rightarrow> nat list option \<Rightarrow> nat list option \<Rightarrow> nat list option \<Rightarrow>
     byte list \<Rightarrow> nat cret \<Rightarrow> bool" where
  "pack_outcome mem d e dst dstp ls dnptrs tab tab' out r \<longleftrightarrow> dstp + length out \<le> e \<and>
     (case r of
        Inl err \<Rightarrow> err = EMSGSIZE \<and> tab' = dnptrs \<and> e < dstp + length (encode_name ls)
      | Inr k \<Rightarrow> k = dstp + length out - dst \<and> length out \<le> length (encode_name ls) \<and>
          packed (take dstp mem @ out) d dstp ls \<and>
          (\<exists>new. tab' = map_option (\<lambda>t. t @ new) tab \<and> good_table (take dstp mem @ out) new))"

lemma packed_name_fits: "packed m d p ls \<Longrightarrow> d \<le> p \<Longrightarrow> \<exists>ks. name_fits m p ks"
  by (force simp: packed_def name_fits_def)

lemma pack_outcome_label:
  assumes "pack_outcome mem2 d e dst (dstp + Suc (length l)) ls dnptrs (map_option (\<lambda>t. t @ new) tab) tab' out r"
    and tk: "take (dstp + Suc (length l)) mem2 = take dstp mem @ encode_label l"
    and "valid_label l" "set new \<subseteq> {dstp}" "d \<le> dstp" "dstp \<le> length mem"
  shows "pack_outcome mem d e dst dstp (l # ls) dnptrs tab tab' (encode_label l @ out) r"
proof (cases r)
  case (Inl err)
  with assms(1) show ?thesis by (auto simp: pack_outcome_def)
next
  case (Inr k)
  let ?m = "take dstp mem @ encode_label l @ out"
  from assms(1) Inr tk obtain new' where
    p: "packed ?m d (dstp + Suc (length l)) ls" and new': "good_table ?m new'"
    "tab' = map_option (\<lambda>t. t @ new') (map_option (\<lambda>t. t @ new) tab)"
    by (auto simp: pack_outcome_def)
  have q: "packed ?m d dstp (l # ls)"
    using packed_label [of "take dstp mem" l out d ls] p assms(3,6) by simp
  with packed_name_fits [OF q assms(5)] assms(4) new'(1) have "good_table ?m (new @ new')"
    by (auto simp: good_table_def)
  with q new'(2) assms(1) Inr show ?thesis
    by (auto simp: pack_outcome_def option.map_comp comp_def intro!: exI [of _ "new @ new'"])
qed

lemma pack_loop_correct:
  assumes "table_ok (take d mem) dnptrs" "list_all valid_label ls" "d \<le> dstp" "dst \<le> dstp"
    "dstp \<le> e" "e \<le> length mem"
  shows "\<exists>out tab' r. pack_loop (encode_name ls @ post) mem dst (int e) dstp dnptrs tab lastdnptr first =
      Some (overlay mem dstp out, tab', r) \<and> pack_outcome mem d e dst dstp ls dnptrs tab tab' out r"
  using assms
proof (induction ls arbitrary: mem dstp tab first)
  case Nil
  show ?case
  proof (cases "e = dstp")
    case True
    then show ?thesis
      by (intro exI [of _ "[]"] exI) (auto simp: pack_loop.simps pack_outcome_def)
  next
    case False
    with Nil.prems packed_root [of "take dstp mem" d] show ?thesis
      by (intro exI [of _ "[0]"] exI [of _ tab] exI [of _ "Inr (dstp + 1 - dst)"] conjI)
        (auto simp: pack_loop.simps pack_outcome_def memcpy_overlay good_table_def option.map_ident
          intro!: exI [of _ "[]"])
  qed
next
  case (Cons l ls)
  then have l: "valid_label l" "list_all valid_label ls" by auto
  let ?n = "word_of_nat (length l) :: byte" and ?src = "encode_name (l # ls) @ post"
  have n: "rd ?src 0 = Some ?n" by (simp add: encode_label_def)
  have d: "length (take d mem) = d" using Cons.prems by simp
  obtain found where look: "(if ?n \<noteq> 0 \<and> dnptrs \<noteq> None
      then do { r \<leftarrow> dn_find ?src mem (the dnptrs); Some (case r of Inl e \<Rightarrow> None | Inr l \<Rightarrow> Some l) }
      else Some None) = Some found"
    and hit: "\<And>q. found = Some q \<Longrightarrow> q < 0x4000 \<and> (\<exists>ks. name_fits (take d mem) q ks \<and> same_name (l # ls) ks)"
    using pack_lookup [OF Cons.prems(1,2), of mem "drop d mem"] by (metis append_take_drop_id list.discI)
  show ?case
  proof (cases found)
    case (Some q)
    note step = pack_loop_found [OF n look [unfolded Some] Cons.prems(6)]
    from hit [OF Some] obtain ks where "q < 0x4000" "name_fits (take d mem) q ks" "same_name (l # ls) ks" by blast
    from packed_pointer [OF this(2,3,1), of "take dstp mem"] Cons.prems d
    have pk: "packed (take dstp mem @ [word_of_nat (q div 256) OR NS_CMPRSFLGS, word_of_nat (q mod 256)]) d dstp (l # ls)"
      by (simp add: min_absorb1)
    show ?thesis
    proof (cases "e \<le> dstp + 1")
      case True
      moreover obtain i where "length l = Suc i" using l by (cases l) (auto simp: valid_label_def)
      ultimately show ?thesis using Cons.prems step
        by (intro exI [of _ "[]"] exI [of _ dnptrs] exI [of _ "Inl EMSGSIZE"]) (simp add: pack_outcome_def)
    next
      case False
      with Cons.prems step l pk show ?thesis
        by (intro exI [of _ "[word_of_nat (q div 256) OR NS_CMPRSFLGS, word_of_nat (q mod 256)]"] exI [of _ tab]
            exI [of _ "Inr (dstp + 2 - dst)"])
          (auto simp: pack_outcome_def valid_label_def good_table_def option.map_ident Suc_le_eq intro!: exI [of _ "[]"])
    qed
  next
    case None
    obtain new first' where new: "set new \<subseteq> {dstp}" and
      step: "pack_loop ?src mem dst (int e) dstp dnptrs tab lastdnptr first =
        (if e < dstp + Suc (length l) then Some (mem, dnptrs, Inl EMSGSIZE)
         else pack_loop (encode_name ls @ post) (overlay mem dstp (encode_label l)) dst (int e) (dstp + Suc (length l))
           dnptrs (map_option (\<lambda>t. t @ new) tab) lastdnptr first')"
      using pack_loop_label [OF l(1) look [unfolded None encode_name_simps append.assoc] Cons.prems(6), of dstp dst tab lastdnptr first]
      unfolding encode_name_simps append.assoc by blast
    show ?thesis
    proof (cases "e < dstp + Suc (length l)")
      case True
      with Cons.prems step show ?thesis
        by (intro exI [of _ "[]"] exI [of _ dnptrs] exI [of _ "Inl EMSGSIZE"]) (auto simp: pack_outcome_def)
    next
      case False
      let ?mem = "overlay mem dstp (encode_label l)" and ?dstp = "dstp + Suc (length l)"
      have tk: "take ?dstp ?mem = take dstp mem @ encode_label l"
        using False Cons.prems take_overlay [of dstp "encode_label l" mem] by simp
      obtain out tab' r where
        eq: "pack_loop (encode_name ls @ post) ?mem dst (int e) ?dstp dnptrs
          (map_option (\<lambda>t. t @ new) tab) lastdnptr first' = Some (overlay ?mem ?dstp out, tab', r)"
        and oc: "pack_outcome ?mem d e dst ?dstp ls dnptrs (map_option (\<lambda>t. t @ new) tab) tab' out r"
        using Cons.IH [of ?mem ?dstp "map_option (\<lambda>t. t @ new) tab" first'] Cons.prems False l by auto
      have "overlay ?mem ?dstp out = overlay mem dstp (encode_label l @ out)"
        using overlay_overlay [of dstp "encode_label l" out mem] oc Cons.prems by (simp add: pack_outcome_def)
      moreover have "pack_outcome mem d e dst dstp (l # ls) dnptrs tab tab' (encode_label l @ out) r"
        using pack_outcome_label [OF oc tk l(1) new] Cons.prems by simp
      ultimately show ?thesis using False eq step by auto
    qed
  qed
qed

lemma pack_legal_correct:
  "list_all valid_label ls \<Longrightarrow> pack_legal (encode_name ls @ post) k =
     Some (if k + length (encode_name ls) \<le> NS_MAXCDNAME then Inr () else Inl EMSGSIZE)"
proof (induction ls arbitrary: k)
  case Nil
  then show ?case by (simp add: pack_legal.simps)
next
  case (Cons l ls)
  have n: "unat (word_of_nat (length l) :: byte) = length l" "(word_of_nat (length l) :: byte) \<noteq> 0" "length l < 64"
    using Cons.prems by (auto simp: valid_label_byte valid_label_def)
  have "0 < length (encode_name ls)" by simp
  with n Cons show ?case
    by (subst pack_legal.simps) (auto simp: encode_label_def add.assoc simp del: length_greater_0_conv)
qed

text \<open>
  The contract of \<open>ns_name_pack\<close>: the table of earlier names stays good for the longer message,
  and the new name is in the message.
\<close>

definition pack_contract ::
  "label list \<Rightarrow> byte list \<Rightarrow> nat \<Rightarrow> nat \<Rightarrow> nat list option \<Rightarrow> byte list \<Rightarrow> nat list option \<Rightarrow> nat cret \<Rightarrow> bool" where
  "pack_contract ls mem dst dstsiz dnptrs mem' tab' r \<longleftrightarrow>
     length mem' = length mem \<and> take dst mem' = take dst mem \<and>
     drop (dst + dstsiz) mem' = drop (dst + dstsiz) mem \<and>
     (case r of
        Inl e \<Rightarrow> e = EMSGSIZE \<and> tab' = dnptrs \<and> min NS_MAXCDNAME dstsiz < length (encode_name ls)
      | Inr k \<Rightarrow> k \<le> dstsiz \<and> k \<le> length (encode_name ls) \<and> length (encode_name ls) \<le> NS_MAXCDNAME \<and>
          table_ok (take (dst + k) mem') tab' \<and> packed (take (dst + k) mem') dst dst ls)"

lemma ns_name_pack_contract:
  assumes "list_all valid_label ls" "table_ok (take dst mem) dnptrs" "dst + dstsiz \<le> length mem"
  shows "\<exists>mem' tab' r. ns_name_pack (encode_name ls @ post) mem dst (int dstsiz) dnptrs lastdnptr =
    Some (mem', tab', r) \<and> pack_contract ls mem dst dstsiz dnptrs mem' tab' r"
proof (cases "length (encode_name ls) \<le> NS_MAXCDNAME")
  case False
  then show ?thesis
    by (auto simp: ns_name_pack_def pack_legal_correct [OF assms(1)] pack_contract_def)
next
  case True
  obtain out tab' r where
    eq: "pack_loop (encode_name ls @ post) mem dst (int (dst + dstsiz)) dst dnptrs dnptrs lastdnptr True =
      Some (overlay mem dst out, tab', r)"
    and oc: "pack_outcome mem dst (dst + dstsiz) dst dst ls dnptrs dnptrs tab' out r"
    using pack_loop_correct [OF assms(2,1) order_refl order_refl le_add1 assms(3)] by blast
  have len: "dst + length out \<le> dst + dstsiz" using oc by (simp add: pack_outcome_def)
  have "pack_contract ls mem dst dstsiz dnptrs (overlay mem dst out) tab' r"
  proof (cases r)
    case (Inl e)
    with oc len assms(3) show ?thesis
      by (auto simp: pack_contract_def pack_outcome_def drop_overlay_after)
  next
    case (Inr k)
    with oc obtain new where tab': "tab' = map_option (\<lambda>t. t @ new) dnptrs" "good_table (take dst mem @ out) new"
      and k: "k = length out" by (auto simp: pack_outcome_def)
    with assms(2) good_table_append [of "take dst mem" _ out] have "table_ok (take dst mem @ out) tab'"
      by (auto simp: table_ok_def good_table_def split: option.splits)
    with oc len assms(3) Inr True k show ?thesis
      by (auto simp: pack_contract_def pack_outcome_def drop_overlay_after)
  qed
  with eq True show ?thesis
    by (auto simp: ns_name_pack_def pack_legal_correct [OF assms(1)])
qed

lemma packed_unpack:
  assumes "packed m p p ls" "length (encode_name ls) \<le> length buf"
  shows "\<exists>buf' ks. ns_name_unpack m (int p) buf = Some (buf', Inr (int (length m) - int p)) \<and>
    same_name ls ks \<and> take (length (encode_name ks)) buf' = encode_name ks"
proof -
  obtain ks h where k: "name_at m p ks h" "same_name ls ks" "length (encode_name ks) + 2 * h \<le> length m"
    "ns_name_skip m p = Inr (length m)"
    using assms(1) unfolding packed_def ns_name_skip_def by auto
  have "length (encode_name ks) \<le> length buf" using assms(2) same_name_length [OF k(2)] by simp
  with ns_name_unpack_name_at [OF k(1) _ k(3)] obtain buf' len where
    u: "ns_name_unpack m (int p) buf = Some (buf', Inr len)" "take (length (encode_name ks)) buf' = encode_name ks"
    by blast
  have "0 < len" "ns_name_skip m p = Inr (p + nat len)" using ns_name_unpack_Inr [OF u(1)] by auto
  with k(4) have "len = int (length m) - int p" by simp
  with u k(2) show ?thesis by blast
qed

subsection \<open>Properties\<close>

text \<open>
  C13: \<open>ns_name_pack\<close> on a well-formed name, with a table whose entries are names of the message:
  it stays inside its buffers and returns; it changes only the output area; it fails, leaving
  the table as it was, only if the uncompressed name exceeds 255 bytes or the output; otherwise
  the message now ends in a name that denotes the same labels up to case, no longer than the
  uncompressed one, and every entry of the updated table is again a name of the message.
\<close>

theorem ns_name_pack_correct:
  assumes "list_all valid_label ls" and "table_ok (take dst mem) dnptrs" and "dst + dstsiz \<le> length mem"
  shows "\<exists>mem' tab' r. ns_name_pack (encode_name ls @ post) mem dst (int dstsiz) dnptrs lastdnptr =
    Some (mem', tab', r) \<and> pack_contract ls mem dst dstsiz dnptrs mem' tab' r"
  using assms by (rule ns_name_pack_contract)

theorem ns_name_pack_witness:
  "\<exists>mem' tab' r. ns_name_pack ([1, 119, 2, 100, 69, 0] @ [])
      [2, 68, 101, 0, 0, 0, 0, 0, 0, 0, 0] 4 (int 6) (Some [0]) (Some 5) = Some (mem', tab', r) \<and>
    pack_contract [[119], [100, 69]] [2, 68, 101, 0, 0, 0, 0, 0, 0, 0, 0] 4 6 (Some [0]) mem' tab' r"
proof -
  have "name_fits [2, 68, 101, 0] 0 [[68, 101]]"
    using name_at_encode_name [of "[[68, 101]]" "[]" "[]"]
    by (auto simp: name_fits_def encode_label_def valid_label_def)
  then have "table_ok (take 4 [2, 68, 101, 0, 0, 0, 0, 0, 0, 0, 0]) (Some [0])"
    by (auto simp: table_ok_def good_table_def)
  then show ?thesis
    using ns_name_pack_correct [of "[[119], [100, 69]]" 4 "[2, 68, 101, 0, 0, 0, 0, 0, 0, 0, 0]" "Some [0]" 6 "[]" "Some 5"]
    by (simp add: valid_label_def encode_label_def)
qed

text \<open>
  C7: round trip through a message: when \<open>ns_name_compress\<close> has put the name of a text into a
  message, \<open>ns_name_unpack\<close> reads back, from the same place and over the same number of bytes,
  the labels of the text up to case.
\<close>

theorem compress_unpack_roundtrip:
  assumes "0 \<notin> set s" and "length tmp0 = NS_MAXCDNAME" and "table_ok (take dst mem) dnptrs"
    and "dst + dstsiz \<le> length mem" and "NS_MAXCDNAME \<le> length buf"
    and "ns_name_compress tmp0 (s @ 0 # post) mem dst (int dstsiz) dnptrs lastdnptr = Some (mem', tab', Inr k)"
  shows "\<exists>ls fq ks buf'. parse_name s = Some (ls, fq) \<and> same_name ls ks \<and>
    ns_name_unpack (take (dst + k) mem') (int dst) buf = Some (buf', Inr (int k)) \<and>
    take (length (encode_name ks)) buf' = encode_name ks"
proof -
  obtain tmp r where pton: "ns_name_pton (s @ 0 # post) tmp0 = Some (tmp, r)"
    and r: "r = (case parse_name s of None \<Rightarrow> Inl EMSGSIZE
         | Some (ls, fq) \<Rightarrow> if fits_name NS_MAXCDNAME ls then Inr fq else Inl EMSGSIZE)"
    and enc: "\<And>ls fq. parse_name s = Some (ls, fq) \<Longrightarrow> fits_name NS_MAXCDNAME ls \<Longrightarrow>
       take (length (encode_name ls)) tmp = encode_name ls"
    using pton_text [OF assms(1), of post tmp0] unfolding assms(2) by blast
  from assms(6) pton obtain fq0 where "r = Inr fq0" and
    pack: "ns_name_pack tmp mem dst (int dstsiz) dnptrs lastdnptr = Some (mem', tab', Inr k)"
    by (auto simp: ns_name_compress_def split: sum.splits)
  with r obtain ls fq where ls: "parse_name s = Some (ls, fq)" "fits_name NS_MAXCDNAME ls"
    by (auto split: option.splits if_splits)
  from enc [OF ls] obtain rest where "tmp = encode_name ls @ rest" by (metis append_take_drop_id)
  with ns_name_pack_contract [OF _ assms(3,4), of ls rest lastdnptr] pack ls(2)
  have c: "pack_contract ls mem dst dstsiz dnptrs mem' tab' (Inr k)" by (auto simp: fits_name_def)
  then have "length (take (dst + k) mem') = dst + k" "packed (take (dst + k) mem') dst dst ls"
    "length (encode_name ls) \<le> length buf"
    using assms(4,5) by (auto simp: pack_contract_def)
  with packed_unpack [OF this(2,3)] ls(1) show ?thesis by auto
qed

theorem compress_unpack_roundtrip_witness:
  "\<exists>ls fq ks buf'. parse_name [119, 46, 100, 69] = Some (ls, fq) \<and> same_name ls ks \<and>
    ns_name_unpack (take (4 + 4) [2, 68, 101, 0, 1, 119, 0xC0, 0, 0, 0]) (int 4) (replicate 255 0) = Some (buf', Inr (int 4)) \<and>
    take (length (encode_name ks)) buf' = encode_name ks"
proof (rule compress_unpack_roundtrip)
  have "name_fits [2, 68, 101, 0] 0 [[68, 101]]"
    using name_at_encode_name [of "[[68, 101]]" "[]" "[]"]
    by (auto simp: name_fits_def encode_label_def valid_label_def)
  then show "table_ok (take 4 [2, 68, 101, 0, 0, 0, 0, 0, 0, 0]) (Some [0])"
    by (auto simp: table_ok_def good_table_def)
  show "ns_name_compress (replicate 255 0) ([119, 46, 100, 69] @ 0 # []) [2, 68, 101, 0, 0, 0, 0, 0, 0, 0] 4 (int 6) (Some [0])
      (Some 5) = Some ([2, 68, 101, 0, 1, 119, 0xC0, 0, 0, 0], Some [0, 4], Inr 4)"
    by code_simp
qed (simp_all add: NS_MAXCDNAME_def)

end
