(* ===== verification/Dns_Rr.thy ===== *)
theory Dns_Rr
  imports Dns_Wire
begin

text \<open>
  The iterator over the resource records of a DNS packet:
  \<^verbatim>\<open>src/original/resolv/ns_rr_cursor_init.c\<close>, \<^verbatim>\<open>ns_rr_cursor_next.c\<close> and the inline accessors of
  \<^verbatim>\<open>src/original/include/arpa/nameser.h\<close>.

  The pointers \<open>begin\<close> and \<open>end\<close> of a cursor delimit the packet; the record holds the packet
  itself, and \<open>first_rr\<close> and \<open>current\<close> as offsets into it.
\<close>

subsection \<open>The routines\<close>

record ns_rr_cursor =
  packet :: "byte list"
  first_rr :: "nat option"
  current :: nat

record ns_rr_wire =
  rname :: "byte list"
  rtype :: "16 word"
  rclass :: "16 word"
  ttl :: "32 word"
  rdata :: "nat option"
  rdlength :: "16 word"

definition zero_rr :: ns_rr_wire where
  "zero_rr = \<lparr>rname = replicate 255 0, rtype = 0, rclass = 0, ttl = 0, rdata = None, rdlength = 0\<rparr>"

text \<open>The result of a step is the new state of the objects and the boolean returned.\<close>

definition ns_rr_cursor_init :: "ns_rr_cursor \<Rightarrow> byte list \<Rightarrow> (ns_rr_cursor \<times> bool) option" where
  "ns_rr_cursor_init c buf =
     do { let c = c\<lparr>packet := buf\<rparr>;
          bad \<leftarrow> (if length buf < 12 then Some True
                 else do { b4 \<leftarrow> rd buf 4;
                           if b4 \<noteq> 0 then Some True else do { b5 \<leftarrow> rd buf 5; Some (b5 \<noteq> 1) } });
          if bad then Some (c\<lparr>current := length buf\<rparr>, False)
          else do { r \<leftarrow> ns_name_length_uncompressed buf 12;
                    case r of
                      Inl _ \<Rightarrow> Some (c\<lparr>current := length buf, first_rr := None\<rparr>, False)
                    | Inr consumed \<Rightarrow>
                        if length buf - (12 + consumed) < 4
                        then Some (c\<lparr>current := length buf, first_rr := None\<rparr>, False)
                        else Some (c\<lparr>current := 12 + consumed + 4, first_rr := Some (12 + consumed + 4)\<rparr>, True) } }"

text \<open>The fields of a record header are copied out and converted from network byte order.\<close>

definition ntohs_at :: "byte list \<Rightarrow> nat \<Rightarrow> 16 word option" where
  "ntohs_at buf p = do { a \<leftarrow> rd buf p; b \<leftarrow> rd buf (p + 1); Some (word_of_nat (unat a * 256 + unat b)) }"

definition ntohl_at :: "byte list \<Rightarrow> nat \<Rightarrow> 32 word option" where
  "ntohl_at buf p =
     do { a \<leftarrow> rd buf p; b \<leftarrow> rd buf (p + 1); c \<leftarrow> rd buf (p + 2); d \<leftarrow> rd buf (p + 3);
          Some (word_of_nat (((unat a * 256 + unat b) * 256 + unat c) * 256 + unat d)) }"

definition ns_rr_cursor_next ::
  "ns_rr_cursor \<Rightarrow> ns_rr_wire \<Rightarrow> (ns_rr_cursor \<times> ns_rr_wire \<times> bool) option" where
  "ns_rr_cursor_next c rr =
     do { (name, r) \<leftarrow> ns_name_unpack (packet c) (int (current c)) (rname rr);
          case r of
            Inl _ \<Rightarrow> Some (c, zero_rr, False)
          | Inr consumed \<Rightarrow>
              let p = current c + nat consumed in
              if length (packet c) - p < 10 then Some (c\<lparr>current := p\<rparr>, zero_rr, False)
              else do { t \<leftarrow> ntohs_at (packet c) p;
                        k \<leftarrow> ntohs_at (packet c) (p + 2);
                        l \<leftarrow> ntohl_at (packet c) (p + 4);
                        n \<leftarrow> ntohs_at (packet c) (p + 8);
                        if length (packet c) - (p + 10) < unat n
                        then Some (c\<lparr>current := p + 10\<rparr>, zero_rr, False)
                        else Some (c\<lparr>current := p + 10 + unat n\<rparr>,
                          \<lparr>rname = name, rtype = t, rclass = k, ttl = l, rdata = Some (p + 10), rdlength = n\<rparr>, True) } }"

definition ns_rr_cursor_ancount :: "ns_rr_cursor \<Rightarrow> nat option" where
  "ns_rr_cursor_ancount c = do { a \<leftarrow> rd (packet c) 6; b \<leftarrow> rd (packet c) 7; Some (unat a * 256 + unat b) }"

definition ns_rr_cursor_qtype :: "ns_rr_cursor \<Rightarrow> nat option" where
  "ns_rr_cursor_qtype c =
     do { f \<leftarrow> first_rr c; a \<leftarrow> rd (packet c) (f - 4); b \<leftarrow> rd (packet c) (f - 3); Some (unat a * 256 + unat b) }"

definition ns_rr_cursor_qclass :: "ns_rr_cursor \<Rightarrow> nat option" where
  "ns_rr_cursor_qclass c =
     do { f \<leftarrow> first_rr c; a \<leftarrow> rd (packet c) (f - 2); b \<leftarrow> rd (packet c) (f - 1); Some (unat a * 256 + unat b) }"

definition ns_rr_cursor_nscount :: "ns_rr_cursor \<Rightarrow> nat option" where
  "ns_rr_cursor_nscount c = do { a \<leftarrow> rd (packet c) 8; b \<leftarrow> rd (packet c) 9; Some (unat a * 256 + unat b) }"

definition ns_rr_cursor_adcount :: "ns_rr_cursor \<Rightarrow> nat option" where
  "ns_rr_cursor_adcount c = do { a \<leftarrow> rd (packet c) 10; b \<leftarrow> rd (packet c) 11; Some (unat a * 256 + unat b) }"

definition ns_rr_cursor_rcode :: "ns_rr_cursor \<Rightarrow> nat option" where
  "ns_rr_cursor_rcode c = do { a \<leftarrow> rd (packet c) 3; Some (unat (a AND 0x0F)) }"

subsection \<open>The wire form of a packet\<close>

definition htons :: "nat \<Rightarrow> byte list" where
  "htons v = [word_of_nat (v div 256), word_of_nat (v mod 256)]"

definition htonl :: "nat \<Rightarrow> byte list" where
  "htonl v = htons (v div 65536) @ htons (v mod 65536)"

lemma length_hton [simp]: "length (htons v) = 2" "length (htonl v) = 4"
  by (simp_all add: htons_def htonl_def)

lemma unat_byte_of_mod [simp]: "unat (word_of_nat (v mod 256) :: byte) = v mod 256"
  by (simp add: word_of_nat_byte_eq)

lemma ntohs_at_htons: "v < 65536 \<Longrightarrow> ntohs_at (pre @ htons v @ post) (length pre) = Some (word_of_nat v)"
  by (simp add: ntohs_at_def htons_def rd_def nth_append word_of_nat_byte_eq del: of_nat_add of_nat_mult)

lemma ntohl_at_htonl:
  assumes "v < 4294967296"
  shows "ntohl_at (pre @ htonl v @ post) (length pre) = Some (word_of_nat v)"
proof -
  define h g where "h = v div 65536" and "g = v mod 65536"
  have lt: "h div 256 < 256" "g div 256 < 256"
    using assms by (auto simp: h_def g_def intro!: less_mult_imp_div_less)
  have "g + (16777216 * (h div 256) + 65536 * (h mod 256)) = h * 65536 + g"
    using div_mult_mod_eq [of h 256] by linarith
  also have "\<dots> = v" by (simp add: h_def g_def)
  finally have "g + (16777216 * (h div 256) + 65536 * (h mod 256)) = v" .
  with lt show ?thesis
    unfolding ntohl_at_def htonl_def htons_def h_def [symmetric] g_def [symmetric]
    by (simp add: rd_def nth_append word_of_nat_byte_eq del: of_nat_add of_nat_mult)
qed

text \<open>What follows the owner name of a record.\<close>

definition encode_rr :: "nat \<Rightarrow> nat \<Rightarrow> nat \<Rightarrow> byte list \<Rightarrow> byte list" where
  "encode_rr t k l d = htons t @ htons k @ htonl l @ htons (length d) @ d"

lemma ntoh_at_encode_rr:
  assumes "t < 65536" "k < 65536" "l < 4294967296" "length d < 65536"
  shows "ntohs_at (pre @ encode_rr t k l d @ post) (length pre) = Some (word_of_nat t)"
    and "ntohs_at (pre @ encode_rr t k l d @ post) (length pre + 2) = Some (word_of_nat k)"
    and "ntohl_at (pre @ encode_rr t k l d @ post) (length pre + 4) = Some (word_of_nat l)"
    and "ntohs_at (pre @ encode_rr t k l d @ post) (length pre + 8) = Some (word_of_nat (length d))"
  using assms
    ntohs_at_htons [of t pre] ntohs_at_htons [of k "pre @ htons t"] ntohl_at_htonl [of l "pre @ htons t @ htons k"]
    ntohs_at_htons [of "length d" "pre @ htons t @ htons k @ htonl l"]
  by (simp_all add: encode_rr_def)

lemma ntoh_at_in:
  "p + 2 \<le> length buf \<Longrightarrow> \<exists>v. ntohs_at buf p = Some v"
  "p + 4 \<le> length buf \<Longrightarrow> \<exists>v. ntohl_at buf p = Some v"
  by (simp_all add: ntohs_at_def ntohl_at_def rd_in)

subsection \<open>Properties\<close>

text \<open>
  C35: \<open>ns_rr_cursor_init\<close> never reads outside the packet, and succeeds exactly on packets with a
  full header that announces one question, followed by an uncompressed name of at most 255 bytes
  and the four bytes of type and class; the cursor then stands behind the question.
\<close>

theorem ns_rr_cursor_init_correct:
  shows "\<exists>c' ok. ns_rr_cursor_init c buf = Some (c', ok) \<and> packet c' = buf \<and> current c' \<le> length buf \<and>
    (if ok then \<exists>ls. 12 \<le> length buf \<and> buf ! 4 = 0 \<and> buf ! 5 = 1 \<and> name_at buf 12 ls 0 \<and>
       length (encode_name ls) \<le> 255 \<and> current c' = 16 + length (encode_name ls) \<and> first_rr c' = Some (current c')
     else current c' = length buf \<and> \<not> (\<exists>ls. 12 \<le> length buf \<and> buf ! 4 = 0 \<and> buf ! 5 = 1 \<and>
       name_at buf 12 ls 0 \<and> length (encode_name ls) \<le> 255 \<and> 16 + length (encode_name ls) \<le> length buf))"
proof (cases "12 \<le> length buf \<and> buf ! 4 = 0 \<and> buf ! 5 = 1")
  case False
  then show ?thesis by (auto simp: ns_rr_cursor_init_def rd_def Let_def)
next
  case True
  then have le: "12 \<le> length buf" and bad: "(if length buf < 12 then Some True
      else do { b4 \<leftarrow> rd buf 4; if b4 \<noteq> 0 then Some True else do { b5 \<leftarrow> rd buf 5; Some (b5 \<noteq> 1) } }) = Some False"
    by (auto simp: rd_def)
  from length_uncompressed_loop_correct [of 12 12 buf] le obtain r where
    r: "ns_name_length_uncompressed buf 12 = Some r"
      "\<And>n. r = Inr n \<longleftrightarrow> (\<exists>ls. name_at buf 12 ls 0 \<and> n = length (encode_name ls) \<and> n \<le> 255)"
    by (auto simp: ns_name_length_uncompressed_def uncompressed_result_def NS_MAXCDNAME_def)
  show ?thesis
  proof (cases r)
    case (Inl e)
    with r(2) have "\<not> (\<exists>ls. name_at buf 12 ls 0 \<and> length (encode_name ls) \<le> 255)" by auto
    with Inl r(1) bad show ?thesis by (auto simp: ns_rr_cursor_init_def Let_def)
  next
    case (Inr n)
    with r(2) obtain ls where ls: "name_at buf 12 ls 0" "n = length (encode_name ls)" "n \<le> 255" by blast
    have uniq: "ls' = ls" if "name_at buf 12 ls' 0" for ls' using name_at_unique [OF that ls(1)] by simp
    have eq: "ns_rr_cursor_init c buf = Some (if length buf < 16 + n
        then (c\<lparr>packet := buf, current := length buf, first_rr := None\<rparr>, False)
        else (c\<lparr>packet := buf, current := 16 + n, first_rr := Some (16 + n)\<rparr>, True))"
      using Inr r(1) bad by (auto simp: ns_rr_cursor_init_def Let_def)
    show ?thesis
    proof (cases "length buf < 16 + n")
      case True
      from eq have eq: "ns_rr_cursor_init c buf =
          Some (c\<lparr>packet := buf, current := length buf, first_rr := None\<rparr>, False)"
        by (simp only: True if_True)
      have "\<not> (name_at buf 12 ls' 0 \<and> 16 + length (encode_name ls') \<le> length buf)" for ls'
        using uniq [of ls'] True ls(2) by auto
      with eq show ?thesis
        by (intro exI [of _ "c\<lparr>packet := buf, current := length buf, first_rr := None\<rparr>"] exI [of _ False]) simp
    next
      case False
      from eq have "ns_rr_cursor_init c buf =
          Some (c\<lparr>packet := buf, current := 16 + n, first_rr := Some (16 + n)\<rparr>, True)"
        by (simp only: False if_False)
      with False ls \<open>12 \<le> length buf \<and> buf ! 4 = 0 \<and> buf ! 5 = 1\<close> show ?thesis
        by (intro exI [of _ "c\<lparr>packet := buf, current := 16 + n, first_rr := Some (16 + n)\<rparr>"] exI [of _ True]) auto
    qed
  qed
qed

text \<open>
  C24: \<open>ns_rr_cursor_next\<close> stays inside the packet on every input and keeps the cursor inside; a
  failure clears the record; a success advances the cursor by at least eleven bytes, and the
  record then holds the owner name and a data area that ends at the cursor.
\<close>

theorem ns_rr_cursor_next_safe:
  assumes "length (rname rr) = 255" and "current c \<le> length (packet c)"
  shows "\<exists>c' rr' ok. ns_rr_cursor_next c rr = Some (c', rr', ok) \<and>
    packet c' = packet c \<and> first_rr c' = first_rr c \<and> length (rname rr') = 255 \<and>
    current c \<le> current c' \<and> current c' \<le> length (packet c) \<and>
    (if ok then current c + 11 \<le> current c' \<and>
       (\<exists>ls h d. name_at (packet c) (current c) ls h \<and> take (length (encode_name ls)) (rname rr') = encode_name ls \<and>
          rdata rr' = Some d \<and> d + unat (rdlength rr') = current c')
     else rr' = zero_rr)"
proof -
  let ?buf = "packet c" and ?p = "current c"
  have ne: "rname rr \<noteq> []" using assms(1) by auto
  obtain name r where u: "ns_name_unpack ?buf (int ?p) (rname rr) = Some (name, r)" "length name = 255"
    using ns_name_unpack_total [OF ne, of ?buf "int ?p"] assms(1) by auto
  show ?thesis
  proof (cases r)
    case (Inl e)
    with u assms show ?thesis by (auto simp: ns_rr_cursor_next_def zero_rr_def)
  next
    case (Inr n)
    from ns_name_unpack_Inr [OF u(1) [unfolded Inr]] obtain ls h where
      nm: "name_at ?buf ?p ls h" "take (length (encode_name ls)) name = encode_name ls" "0 < n"
        "ns_name_skip ?buf ?p = Inr (?p + nat n)" by auto
    let ?q = "?p + nat n"
    have q: "?p < ?q" "?q \<le> length ?buf" using skip_loop_range nm(3,4) by (auto simp: ns_name_skip_def)
    show ?thesis
    proof (cases "length ?buf - ?q < 10")
      case True
      with u Inr q show ?thesis by (auto simp: ns_rr_cursor_next_def zero_rr_def Let_def)
    next
      case False
      then have "?q + 2 \<le> length ?buf" "?q + 2 + 2 \<le> length ?buf" "?q + 4 + 4 \<le> length ?buf" "?q + 8 + 2 \<le> length ?buf"
        using q by auto
      then obtain t k l m where m: "ntohs_at ?buf ?q = Some t" "ntohs_at ?buf (?q + 2) = Some k"
        "ntohl_at ?buf (?q + 4) = Some l" "ntohs_at ?buf (?q + 8) = Some m"
        by (meson ntoh_at_in)
      let ?rr = "\<lparr>rname = name, rtype = t, rclass = k, ttl = l, rdata = Some (?q + 10), rdlength = m\<rparr>"
      have eq: "ns_rr_cursor_next c rr = Some (if length ?buf - (?q + 10) < unat m then (c\<lparr>current := ?q + 10\<rparr>, zero_rr, False)
          else (c\<lparr>current := ?q + 10 + unat m\<rparr>, ?rr, True))"
        using False m u(1) Inr by (simp add: ns_rr_cursor_next_def Let_def)
      show ?thesis
      proof (cases "length ?buf - (?q + 10) < unat m")
        case True
        have "length (rname zero_rr) = 255" by (simp add: zero_rr_def)
        with eq True False q show ?thesis
          by (intro exI [of _ "c\<lparr>current := ?q + 10\<rparr>"] exI [of _ zero_rr] exI [of _ False]) simp
      next
        case small: False
        have "\<exists>ls h d. name_at ?buf ?p ls h \<and> take (length (encode_name ls)) (rname ?rr) = encode_name ls \<and>
            rdata ?rr = Some d \<and> d + unat (rdlength ?rr) = ?q + 10 + unat m"
          using nm(1,2) by auto
        moreover have "?q + 10 + x \<le> length ?buf" if "\<not> length ?buf - (?q + 10) < x" for x
          using that False by linarith
        from this [OF small] have "?q + 10 + unat m \<le> length ?buf" .
        moreover have "?p + 11 \<le> ?q + 10 + unat m" using q(1) by linarith
        ultimately show ?thesis using eq small u(2)
          by (intro exI [of _ "c\<lparr>current := ?q + 10 + unat m\<rparr>"] exI [of _ ?rr] exI [of _ True]) simp
      qed
    qed
  qed
qed

theorem ns_rr_cursor_next_safe_witness:
  "\<exists>c' rr' ok. ns_rr_cursor_next \<lparr>packet = [0xC0, 0], first_rr = None, current = 0\<rparr> zero_rr = Some (c', rr', ok) \<and>
     current c' \<le> 2"
  using ns_rr_cursor_next_safe [of zero_rr "\<lparr>packet = [0xC0, 0], first_rr = None, current = 0\<rparr>"]
  by (auto simp: zero_rr_def)

text \<open>
  C25: round trip: a record whose owner name \<open>ns_name_unpack\<close> can follow, with type, class, time to
  live and data encoded behind it, is read back field by field, and the cursor moves to its end.
\<close>

theorem ns_rr_cursor_next_roundtrip:
  assumes "length (rname rr) = 255" and "name_at (packet c) (current c) ls h"
    and "length (encode_name ls) \<le> 255" and "length (encode_name ls) + 2 * h \<le> length (packet c)"
    and "ns_name_skip (packet c) (current c) = Inr q" and "drop q (packet c) = encode_rr t k l d @ post"
    and "t < 65536" "k < 65536" "l < 4294967296" "length d < 65536"
  shows "\<exists>name. ns_rr_cursor_next c rr = Some (c\<lparr>current := q + 10 + length d\<rparr>,
      \<lparr>rname = name, rtype = word_of_nat t, rclass = word_of_nat k, ttl = word_of_nat l,
       rdata = Some (q + 10), rdlength = word_of_nat (length d)\<rparr>, True) \<and>
    take (length (encode_name ls)) name = encode_name ls \<and> take (length d) (drop (q + 10) (packet c)) = d"
proof -
  let ?buf = "packet c" and ?p = "current c"
  obtain name n where u: "ns_name_unpack ?buf (int ?p) (rname rr) = Some (name, Inr n)"
    "take (length (encode_name ls)) name = encode_name ls"
    using ns_name_unpack_name_at [OF assms(2) _ assms(4), of "rname rr"] assms(1,3) by auto
  have q: "0 < n" "q = ?p + nat n" using ns_name_unpack_Inr [OF u(1)] assms(5) by auto
  have le: "q \<le> length ?buf" using skip_loop_range [of ?buf ?p q] assms(5) by (simp add: ns_name_skip_def)
  have buf: "?buf = take q ?buf @ encode_rr t k l d @ post" using assms(6) append_take_drop_id [of q ?buf] by simp
  have len: "length ?buf = q + (10 + length d + length post)"
    using arg_cong [OF assms(6), of length] le by (simp add: encode_rr_def)
  have lq: "length (take q ?buf) = q" using le by simp
  note hdr = ntoh_at_encode_rr [OF assms(7-10), of "take q ?buf" post, folded buf, unfolded lq]
  have dlen: "unat (word_of_nat (length d) :: 16 word) = length d" using assms(10) by (simp add: unat_of_nat take_bit_eq_mod)
  have data: "take (length d) (drop (q + 10) ?buf) = d"
    using arg_cong [OF assms(6), of "drop 10"] by (simp add: encode_rr_def add.commute)
  have "ns_rr_cursor_next c rr = Some (c\<lparr>current := q + 10 + length d\<rparr>,
      \<lparr>rname = name, rtype = word_of_nat t, rclass = word_of_nat k, ttl = word_of_nat l,
       rdata = Some (q + 10), rdlength = word_of_nat (length d)\<rparr>, True)"
    using u(1) hdr len dlen unfolding ns_rr_cursor_next_def q(2) [symmetric]
    by (simp add: Let_def q(2) [symmetric])
  with u(2) data show ?thesis by blast
qed

definition example_packet :: "byte list" where
  "example_packet = [0] @ [1, 97, 0] @ encode_rr 1 1 300 [10, 0, 0, 1]"

theorem ns_rr_cursor_next_roundtrip_witness:
  "\<exists>name. ns_rr_cursor_next \<lparr>packet = example_packet, first_rr = None, current = 1\<rparr> zero_rr =
    Some (\<lparr>packet = example_packet, first_rr = None, current = 18\<rparr>,
      \<lparr>rname = name, rtype = 1, rclass = 1, ttl = 300, rdata = Some 14, rdlength = 4\<rparr>, True)"
proof -
  have nm: "name_at example_packet 1 [[97]] 0"
    using name_at_encode_name [of "[[97]]" "[0]" "encode_rr 1 1 300 [10, 0, 0, 1]"]
    by (simp add: example_packet_def encode_label_def valid_label_def)
  have len: "length example_packet = 18" "example_packet ! 1 = 1" "example_packet ! 3 = 0"
    by (simp_all add: example_packet_def encode_rr_def)
  then have sk: "ns_name_skip example_packet 1 = Inr 4"
    using skip_loop_label [of 1 example_packet] skip_loop_root [of 3 example_packet] by (simp add: ns_name_skip_def numeral_3_eq_3)
  have z: "length (rname zero_rr) = 255" by (simp add: zero_rr_def)
  have "drop 4 example_packet = encode_rr 1 1 300 [10, 0, 0, 1] @ []"
    by (simp add: example_packet_def)
  with len(1) nm sk z show ?thesis
    using ns_rr_cursor_next_roundtrip [of zero_rr "\<lparr>packet = example_packet, first_rr = None, current = 1\<rparr>" "[[97]]" 0 4
        1 1 300 "[10, 0, 0, 1]" "[]"]
    by auto
qed

end
