(* ===== verification/Dns_Parse.thy ===== *)
theory Dns_Parse
  imports Dns_Ntop Dns_Rr
begin

text \<open>
  Random access to the records of a DNS message: \<^verbatim>\<open>src/original/resolv/ns_parse.c\<close>,
  \<^verbatim>\<open>dn_skipname.c\<close> and \<^verbatim>\<open>dn_expand.c\<close>.

  A handle caches the position of one record of one section, and \<open>ns_parserr\<close> skips forward from
  there or starts the section again.  The reference is a table of positions for every section:
  \<open>ns_initparse\<close> accepts exactly the messages that have one, and \<open>ns_parserr\<close>, after any calls, is
  an access to the table.

  The handle holds the message (\<open>_msg\<close> up to \<open>_eom\<close>), and pointers as offsets into it.
\<close>

subsection \<open>The routines\<close>

definition dn_skipname :: "byte list \<Rightarrow> nat \<Rightarrow> nat cret" where
  "dn_skipname msg ptr = (case ns_name_skip msg ptr of Inl e \<Rightarrow> Inl e | Inr q \<Rightarrow> Inr (q - ptr))"

text \<open>\<open>dstsiz\<close> is the length of \<open>dst\<close>; \<open>tmp0\<close> is the local array of \<open>ns_name_uncompress\<close>.\<close>

definition dn_expand :: "byte list \<Rightarrow> byte list \<Rightarrow> int \<Rightarrow> byte list \<Rightarrow> (byte list \<times> int cret) option" where
  "dn_expand tmp0 msg src dst =
     do { (dst, n) \<leftarrow> ns_name_uncompress tmp0 msg src dst;
          case n of
            Inl e \<Rightarrow> Some (dst, Inl e)
          | Inr n \<Rightarrow>
              if 0 < n
              then do { c \<leftarrow> rd dst 0;
                        dst \<leftarrow> (if c = 0x2E then wr dst 0 0 else Some dst);
                        Some (dst, Inr n) }
              else Some (dst, Inr n) }"

text \<open>A pointer into the message, a null pointer, or what \<open>memset\<close> left behind.\<close>

datatype msg_ptr = NULL | Wild | At nat

fun addr :: "msg_ptr \<Rightarrow> nat option" where
  "addr (At p) = Some p"
| "addr _ = None"

record ns_msg =
  m_msg :: "byte list"
  m_id :: "16 word"
  m_flags :: "16 word"
  m_counts :: "16 word list"
  m_sections :: "msg_ptr list"
  m_sect :: int
  m_rrnum :: int
  m_ptr :: msg_ptr

record ns_rr =
  rr_name :: "byte list"
  rr_type :: "16 word"
  rr_class :: "16 word"
  rr_ttl :: "32 word"
  rr_rdlength :: "16 word"
  rr_rdata :: msg_ptr

definition NS_MAXDNAME :: nat where
  "NS_MAXDNAME = 1025"

definition ns_s_qd :: int where
  "ns_s_qd = 0"

definition ns_s_max :: int where
  "ns_s_max = 4"

definition ns_flagdata :: "(16 word \<times> nat) list" where
  "ns_flagdata =
    [(0x8000, 15),
     (0x7800, 11),
     (0x0400, 10),
     (0x0200, 9),
     (0x0100, 8),
     (0x0080, 7),
     (0x0040, 6),
     (0x0020, 5),
     (0x0010, 4),
     (0x000F, 0),
     (0, 0), (0, 0), (0, 0), (0, 0), (0, 0), (0, 0)]"

definition ns_msg_getflag :: "ns_msg \<Rightarrow> nat \<Rightarrow> int option" where
  "ns_msg_getflag handle flag =
     do { (mask, shift) \<leftarrow> rd ns_flagdata flag; Some (uint (drop_bit shift (m_flags handle AND mask))) }"

fun skiprr_loop :: "byte list \<Rightarrow> int \<Rightarrow> nat \<Rightarrow> nat \<Rightarrow> nat cret option" where
  "skiprr_loop msg section ptr 0 = Some (Inr ptr)"
| "skiprr_loop msg section ptr (Suc count) =
     (case dn_skipname msg ptr of
        Inl _ \<Rightarrow> Some (Inl EMSGSIZE)
      | Inr b \<Rightarrow>
          let ptr = ptr + b + 2 + 2 in
          if section \<noteq> ns_s_qd
          then if length msg < ptr + 4 + 2 then Some (Inl EMSGSIZE)
               else do { let ptr = ptr + 4;
                         rdlength \<leftarrow> ntohs_at msg ptr;
                         skiprr_loop msg section (ptr + 2 + unat rdlength) count }
          else skiprr_loop msg section ptr count)"

definition ns_skiprr :: "byte list \<Rightarrow> nat \<Rightarrow> int \<Rightarrow> int \<Rightarrow> nat cret option" where
  "ns_skiprr msg ptr section count =
     do { r \<leftarrow> skiprr_loop msg section ptr (nat count);
          case r of
            Inl e \<Rightarrow> Some (Inl e)
          | Inr q \<Rightarrow> if length msg < q then Some (Inl EMSGSIZE) else Some (Inr (q - ptr)) }"

definition setsection :: "ns_msg \<Rightarrow> int \<Rightarrow> ns_msg option" where
  "setsection h sect =
     (let h = h\<lparr>m_sect := sect\<rparr> in
      if sect = ns_s_max then Some (h\<lparr>m_rrnum := - 1, m_ptr := NULL\<rparr>)
      else do { p \<leftarrow> rd (m_sections h) (nat sect); Some (h\<lparr>m_rrnum := 0, m_ptr := p\<rparr>) })"

text \<open>\<open>memset (handle, 0x5e, sizeof *handle)\<close>, and the message stored.\<close>

definition fresh_handle :: "byte list \<Rightarrow> ns_msg" where
  "fresh_handle msg =
     \<lparr>m_msg = msg, m_id = 0x5E5E, m_flags = 0x5E5E, m_counts = replicate 4 0x5E5E, m_sections = replicate 4 Wild,
      m_sect = 0x5E5E5E5E, m_rrnum = 0x5E5E5E5E, m_ptr = Wild\<rparr>"

text \<open>The two loops over the sections; \<open>k\<close> sections are left, \<open>p\<close> is the local pointer \<open>msg\<close>.\<close>

fun get_counts :: "nat \<Rightarrow> nat \<Rightarrow> nat \<Rightarrow> ns_msg \<Rightarrow> (ns_msg \<times> nat cret) option" where
  "get_counts 0 i p h = Some (h, Inr p)"
| "get_counts (Suc k) i p h =
     (if length (m_msg h) < p + 2 then Some (h, Inl EMSGSIZE)
      else do { c \<leftarrow> ntohs_at (m_msg h) p;
                cs \<leftarrow> wr (m_counts h) i c;
                get_counts k (i + 1) (p + 2) (h\<lparr>m_counts := cs\<rparr>) })"

fun get_sections :: "nat \<Rightarrow> nat \<Rightarrow> nat \<Rightarrow> ns_msg \<Rightarrow> (ns_msg \<times> nat cret) option" where
  "get_sections 0 i p h = Some (h, Inr p)"
| "get_sections (Suc k) i p h =
     do { c \<leftarrow> rd (m_counts h) i;
          if c = 0 then do { ss \<leftarrow> wr (m_sections h) i NULL; get_sections k (i + 1) p (h\<lparr>m_sections := ss\<rparr>) }
          else do { b \<leftarrow> ns_skiprr (m_msg h) p (int i) (uint c);
                    case b of
                      Inl e \<Rightarrow> Some (h, Inl e)
                    | Inr b \<Rightarrow> do { ss \<leftarrow> wr (m_sections h) i (At p);
                                    get_sections k (i + 1) (p + b) (h\<lparr>m_sections := ss\<rparr>) } } }"

definition ns_initparse :: "byte list \<Rightarrow> (ns_msg \<times> int cret) option" where
  "ns_initparse msg =
     (let h = fresh_handle msg in
      if length msg < 2 then Some (h, Inl EMSGSIZE)
      else do { v \<leftarrow> ntohs_at msg 0;
                let h = h\<lparr>m_id := v\<rparr>;
                if length msg < 2 + 2 then Some (h, Inl EMSGSIZE)
                else do { v \<leftarrow> ntohs_at msg 2;
                          (h, p) \<leftarrow> get_counts 4 0 4 (h\<lparr>m_flags := v\<rparr>);
                          case p of
                            Inl e \<Rightarrow> Some (h, Inl e)
                          | Inr p \<Rightarrow>
                              do { (h, p) \<leftarrow> get_sections 4 0 p h;
                                   case p of
                                     Inl e \<Rightarrow> Some (h, Inl e)
                                   | Inr p \<Rightarrow> if p \<noteq> length msg then Some (h, Inl EMSGSIZE)
                                              else do { h \<leftarrow> setsection h ns_s_max; Some (h, Inr 0) } } } })"

text \<open>The end of \<open>ns_parserr\<close>, from \<open>++handle->_rrnum\<close> on.\<close>

definition parserr_done :: "ns_msg \<Rightarrow> int \<Rightarrow> ns_rr \<Rightarrow> (ns_msg \<times> ns_rr \<times> int cret) option" where
  "parserr_done h section rr =
     do { let h = h\<lparr>m_rrnum := m_rrnum h + 1\<rparr>;
          c \<leftarrow> rd (m_counts h) (nat section);
          if uint c < m_rrnum h
          then do { h \<leftarrow> setsection h (section + 1); Some (h, rr, Inr 0) }
          else Some (h, rr, Inr 0) }"

text \<open>The part under the comment \<open>Do the parse\<close>.\<close>

definition parserr_read :: "byte list \<Rightarrow> ns_msg \<Rightarrow> int \<Rightarrow> ns_rr \<Rightarrow> (ns_msg \<times> ns_rr \<times> int cret) option" where
  "parserr_read tmp0 h section rr =
     do { p \<leftarrow> addr (m_ptr h);
          (name, b) \<leftarrow> dn_expand tmp0 (m_msg h) (int p) (rr_name rr);
          let rr = rr\<lparr>rr_name := name\<rparr>;
          case b of
            Inl e \<Rightarrow> Some (h, rr, Inl e)
          | Inr b \<Rightarrow>
              let p = p + nat b; h = h\<lparr>m_ptr := At p\<rparr> in
              if length (m_msg h) < p + 2 + 2 then Some (h, rr, Inl EMSGSIZE)
              else do { t \<leftarrow> ntohs_at (m_msg h) p;
                        k \<leftarrow> ntohs_at (m_msg h) (p + 2);
                        let p = p + 4;
                        let h = h\<lparr>m_ptr := At p\<rparr>;
                        let rr = rr\<lparr>rr_type := t, rr_class := k\<rparr>;
                        if section = ns_s_qd
                        then parserr_done h section (rr\<lparr>rr_ttl := 0, rr_rdlength := 0, rr_rdata := NULL\<rparr>)
                        else if length (m_msg h) < p + 4 + 2 then Some (h, rr, Inl EMSGSIZE)
                        else do { l \<leftarrow> ntohl_at (m_msg h) p;
                                  n \<leftarrow> ntohs_at (m_msg h) (p + 4);
                                  let p = p + 6;
                                  let h = h\<lparr>m_ptr := At p\<rparr>;
                                  let rr = rr\<lparr>rr_ttl := l, rr_rdlength := n\<rparr>;
                                  if length (m_msg h) < p + unat n then Some (h, rr, Inl EMSGSIZE)
                                  else parserr_done (h\<lparr>m_ptr := At (p + unat n)\<rparr>) section (rr\<lparr>rr_rdata := At p\<rparr>) } } }"

definition ns_parserr :: "byte list \<Rightarrow> ns_msg \<Rightarrow> int \<Rightarrow> int \<Rightarrow> ns_rr \<Rightarrow> (ns_msg \<times> ns_rr \<times> int cret) option" where
  "ns_parserr tmp0 h section rrnum rr =
     (if section < 0 \<or> ns_s_max \<le> section then Some (h, rr, Inl ENODEV)
      else do { h \<leftarrow> (if section \<noteq> m_sect h then setsection h section else Some h);
                let rrnum = (if rrnum = - 1 then m_rrnum h else rrnum);
                c \<leftarrow> rd (m_counts h) (nat section);
                if rrnum < 0 \<or> uint c \<le> rrnum then Some (h, rr, Inl ENODEV)
                else do { h \<leftarrow> (if rrnum < m_rrnum h then setsection h section else Some h);
                          s \<leftarrow> (if m_rrnum h < rrnum
                                then do { p \<leftarrow> addr (m_ptr h);
                                          b \<leftarrow> ns_skiprr (m_msg h) p section (rrnum - m_rrnum h);
                                          Some (case b of Inl e \<Rightarrow> Inl e
                                                | Inr b \<Rightarrow> Inr (h\<lparr>m_ptr := At (p + b), m_rrnum := rrnum\<rparr>)) }
                                else Some (Inr h));
                          case s of
                            Inl e \<Rightarrow> Some (h, rr, Inl e)
                          | Inr h \<Rightarrow> parserr_read tmp0 h section rr } })"

subsection \<open>The table of records of a message\<close>

text \<open>The end of the record at \<open>p\<close>, if it lies in the message.\<close>

definition rr_end :: "byte list \<Rightarrow> bool \<Rightarrow> nat \<Rightarrow> nat option" where
  "rr_end msg qd p =
     (case ns_name_skip msg p of
        Inl _ \<Rightarrow> None
      | Inr q \<Rightarrow> let e = (if qd then q + 4 else q + 10 + (256 * unat (msg ! (q + 8)) + unat (msg ! (q + 9)))) in
                 if e \<le> length msg then Some e else None)"

text \<open>The positions of \<open>n\<close> successive records from \<open>p\<close> on, and where they end.\<close>

fun rr_table :: "byte list \<Rightarrow> bool \<Rightarrow> nat \<Rightarrow> nat \<Rightarrow> (nat list \<times> nat) option" where
  "rr_table msg qd p 0 = Some ([], p)"
| "rr_table msg qd p (Suc n) =
     do { f \<leftarrow> rr_end msg qd p; (rs, e) \<leftarrow> rr_table msg qd f n; Some (p # rs, e) }"

fun sections_table :: "byte list \<Rightarrow> bool \<Rightarrow> nat \<Rightarrow> nat list \<Rightarrow> (nat list list \<times> nat) option" where
  "sections_table msg qd p [] = Some ([], p)"
| "sections_table msg qd p (n # ns) =
     do { (rs, e) \<leftarrow> rr_table msg qd p n; (rss, f) \<leftarrow> sections_table msg False e ns; Some (rs # rss, f) }"

definition be16 :: "byte list \<Rightarrow> nat \<Rightarrow> 16 word" where
  "be16 msg p = word_of_nat (unat (msg ! p) * 256 + unat (msg ! (p + 1)))"

definition be32 :: "byte list \<Rightarrow> nat \<Rightarrow> 32 word" where
  "be32 msg p = word_of_nat (((unat (msg ! p) * 256 + unat (msg ! (p + 1))) * 256 + unat (msg ! (p + 2))) * 256
     + unat (msg ! (p + 3)))"

text \<open>The table of a whole message: four sections that fill it behind the header.\<close>

definition message_table :: "byte list \<Rightarrow> nat list list option" where
  "message_table msg =
     (if length msg < 12 then None
      else case sections_table msg True 12 (map (\<lambda>i. unat (be16 msg (4 + 2 * i))) [0..<4]) of
             None \<Rightarrow> None
           | Some (t, e) \<Rightarrow> if e = length msg then Some t else None)"

lemma ntoh_at_be:
  "p + 2 \<le> length msg \<Longrightarrow> ntohs_at msg p = Some (be16 msg p)"
  "p + 4 \<le> length msg \<Longrightarrow> ntohl_at msg p = Some (be32 msg p)"
  by (simp_all add: ntohs_at_def ntohl_at_def rd_in be16_def be32_def)

lemma unat_be16: "unat (be16 msg p) = 256 * unat (msg ! p) + unat (msg ! (p + 1))"
proof -
  have "unat (msg ! p) * 256 + unat (msg ! (p + 1)) < 65536"
    using unat_byte_less [of "msg ! p"] unat_byte_less [of "msg ! (p + 1)"] by linarith
  then show ?thesis
    unfolding be16_def by (simp add: unat_of_nat take_bit_eq_mod del: of_nat_add of_nat_mult)
qed

lemma rr_end_eq:
  "rr_end msg qd p =
     (case ns_name_skip msg p of
        Inl _ \<Rightarrow> None
      | Inr q \<Rightarrow> let e = (if qd then q + 4 else q + 10 + unat (be16 msg (q + 8))) in
                 if e \<le> length msg then Some e else None)"
  by (auto simp: rr_end_def unat_be16 add_ac split: sum.split)

lemma ns_name_skip_range: "ns_name_skip msg p = Inr q \<Longrightarrow> p < q \<and> q \<le> length msg"
  unfolding ns_name_skip_def by (rule skip_loop_range)

lemma ns_name_skip_outside: "length msg \<le> p \<Longrightarrow> \<exists>e. ns_name_skip msg p = Inl e"
  using ns_name_skip_range [of msg p] by (cases "ns_name_skip msg p") force+

lemma rr_end_range: "rr_end msg qd p = Some e \<Longrightarrow> p < e \<and> e \<le> length msg"
  by (auto simp: rr_end_eq Let_def split: sum.splits if_splits dest!: ns_name_skip_range)

lemma rr_table_length: "rr_table msg qd p n = Some (rs, e) \<Longrightarrow> length rs = n"
  by (induction n arbitrary: p rs) (auto split: bind_splits)

lemma rr_table_range: "rr_table msg qd p n = Some (rs, e) \<Longrightarrow> p \<le> length msg \<Longrightarrow> e \<le> length msg"
  by (induction n arbitrary: p rs) (auto split: bind_splits dest: rr_end_range)

lemma rr_table_grows: "rr_table msg qd p n = Some (rs, e) \<Longrightarrow> p \<le> e"
  by (induction n arbitrary: p rs) (fastforce split: bind_splits dest: rr_end_range)+

lemma rr_table_prefix:
  "rr_table msg qd p n = Some (rs, e) \<Longrightarrow> m \<le> n \<Longrightarrow> rr_table msg qd p m = Some (take m rs, (rs @ [e]) ! m)"
proof (induction n arbitrary: p rs m)
  case (Suc n)
  then obtain f rs' where "rr_end msg qd p = Some f" "rr_table msg qd f n = Some (rs', e)" "rs = p # rs'"
    by (auto split: bind_splits)
  with Suc.IH [of f rs'] Suc.prems(2) show ?case by (cases m) auto
qed simp

lemma rr_table_from:
  "rr_table msg qd p n = Some (rs, e) \<Longrightarrow> k + m \<le> n \<Longrightarrow>
     rr_table msg qd ((rs @ [e]) ! k) m = Some (take m (drop k rs), (rs @ [e]) ! (k + m))"
proof (induction n arbitrary: p rs k)
  case 0
  then show ?case by simp
next
  case (Suc n)
  then obtain f rs' where f: "rr_end msg qd p = Some f" "rr_table msg qd f n = Some (rs', e)" "rs = p # rs'"
    by (auto split: bind_splits)
  show ?case
  proof (cases k)
    case 0
    with rr_table_prefix [OF Suc.prems(1), of m] Suc.prems f(3) show ?thesis by simp
  next
    case (Suc j)
    with Suc.IH [OF f(2), of j] Suc.prems f(3) show ?thesis by simp
  qed
qed

lemma rr_table_record:
  assumes "rr_table msg qd p n = Some (rs, e)" "k < n"
  shows "rr_end msg qd (rs ! k) = Some ((rs @ [e]) ! (k + 1))"
  using rr_table_from [OF assms(1), of k 1] assms(2) rr_table_length [OF assms(1)]
  by (auto simp: nth_append split: bind_splits)

subsection \<open>Skipping records\<close>

lemma skiprr_loop_outside:
  "length msg < p \<Longrightarrow> \<exists>r. skiprr_loop msg s p n = Some r \<and> (r = Inl EMSGSIZE \<or> (\<exists>q. r = Inr q \<and> length msg < q))"
  using ns_name_skip_outside [of msg p] by (cases n) (auto simp: dn_skipname_def)

lemma skiprr_loop_table:
  "\<exists>r. skiprr_loop msg s p n = Some r \<and>
     (case rr_table msg (s = ns_s_qd) p n of
        None \<Rightarrow> r = Inl EMSGSIZE \<or> (\<exists>q. r = Inr q \<and> length msg < q)
      | Some (rs, e) \<Rightarrow> r = Inr e)"
proof (induction n arbitrary: p)
  case (Suc n)
  show ?case
  proof (cases "ns_name_skip msg p")
    case (Inl e)
    then show ?thesis by (simp add: dn_skipname_def rr_end_eq)
  next
    case (Inr q)
    then have q: "p < q" "q \<le> length msg" using ns_name_skip_range by auto
    define e where "e = (if s = ns_s_qd then q + 4 else q + 10 + unat (be16 msg (q + 8)))"
    have loop: "skiprr_loop msg s p (Suc n) =
        (if s \<noteq> ns_s_qd \<and> length msg < q + 10 then Some (Inl EMSGSIZE) else skiprr_loop msg s e n)"
      using q by (simp add: dn_skipname_def Inr Let_def e_def ntoh_at_be add_ac del: add_2_eq_Suc add_2_eq_Suc')
    have table: "rr_end msg (s = ns_s_qd) p = (if e \<le> length msg then Some e else None)"
      by (simp add: rr_end_eq Inr e_def)
    show ?thesis
    proof (cases "e \<le> length msg")
      case True
      then have "\<not> (s \<noteq> ns_s_qd \<and> length msg < q + 10)" by (auto simp: e_def)
      then show ?thesis
        unfolding loop if_not_P [OF \<open>\<not> (s \<noteq> ns_s_qd \<and> length msg < q + 10)\<close>]
        using Suc.IH [of e] True by (cases "rr_table msg (s = ns_s_qd) e n") (auto simp: table)
    next
      case False
      then show ?thesis
        unfolding loop using skiprr_loop_outside [of msg e s n] by (simp add: table)
    qed
  qed
qed simp

lemma ns_skiprr_table:
  assumes "p \<le> length msg"
  shows "ns_skiprr msg p s (int n) =
    Some (case rr_table msg (s = ns_s_qd) p n of None \<Rightarrow> Inl EMSGSIZE | Some (rs, e) \<Rightarrow> Inr (e - p))"
  using skiprr_loop_table [of msg s p n] rr_table_range [OF _ assms]
  by (fastforce simp: ns_skiprr_def split: option.splits)

subsection \<open>The handle\<close>

definition section_start :: "nat list \<Rightarrow> msg_ptr" where
  "section_start rs = (case rs of [] \<Rightarrow> NULL | p # _ \<Rightarrow> At p)"

text \<open>The cached position is that of record \<open>_rrnum\<close> of section \<open>_sect\<close>.\<close>

definition cursor_ok :: "nat list list \<Rightarrow> int \<Rightarrow> int \<Rightarrow> msg_ptr \<Rightarrow> bool" where
  "cursor_ok t s k p \<longleftrightarrow>
     (if s = ns_s_max then k = - 1 \<and> p = NULL
      else 0 \<le> s \<and> s < ns_s_max \<and> 0 \<le> k \<and> k \<le> int (length (t ! nat s)) \<and>
        (k < int (length (t ! nat s)) \<longrightarrow> p = At (t ! nat s ! nat k)))"

definition handle_ok :: "byte list \<Rightarrow> nat list list \<Rightarrow> ns_msg \<Rightarrow> bool" where
  "handle_ok msg t h \<longleftrightarrow>
     m_msg h = msg \<and> m_counts h = map (\<lambda>rs. word_of_nat (length rs)) t \<and>
     m_sections h = map section_start t \<and> cursor_ok t (m_sect h) (m_rrnum h) (m_ptr h)"

lemma get_counts_fits:
  assumes "length (m_counts h) = i + k" "p + 2 * k \<le> length (m_msg h)"
  shows "get_counts k i p h =
    Some (h\<lparr>m_counts := take i (m_counts h) @ map (\<lambda>j. be16 (m_msg h) (p + 2 * j)) [0..<k]\<rparr>, Inr (p + 2 * k))"
  using assms
proof (induction k arbitrary: i p h)
  case (Suc k)
  let ?h = "h\<lparr>m_counts := (m_counts h)[i := be16 (m_msg h) p]\<rparr>"
  have shift: "map (\<lambda>j. be16 (m_msg h) (p + 2 + 2 * j)) [0..<k] = map (\<lambda>j. be16 (m_msg h) (p + 2 * j)) [1..<Suc k]"
    by (simp add: map_Suc_upt [symmetric] del: upt_Suc)
  have step: "get_counts (Suc k) i p h = get_counts k (i + 1) (p + 2) ?h"
    using Suc.prems by (simp add: ntoh_at_be wr_in)
  show ?case
    unfolding step using Suc.IH [of ?h "i + 1" "p + 2"] Suc.prems shift
    by (simp add: upt_conv_Cons del: upt_Suc)
qed simp

lemma get_counts_short:
  assumes "length (m_counts h) = i + k" "length (m_msg h) < p + 2 * k" "0 < k"
  shows "\<exists>h'. get_counts k i p h = Some (h', Inl EMSGSIZE)"
  using assms
proof (induction k arbitrary: i p h)
  case (Suc k)
  show ?case
  proof (cases "length (m_msg h) < p + 2")
    case False
    with Suc.prems have "0 < k" by (cases k) auto
    with Suc.IH [of "h\<lparr>m_counts := (m_counts h)[i := be16 (m_msg h) p]\<rparr>" "i + 1" "p + 2"] Suc.prems False
    show ?thesis by (auto simp: ntoh_at_be wr_in)
  qed simp
qed simp

text \<open>The loop over the sections builds the starts of the sections of the table.\<close>

lemma sections_table_range:
  "sections_table msg qd p ns = Some (t, e) \<Longrightarrow> p \<le> length msg \<Longrightarrow> e \<le> length msg"
  by (induction ns arbitrary: qd p t) (fastforce split: bind_splits dest: rr_table_range)+

lemma sections_table_lengths: "sections_table msg qd p ns = Some (t, e) \<Longrightarrow> map length t = ns"
  by (induction ns arbitrary: qd p t) (fastforce split: bind_splits dest: rr_table_length)+

lemma section_start_table:
  "rr_table msg qd p n = Some (rs, e) \<Longrightarrow> section_start rs = (if n = 0 then NULL else At p)"
  by (cases n) (auto simp: section_start_def split: bind_splits)

lemma get_sections_correct:
  assumes "length (m_sections h) = i + k" "length (m_counts h) = i + k" "p \<le> length (m_msg h)"
  shows "case sections_table (m_msg h) (i = 0) p (map unat (drop i (m_counts h))) of
      None \<Rightarrow> \<exists>h'. get_sections k i p h = Some (h', Inl EMSGSIZE)
    | Some (t, e) \<Rightarrow> get_sections k i p h =
        Some (h\<lparr>m_sections := take i (m_sections h) @ map section_start t\<rparr>, Inr e)"
  using assms
proof (induction k arbitrary: i p h)
  case (Suc k)
  define c where "c = m_counts h ! i"
  have drop: "drop i (m_counts h) = c # drop (Suc i) (m_counts h)"
    using Suc.prems(2) by (simp add: Cons_nth_drop_Suc c_def)
  have rd: "rd (m_counts h) i = Some c" using Suc.prems(2) by (simp add: rd_in c_def)
  have skip: "ns_skiprr (m_msg h) p (int i) (uint c) =
      Some (case rr_table (m_msg h) (i = 0) p (unat c) of None \<Rightarrow> Inl EMSGSIZE | Some (rs, e) \<Rightarrow> Inr (e - p))"
    using ns_skiprr_table [OF Suc.prems(3), of "int i" "unat c"] by (simp add: ns_s_qd_def)
  show ?case
  proof (cases "rr_table (m_msg h) (i = 0) p (unat c)")
    case None
    then have "c \<noteq> 0" by (cases "unat c") auto
    with None show ?thesis by (simp add: drop rd skip)
  next
    case (Some a)
    then obtain rs e where rs: "rr_table (m_msg h) (i = 0) p (unat c) = Some (rs, e)" by (cases a) auto
    have e: "e \<le> length (m_msg h)" "p \<le> e"
      using rr_table_range [OF rs Suc.prems(3)] rr_table_grows [OF rs] by auto
    let ?h = "h\<lparr>m_sections := (m_sections h)[i := section_start rs]\<rparr>"
    have step: "get_sections (Suc k) i p h = get_sections k (i + 1) e ?h"
      using Suc.prems(1) e rs section_start_table [OF rs] by (auto simp: rd skip wr_in unat_eq_0)
    show ?thesis
      unfolding step using Suc.IH [of ?h "i + 1" e] Suc.prems e
      by (auto simp: drop rs split: option.splits)
  qed
qed simp

lemma message_table_Some:
  assumes "message_table msg = Some t"
  shows "12 \<le> length msg" and "length t = 4"
    and "sections_table msg True 12 (map (\<lambda>i. unat (be16 msg (4 + 2 * i))) [0..<4]) = Some (t, length msg)"
    and "\<And>rs. rs \<in> set t \<Longrightarrow> length rs < 65536"
proof -
  show "12 \<le> length msg" and
    t: "sections_table msg True 12 (map (\<lambda>i. unat (be16 msg (4 + 2 * i))) [0..<4]) = Some (t, length msg)"
    using assms by (auto simp: message_table_def split: if_splits option.splits)
  note lens = sections_table_lengths [OF t]
  from arg_cong [OF lens, of length] show "length t = 4" by simp
  show "length rs < 65536" if "rs \<in> set t" for rs
  proof -
    have "length rs \<in> set (map length t)" using that by simp
    then obtain i where "length rs = unat (be16 msg (4 + 2 * i))" unfolding lens by auto
    then show ?thesis using unsigned_less [of "be16 msg (4 + 2 * i)", where ?'a = nat] by simp
  qed
qed

lemma ns_initparse_table:
  "\<exists>h r. ns_initparse msg = Some (h, r) \<and>
     (case message_table msg of
        None \<Rightarrow> r = Inl EMSGSIZE
      | Some t \<Rightarrow> r = Inr 0 \<and> handle_ok msg t h \<and> m_id h = be16 msg 0 \<and> m_flags h = be16 msg 2)"
proof (cases "length msg < 12")
  case True
  then have none: "message_table msg = None" by (simp add: message_table_def)
  consider "length msg < 4" | "4 \<le> length msg" by linarith
  then show ?thesis
  proof cases
    case 2
    with True get_counts_short [of "(fresh_handle msg)\<lparr>m_id := be16 msg 0, m_flags := be16 msg 2\<rparr>" 0 4 4]
    show ?thesis by (auto simp: none ns_initparse_def fresh_handle_def ntoh_at_be)
  qed (auto simp: none ns_initparse_def fresh_handle_def ntoh_at_be Let_def)
next
  case False
  let ?cs = "map (\<lambda>i. be16 msg (4 + 2 * i)) [0..<4]"
  let ?h = "(fresh_handle msg)\<lparr>m_id := be16 msg 0, m_flags := be16 msg 2, m_counts := ?cs\<rparr>"
  have counts: "get_counts 4 0 4 ((fresh_handle msg)\<lparr>m_id := be16 msg 0, m_flags := be16 msg 2\<rparr>) = Some (?h, Inr 12)"
    using get_counts_fits [of "(fresh_handle msg)\<lparr>m_id := be16 msg 0, m_flags := be16 msg 2\<rparr>" 0 4 4] False
    by (simp add: fresh_handle_def)
  have init: "ns_initparse msg = do { (h, p) \<leftarrow> get_sections 4 0 12 ?h;
      case p of Inl e \<Rightarrow> Some (h, Inl e)
      | Inr p \<Rightarrow> if p \<noteq> length msg then Some (h, Inl EMSGSIZE)
                 else do { h \<leftarrow> setsection h ns_s_max; Some (h, Inr 0) } }"
    using False counts by (simp add: ns_initparse_def Let_def ntoh_at_be)
  have sections: "case sections_table msg True 12 (map unat ?cs) of
      None \<Rightarrow> \<exists>h'. get_sections 4 0 12 ?h = Some (h', Inl EMSGSIZE)
    | Some (t, e) \<Rightarrow> get_sections 4 0 12 ?h = Some (?h\<lparr>m_sections := map section_start t\<rparr>, Inr e)"
    using get_sections_correct [of ?h 0 4 12, unfolded take_0 append_Nil] False by (simp add: fresh_handle_def comp_def)
  have cs: "map unat ?cs = map (\<lambda>i. unat (be16 msg (4 + 2 * i))) [0..<4]" by simp
  show ?thesis
  proof (cases "sections_table msg True 12 (map unat ?cs)")
    case None
    then have "message_table msg = None" by (simp add: message_table_def cs comp_def)
    with sections None show ?thesis unfolding init by auto
  next
    case (Some te)
    then obtain t e where te: "sections_table msg True 12 (map unat ?cs) = Some (t, e)" by (cases te) auto
    then have table: "message_table msg = (if e = length msg then Some t else None)"
      using False by (simp add: message_table_def cs comp_def)
    have "map (\<lambda>rs. word_of_nat (length rs)) t = map (word_of_nat \<circ> length) t" by simp
    also have "\<dots> = map word_of_nat (map unat ?cs)"
      unfolding sections_table_lengths [OF te, symmetric] by simp
    also have "\<dots> = ?cs" by simp
    finally have "handle_ok msg t (?h\<lparr>m_sections := map section_start t, m_sect := ns_s_max, m_rrnum := - 1, m_ptr := NULL\<rparr>)"
      by (simp add: handle_ok_def cursor_ok_def fresh_handle_def)
    moreover have "get_sections 4 0 12 ?h = Some (?h\<lparr>m_sections := map section_start t\<rparr>, Inr e)"
      using sections unfolding te by simp
    ultimately show ?thesis unfolding init table by (auto simp: setsection_def)
  qed
qed

subsection \<open>Expanding a name\<close>

lemma length_esc: "length (esc c) \<le> 4"
  by (simp add: esc_def)

lemma length_text_label: "length (text_label l) \<le> 4 * length l"
  by (induction l) (auto intro: order_trans [OF add_mono [OF length_esc]])

lemma length_text_tail: "length (text_tail ls) + 4 \<le> 4 * length (encode_name ls)"
proof (induction ls)
  case (Cons l ls)
  then show ?case using length_text_label [of l] by (simp add: encode_label_def)
qed simp

lemma length_text_of: "length (text_of ls) + 3 \<le> 4 * length (encode_name ls)"
proof (cases ls)
  case (Cons l ks)
  then show ?thesis
    using length_text_label [of l] length_text_tail [of ks] by (simp add: text_of_def encode_label_def)
qed (simp add: text_of_def)

text \<open>\<open>dn_expand\<close> writes the root name as the empty string.\<close>

definition expanded :: "label list \<Rightarrow> byte list" where
  "expanded ls = (if ls = [] then [0] else text_of ls)"

lemma text_of_starts:
  assumes "list_all valid_label ls" "ls \<noteq> []"
  shows "\<exists>c cs. text_of ls = c # cs \<and> c \<noteq> 0x2E"
proof -
  from assms obtain b l ks where "ls = (b # l) # ks" by (cases ls; cases "hd ls") (auto simp: valid_label_def)
  then show ?thesis by (auto simp: text_of_def esc_code special_def)
qed

text \<open>What a call of \<open>dn_expand\<close> leaves in the output and returns.\<close>

definition expands :: "byte list \<Rightarrow> nat \<Rightarrow> byte list \<Rightarrow> byte list \<Rightarrow> int cret \<Rightarrow> bool" where
  "expands msg p dst dst' r \<longleftrightarrow> length dst' = length dst \<and>
     (case r of
        Inl e \<Rightarrow> e = EMSGSIZE
      | Inr b \<Rightarrow> 0 < b \<and> ns_name_skip msg p = Inr (p + nat b) \<and>
          (\<exists>ls h. name_at msg p ls h \<and> dst' = overlay dst 0 (expanded ls @ [0])))"

lemma dn_expand_correct:
  assumes "length tmp0 = NS_MAXCDNAME" "length dst = NS_MAXDNAME"
  shows "\<exists>dst' r. dn_expand tmp0 msg (int p) dst = Some (dst', r) \<and> expands msg p dst dst' r"
proof -
  have "tmp0 \<noteq> []" using assms(1) by (auto simp: NS_MAXCDNAME_def)
  then obtain tmp r where u: "ns_name_unpack msg (int p) tmp0 = Some (tmp, r)"
    using ns_name_unpack_total [of tmp0 msg "int p"] by blast
  show ?thesis
  proof (cases r)
    case (Inl e)
    then have "e = EMSGSIZE" using u by (auto simp: ns_name_unpack_def split: if_splits dest: unpack_loop_error)
    with u Inl show ?thesis by (simp add: dn_expand_def ns_name_uncompress_def expands_def)
  next
    case (Inr b)
    from ns_name_unpack_Inr [OF u [unfolded Inr]] obtain ls h where ls: "name_at msg p ls h" "list_all valid_label ls"
      "length (encode_name ls) \<le> length tmp0" "take (length (encode_name ls)) tmp = encode_name ls"
      "0 < b" "ns_name_skip msg p = Inr (p + nat b)" by auto
    from ls(4) obtain post where tmp: "tmp = encode_name ls @ post" by (metis append_take_drop_id)
    have fits: "length (text_of ls) + 1 \<le> length dst"
      using length_text_of [of ls] ls(3) assms by (simp add: NS_MAXCDNAME_def NS_MAXDNAME_def)
    then have unc: "ns_name_uncompress tmp0 msg (int p) dst = Some (overlay dst 0 (text_of ls @ [0]), Inr b)"
      using ntop_fits [OF ls(2), of dst post] u Inr by (simp add: ns_name_uncompress_def tmp)
    have "dn_expand tmp0 msg (int p) dst = Some (overlay dst 0 (expanded ls @ [0]), Inr b)"
    proof (cases "ls = []")
      case True
      then show ?thesis using fits ls(5)
        by (simp add: dn_expand_def unc expanded_def text_of_def overlay_def wr_def)
    next
      case False
      then show ?thesis using text_of_starts [OF ls(2)] ls(5)
        by (auto simp: dn_expand_def unc expanded_def overlay_def)
    qed
    moreover have "length (expanded ls) = length (text_of ls)" by (simp add: expanded_def text_of_def)
    ultimately show ?thesis
      using ls fits by (auto simp: expands_def)
  qed
qed

subsection \<open>Reading a record\<close>

text \<open>The record at position \<open>p\<close>, read without a handle.\<close>

definition read_rr :: "byte list \<Rightarrow> byte list \<Rightarrow> bool \<Rightarrow> nat \<Rightarrow> ns_rr \<Rightarrow> (ns_rr \<times> int cret) option" where
  "read_rr tmp0 msg qd p rr =
     do { (name, b) \<leftarrow> dn_expand tmp0 msg (int p) (rr_name rr);
          case b of
            Inl e \<Rightarrow> Some (rr\<lparr>rr_name := name\<rparr>, Inl e)
          | Inr b \<Rightarrow>
              let q = p + nat b in
              Some (\<lparr>rr_name = name, rr_type = be16 msg q, rr_class = be16 msg (q + 2),
                     rr_ttl = (if qd then 0 else be32 msg (q + 4)),
                     rr_rdlength = (if qd then 0 else be16 msg (q + 8)),
                     rr_rdata = (if qd then NULL else At (q + 10))\<rparr>, Inr 0) }"

text \<open>\<open>ns_parserr\<close> as an access to the table; the state is the section and the number of the next record.\<close>

definition parserr_spec ::
  "byte list \<Rightarrow> byte list \<Rightarrow> nat list list \<Rightarrow> int \<times> int \<Rightarrow> int \<Rightarrow> int \<Rightarrow> ns_rr \<Rightarrow> ((int \<times> int) \<times> ns_rr \<times> int cret) option" where
  "parserr_spec tmp0 msg t cursor section rrnum rr =
     (if section \<notin> {0..<ns_s_max} then Some (cursor, rr, Inl ENODEV)
      else do { let k = (if section = fst cursor then snd cursor else 0);
                let n = (if rrnum = - 1 then k else rrnum);
                if n \<notin> {0..<int (length (t ! nat section))} then Some ((section, k), rr, Inl ENODEV)
                else do { (rr, r) \<leftarrow> read_rr tmp0 msg (section = ns_s_qd) (t ! nat section ! nat n) rr;
                          Some ((section, case r of Inl _ \<Rightarrow> n | Inr _ \<Rightarrow> n + 1), rr, r) } })"

lemma parserr_read_correct:
  assumes "addr (m_ptr h) = Some p" "rr_end (m_msg h) (section = ns_s_qd) p = Some f"
    and "length tmp0 = NS_MAXCDNAME" "length (rr_name rr) = NS_MAXDNAME"
    and "nat section < length (m_counts h)" "m_rrnum h < uint (m_counts h ! nat section)"
  shows "\<exists>rr' r. read_rr tmp0 (m_msg h) (section = ns_s_qd) p rr = Some (rr', r) \<and>
    parserr_read tmp0 h section rr =
      Some (case r of Inl _ \<Rightarrow> h | Inr _ \<Rightarrow> h\<lparr>m_ptr := At f, m_rrnum := m_rrnum h + 1\<rparr>, rr', r)"
proof -
  let ?msg = "m_msg h"
  obtain name r where d: "dn_expand tmp0 ?msg (int p) (rr_name rr) = Some (name, r)"
    "expands ?msg p (rr_name rr) name r" using dn_expand_correct [OF assms(3,4)] by blast
  have finish: "parserr_done (h\<lparr>m_ptr := At f\<rparr>) section rr = Some (h\<lparr>m_ptr := At f, m_rrnum := m_rrnum h + 1\<rparr>, rr, Inr 0)"
    for rr using assms(5,6) by (simp add: parserr_done_def rd_in)
  show ?thesis
  proof (cases r)
    case (Inl e)
    with d assms(1) show ?thesis by (simp add: read_rr_def parserr_read_def)
  next
    case (Inr b)
    define q where "q = p + nat b"
    have skip: "ns_name_skip ?msg p = Inr q" using d Inr by (simp add: expands_def q_def)
    from assms(2) have f: "f \<le> length ?msg" "f = (if section = ns_s_qd then q + 4 else q + 10 + unat (be16 ?msg (q + 8)))"
      by (auto simp: rr_end_eq skip Let_def split: if_splits)
    show ?thesis
    proof (cases "section = ns_s_qd")
      case True
      with d Inr f assms(1) finish show ?thesis
        by (simp add: read_rr_def parserr_read_def ntoh_at_be q_def [symmetric] Let_def)
    next
      case False
      with d Inr f assms(1) finish show ?thesis
        by (simp add: read_rr_def parserr_read_def ntoh_at_be q_def [symmetric] Let_def
            add.commute [of 8 q] add.commute [of 10 q])
    qed
  qed
qed

subsection \<open>A call of \<open>ns_parserr\<close>\<close>

lemma sections_table_nth:
  "sections_table msg qd p ns = Some (t, e) \<Longrightarrow> i < length ns \<Longrightarrow> p \<le> length msg \<Longrightarrow>
     \<exists>p' e'. p' \<le> length msg \<and> rr_table msg (i = 0 \<and> qd) p' (ns ! i) = Some (t ! i, e')"
proof (induction ns arbitrary: qd p t i)
  case (Cons n ns)
  then obtain rs f t' where *: "rr_table msg qd p n = Some (rs, f)" "sections_table msg False f ns = Some (t', e)" "t = rs # t'"
    by (auto split: bind_splits)
  show ?case
  proof (cases i)
    case 0
    with * Cons.prems show ?thesis by auto
  next
    case (Suc j)
    with Cons.IH [OF *(2), of j] * Cons.prems rr_table_range [OF *(1)] show ?thesis by auto
  qed
qed simp

lemma message_table_section:
  assumes "message_table msg = Some t" "i < 4"
  obtains p e where "p \<le> length msg" "rr_table msg (i = 0) p (length (t ! i)) = Some (t ! i, e)"
proof -
  note t = message_table_Some [OF assms(1)]
  have "map length t ! i = map (\<lambda>i. unat (be16 msg (4 + 2 * i))) [0..<4] ! i"
    unfolding sections_table_lengths [OF t(3)] ..
  with sections_table_nth [OF t(3), of i] t(1,2) assms(2) that show ?thesis by auto
qed

lemma unat_count:
  assumes "message_table msg = Some t" "handle_ok msg t h" "0 \<le> s" "s < ns_s_max"
  shows "rd (m_counts h) (nat s) = Some (m_counts h ! nat s)" "uint (m_counts h ! nat s) = int (length (t ! nat s))"
proof -
  have s: "nat s < length t" using message_table_Some(2) [OF assms(1)] assms(3,4) by (simp add: ns_s_max_def)
  then show "rd (m_counts h) (nat s) = Some (m_counts h ! nat s)" using assms(2) by (simp add: handle_ok_def rd_in)
  have "length (t ! nat s) < 65536" using message_table_Some(4) [OF assms(1), of "t ! nat s"] s by simp
  then have "uint (word_of_nat (length (t ! nat s)) :: 16 word) = int (length (t ! nat s))"
    by (simp add: unsigned_of_nat take_bit_eq_mod)
  then show "uint (m_counts h ! nat s) = int (length (t ! nat s))"
    using assms(2) s by (simp add: handle_ok_def)
qed

lemma setsection_ok:
  assumes "message_table msg = Some t" "handle_ok msg t h" "0 \<le> s" "s < ns_s_max"
  shows "setsection h s = Some (h\<lparr>m_sect := s, m_rrnum := 0, m_ptr := section_start (t ! nat s)\<rparr>)"
    and "handle_ok msg t (h\<lparr>m_sect := s, m_rrnum := 0, m_ptr := section_start (t ! nat s)\<rparr>)"
proof -
  have s: "nat s < length t" using message_table_Some(2) [OF assms(1)] assms(3,4) by (simp add: ns_s_max_def)
  with assms show "setsection h s = Some (h\<lparr>m_sect := s, m_rrnum := 0, m_ptr := section_start (t ! nat s)\<rparr>)"
    by (simp add: setsection_def handle_ok_def rd_in)
  show "handle_ok msg t (h\<lparr>m_sect := s, m_rrnum := 0, m_ptr := section_start (t ! nat s)\<rparr>)"
    using assms by (cases "t ! nat s") (auto simp: handle_ok_def cursor_ok_def section_start_def)
qed

text \<open>Skipping forward from one record of a section to a later one.\<close>

lemma ns_skiprr_section:
  assumes "message_table msg = Some t" "0 \<le> s" "s < ns_s_max" "0 \<le> k" "k \<le> n" "n < int (length (t ! nat s))"
  shows "ns_skiprr msg (t ! nat s ! nat k) s (n - k) = Some (Inr (t ! nat s ! nat n - t ! nat s ! nat k))"
    and "t ! nat s ! nat k \<le> t ! nat s ! nat n"
    and "\<exists>f. rr_end msg (s = ns_s_qd) (t ! nat s ! nat n) = Some f \<and>
      (n + 1 < int (length (t ! nat s)) \<longrightarrow> f = t ! nat s ! nat (n + 1))"
proof -
  let ?rs = "t ! nat s"
  have qd: "(nat s = 0) = (s = ns_s_qd)" using assms(2) by (simp add: ns_s_qd_def)
  obtain p e where tab: "rr_table msg (s = ns_s_qd) p (length ?rs) = Some (?rs, e)"
    using message_table_section [OF assms(1), of "nat s"] assms(3) unfolding qd ns_s_max_def
    by (metis nat_less_iff numeral_eq_Suc assms(2) of_nat_numeral)
  have nth: "(?rs @ [e]) ! nat k = ?rs ! nat k" "(?rs @ [e]) ! nat n = ?rs ! nat n"
    using assms(4-6) by (simp_all add: nth_append nat_less_iff)
  have kn: "nat k + nat (n - k) = nat n" using assms(4,5) by simp
  have from_k: "rr_table msg (s = ns_s_qd) (?rs ! nat k) (nat (n - k)) =
      Some (take (nat (n - k)) (drop (nat k) ?rs), ?rs ! nat n)"
    using rr_table_from [OF tab, of "nat k" "nat (n - k)"] assms(6) unfolding kn nth by simp
  show "?rs ! nat k \<le> ?rs ! nat n" using rr_table_grows [OF from_k] .
  have rec: "rr_end msg (s = ns_s_qd) (?rs ! nat j) = Some ((?rs @ [e]) ! (nat j + 1))"
    if "0 \<le> j" "j < int (length ?rs)" for j
    using rr_table_record [OF tab, of "nat j"] that by (simp add: nat_less_iff)
  then show "\<exists>f. rr_end msg (s = ns_s_qd) (?rs ! nat n) = Some f \<and> (n + 1 < int (length ?rs) \<longrightarrow> f = ?rs ! nat (n + 1))"
    using rec [of n] assms(4-6) by (auto simp: nth_append nat_add_distrib nat_less_iff)
  have "?rs ! nat k \<le> length msg" using rec [of k] assms(4-6) rr_end_range by fastforce
  then show "ns_skiprr msg (?rs ! nat k) s (n - k) = Some (Inr (?rs ! nat n - ?rs ! nat k))"
    using ns_skiprr_table [of "?rs ! nat k" msg s "nat (n - k)"] from_k assms(5) by simp
qed

lemma ns_parserr_table:
  assumes "message_table msg = Some t" "handle_ok msg t h" "length tmp0 = NS_MAXCDNAME" "length (rr_name rr) = NS_MAXDNAME"
  shows "\<exists>h' rr' r. ns_parserr tmp0 h s n rr = Some (h', rr', r) \<and> handle_ok msg t h' \<and>
    parserr_spec tmp0 msg t (m_sect h, m_rrnum h) s n rr = Some ((m_sect h', m_rrnum h'), rr', r)"
proof (cases "0 \<le> s \<and> s < ns_s_max")
  case False
  with assms(2) show ?thesis by (auto simp: ns_parserr_def parserr_spec_def)
next
  case True
  then have s: "0 \<le> s" "s < ns_s_max" by auto
  obtain h1 where h1: "(if s \<noteq> m_sect h then setsection h s else Some h) = Some h1" "handle_ok msg t h1"
    "m_sect h1 = s" "m_rrnum h1 = (if s = m_sect h then m_rrnum h else 0)"
    using setsection_ok [OF assms(1,2) s] assms(2) by (cases "s = m_sect h") auto
  define k where "k = (if n = - 1 then m_rrnum h1 else n)"
  note count = unat_count [OF assms(1) h1(2) s]
  show ?thesis
  proof (cases "0 \<le> k \<and> k < int (length (t ! nat s))")
    case False
    then have "ns_parserr tmp0 h s n rr = Some (h1, rr, Inl ENODEV)"
      using s h1(1) count by (auto simp: ns_parserr_def k_def)
    moreover have "parserr_spec tmp0 msg t (m_sect h, m_rrnum h) s n rr = Some ((s, m_rrnum h1), rr, Inl ENODEV)"
      using False s by (auto simp: parserr_spec_def k_def h1(4))
    ultimately show ?thesis using h1(2,3) by simp
  next
    case True
    then have k: "0 \<le> k" "k < int (length (t ! nat s))" by auto
    obtain h2 where h2: "(if k < m_rrnum h1 then setsection h1 s else Some h1) = Some h2" "handle_ok msg t h2"
      "m_sect h2 = s" "m_rrnum h2 \<le> k"
      using setsection_ok [OF assms(1) h1(2) s] h1(2,3) k by (cases "k < m_rrnum h1") auto
    have cur: "m_msg h2 = msg" "0 \<le> m_rrnum h2" "m_ptr h2 = At (t ! nat s ! nat (m_rrnum h2))"
      using h2 s k by (auto simp: handle_ok_def cursor_ok_def)
    define h3 where "h3 = h2\<lparr>m_ptr := At (t ! nat s ! nat k), m_rrnum := k\<rparr>"
    have ok3: "handle_ok msg t h3" "m_sect h3 = s"
      using h2(2,3) s k by (auto simp: h3_def handle_ok_def cursor_ok_def)
    note skip = ns_skiprr_section [OF assms(1) s cur(2) h2(4) k(2)]
    have seek: "ns_parserr tmp0 h s n rr = parserr_read tmp0 h3 s rr"
    proof (cases "m_rrnum h2 = k")
      case True
      then have "h3 = h2" using cur by (simp add: h3_def)
      then show ?thesis using s h1(1) k count h2(1) True by (simp add: ns_parserr_def k_def [symmetric])
    next
      case False
      then show ?thesis using s h1(1) k count h2(1,4) cur skip(1,2)
        by (simp add: ns_parserr_def k_def [symmetric] h3_def)
    qed
    obtain f where f: "rr_end msg (s = ns_s_qd) (t ! nat s ! nat k) = Some f"
      "k + 1 < int (length (t ! nat s)) \<Longrightarrow> f = t ! nat s ! nat (k + 1)" using skip(3) by blast
    note count3 = unat_count [OF assms(1) ok3(1) s]
    obtain rr' r where read: "read_rr tmp0 msg (s = ns_s_qd) (t ! nat s ! nat k) rr = Some (rr', r)"
      "parserr_read tmp0 h3 s rr =
        Some (case r of Inl _ \<Rightarrow> h3 | Inr _ \<Rightarrow> h3\<lparr>m_ptr := At f, m_rrnum := m_rrnum h3 + 1\<rparr>, rr', r)"
      using parserr_read_correct [of h3 "t ! nat s ! nat k" s f tmp0 rr] assms(3,4) f(1) cur(1) count3 k
      by (auto simp: h3_def rd_Some_iff)
    have "handle_ok msg t (h3\<lparr>m_ptr := At f, m_rrnum := m_rrnum h3 + 1\<rparr>)"
      using ok3 f(2) s k by (auto simp: h3_def handle_ok_def cursor_ok_def)
    moreover have "parserr_spec tmp0 msg t (m_sect h, m_rrnum h) s n rr =
        Some ((s, case r of Inl _ \<Rightarrow> k | Inr _ \<Rightarrow> k + 1), rr', r)"
    proof -
      have "(if n = - 1 then (if s = m_sect h then m_rrnum h else 0) else n) = k" by (simp add: k_def h1(4))
      show ?thesis
        unfolding parserr_spec_def Let_def fst_conv snd_conv \<open>_ = k\<close> using s k read(1) by simp
    qed
    ultimately show ?thesis
      unfolding seek read(2) using ok3 by (cases r) (auto simp: h3_def)
  qed
qed

subsection \<open>The flags\<close>

text \<open>Width and position of the ten fields of the flags word.\<close>

definition flag_fields :: "(nat \<times> nat) list" where
  "flag_fields = [(1, 15), (4, 11), (1, 10), (1, 9), (1, 8), (1, 7), (1, 6), (1, 5), (1, 4), (4, 0)]"

lemma drop_bit_and_field: "drop_bit k (x AND push_bit k (mask w)) = take_bit w (drop_bit k (x :: 16 word))"
  by (rule bit_word_eqI) (auto simp: bit_simps dest: bit_imp_le_length)

lemma ns_msg_getflag_field:
  assumes "i < 10" "flag_fields ! i = (w, k)"
  shows "ns_msg_getflag h i = Some (uint (m_flags h) div 2 ^ k mod 2 ^ w)"
proof -
  have tab: "take 10 ns_flagdata = map (\<lambda>(w, k). (push_bit k (mask w), k)) flag_fields"
    by (simp add: ns_flagdata_def flag_fields_def mask_eq_exp_minus_1)
  have "length flag_fields = 10" by (simp add: flag_fields_def)
  have "ns_flagdata ! i = take 10 ns_flagdata ! i" using assms(1) by simp
  also have "\<dots> = (push_bit k (mask w), k)" unfolding tab using assms \<open>length flag_fields = 10\<close> by simp
  finally have "rd ns_flagdata i = Some (push_bit k (mask w), k)"
    using assms(1) by (simp add: rd_in ns_flagdata_def)
  then have "ns_msg_getflag h i = Some (take_bit w (drop_bit k (uint (m_flags h))))"
    unfolding ns_msg_getflag_def by (simp only: bind.bind_lunit prod.case drop_bit_and_field)
      (simp add: unsigned_take_bit_eq unsigned_drop_bit_eq bintr_uint)
  then show ?thesis by (simp add: take_bit_eq_mod drop_bit_eq_div)
qed

subsection \<open>Properties\<close>

text \<open>
  The handles a program can have for a message: the result of a successful \<open>ns_initparse\<close>, and
  what calls of \<open>ns_parserr\<close>, for any section and record number, make of it.
\<close>

inductive parse_reach :: "byte list \<Rightarrow> ns_msg \<Rightarrow> bool" for msg where
  init: "ns_initparse msg = Some (h, Inr r) \<Longrightarrow> parse_reach msg h"
| step: "parse_reach msg h \<Longrightarrow> length tmp0 = NS_MAXCDNAME \<Longrightarrow> length (rr_name rr) = NS_MAXDNAME \<Longrightarrow>
     ns_parserr tmp0 h s n rr = Some (h', rr', r) \<Longrightarrow> parse_reach msg h'"

lemma parse_reach_ok: "parse_reach msg h \<Longrightarrow> \<exists>t. message_table msg = Some t \<and> handle_ok msg t h"
proof (induction rule: parse_reach.induct)
  case (init h r)
  with ns_initparse_table [of msg] show ?case by (auto split: option.splits)
next
  case (step h tmp0 rr s n h' rr' r)
  then obtain t where t: "message_table msg = Some t" "handle_ok msg t h" by blast
  with ns_parserr_table [OF t step.hyps(2,3), of s n] step.hyps(4) show ?case by auto
qed

text \<open>
  C17: \<open>ns_initparse\<close> returns on every message without reading outside it, and accepts exactly the
  messages whose four sections, of the lengths the header gives, fill it; on any other it fails
  with \<open>EMSGSIZE\<close>.  The handle of an accepted message has the identification and flags of the
  header and the starts of the sections.
\<close>

theorem ns_initparse_correct:
  "\<exists>h r. ns_initparse msg = Some (h, r) \<and>
     (case message_table msg of
        None \<Rightarrow> r = Inl EMSGSIZE
      | Some t \<Rightarrow> r = Inr 0 \<and> handle_ok msg t h \<and> m_id h = be16 msg 0 \<and> m_flags h = be16 msg 2)"
  by (rule ns_initparse_table)

text \<open>
  C18: every handle is well formed: through any sequence of calls, failed ones included, it keeps
  the message, the counts and the section starts of the table, and its cached pointer is a null
  pointer or the position of the record its section and record number name.
\<close>

theorem ns_msg_well_formed:
  assumes "parse_reach msg h"
  shows "\<exists>t. message_table msg = Some t \<and> handle_ok msg t h"
  using assms by (rule parse_reach_ok)

definition example_message :: "byte list" where
  "example_message =
     [0, 18, 1, 0, 0, 1, 0, 2, 0, 0, 0, 0] @ [1, 97, 0, 0, 1, 0, 1] @
     [0xC0, 12, 0, 1, 0, 1, 0, 0, 0, 60, 0, 1, 7] @ [0, 0, 2, 0, 1, 0, 0, 0, 9, 0, 0]"

definition example_handle :: ns_msg where
  "example_handle =
     \<lparr>m_msg = example_message, m_id = 18, m_flags = 0x100, m_counts = [1, 2, 0, 0],
      m_sections = [At 12, At 19, NULL, NULL], m_sect = 4, m_rrnum = - 1, m_ptr = NULL\<rparr>"

lemma example_initparse: "ns_initparse example_message = Some (example_handle, Inr 0)"
  by code_simp

lemma example_table: "message_table example_message = Some [[12], [19, 32], [], []]"
  by code_simp

theorem ns_msg_well_formed_witness:
  "\<exists>t. message_table example_message = Some t \<and> handle_ok example_message t example_handle"
  using ns_msg_well_formed [OF parse_reach.init [OF example_initparse]] .

text \<open>
  C6: the cache of the handle cannot be observed.  After any calls, \<open>ns_parserr\<close> returns without
  leaving the message, and what it returns is the record the table has at the section and number
  asked for, read on its own; a number out of range gives \<open>ENODEV\<close>, and \<open>-1\<close> is the record after the
  one read last in the section.
\<close>

theorem ns_parserr_refines:
  assumes "parse_reach msg h" and "length tmp0 = NS_MAXCDNAME" and "length (rr_name rr) = NS_MAXDNAME"
  shows "\<exists>t h' rr' r. message_table msg = Some t \<and> ns_parserr tmp0 h s n rr = Some (h', rr', r) \<and> parse_reach msg h' \<and>
    parserr_spec tmp0 msg t (m_sect h, m_rrnum h) s n rr = Some ((m_sect h', m_rrnum h'), rr', r)"
proof -
  obtain t where t: "message_table msg = Some t" "handle_ok msg t h" using parse_reach_ok [OF assms(1)] by blast
  with ns_parserr_table [OF t assms(2,3), of s n] parse_reach.step [OF assms] show ?thesis by blast
qed

definition blank_rr :: ns_rr where
  "blank_rr = \<lparr>rr_name = replicate 1025 0, rr_type = 0, rr_class = 0, rr_ttl = 0, rr_rdlength = 0, rr_rdata = NULL\<rparr>"

theorem ns_parserr_refines_witness:
  "\<exists>h' rr' r. ns_parserr (replicate 255 0) example_handle 1 1 blank_rr = Some (h', rr', r) \<and>
    parserr_spec (replicate 255 0) example_message [[12], [19, 32], [], []] (4, - 1) 1 1 blank_rr =
      Some ((m_sect h', m_rrnum h'), rr', r)"
proof -
  have len: "length (replicate 255 0 :: byte list) = NS_MAXCDNAME" "length (rr_name blank_rr) = NS_MAXDNAME"
    by (simp_all only: NS_MAXCDNAME_def NS_MAXDNAME_def blank_rr_def ns_rr.simps length_replicate)
  have cursor: "m_sect example_handle = 4" "m_rrnum example_handle = - 1" by (simp_all add: example_handle_def)
  obtain t h' rr' r where r: "message_table example_message = Some t"
    "ns_parserr (replicate 255 0) example_handle 1 1 blank_rr = Some (h', rr', r)"
    "parserr_spec (replicate 255 0) example_message t (4, - 1) 1 1 blank_rr = Some ((m_sect h', m_rrnum h'), rr', r)"
    using ns_parserr_refines [OF parse_reach.init [OF example_initparse] len, of 1 1] unfolding cursor by blast
  from r(1) have "t = [[12], [19, 32], [], []]" unfolding example_table by (rule option.inject [THEN iffD1, symmetric])
  with r(2,3) show ?thesis by blast
qed

end
