(* ===== verification/Compare.thy ===== *)
theory Compare
  imports Libc_Prelude
begin

text \<open>
  Comparison functions and the searches that take one.

  The sorting and searching routines of the library call a comparison function supplied by the
  caller.  \<open>ordering_fn\<close> is the contract the C standard puts on it: a total preorder read off the sign
  of the result.  The comparison \<open>strcasecmp\<close> (\<^verbatim>\<open>src/original/string/strcasecmp.c\<close>) is shown to
  satisfy it.  The searches are \<open>bsearch\<close> (\<^verbatim>\<open>bits/stdlib-bsearch.h\<close>), \<open>lfind\<close> and \<open>lsearch\<close>
  (\<^verbatim>\<open>misc/lsearch.c\<close>).  An array of elements of \<open>size\<close> bytes is a list of elements, and the
  pointer \<open>base + i * size\<close> is the index \<open>i\<close>.
\<close>

subsection \<open>The contract of a comparison function\<close>

locale ordering_fn =
  fixes cmp :: "'a \<Rightarrow> 'a \<Rightarrow> int"
  assumes cmp_flip: "cmp x y < 0 \<longleftrightarrow> 0 < cmp y x"
    and cmp_trans: "cmp x y \<le> 0 \<Longrightarrow> cmp y z \<le> 0 \<Longrightarrow> cmp x z \<le> 0"
begin

lemma cmp_refl [simp]: "cmp x x = 0"
  using cmp_flip [of x x] by linarith

lemma cmp_total: "cmp x y \<le> 0 \<or> cmp y x \<le> 0"
  using cmp_flip [of x y] cmp_flip [of y x] by linarith

lemma cmp_zero_flip: "cmp x y = 0 \<longleftrightarrow> cmp y x = 0"
  using cmp_flip [of x y] cmp_flip [of y x] by linarith

lemma cmp_le_flip: "cmp x y \<le> 0 \<longleftrightarrow> 0 \<le> cmp y x"
  using cmp_flip [of y x] by linarith

lemma cmp_less_le_trans: "cmp x y < 0 \<Longrightarrow> cmp y z \<le> 0 \<Longrightarrow> cmp x z < 0"
  using cmp_trans [of y z x] cmp_le_flip [of y x] cmp_le_flip [of z x] cmp_flip [of x z]
  by (metis cmp_flip less_le_not_le linorder_not_less)

lemma cmp_le_less_trans: "cmp x y \<le> 0 \<Longrightarrow> cmp y z < 0 \<Longrightarrow> cmp x z < 0"
  using cmp_trans [of z x y] by (metis cmp_flip linorder_not_less cmp_le_flip)

end

definition in_order :: "('a \<Rightarrow> 'a \<Rightarrow> int) \<Rightarrow> 'a list \<Rightarrow> bool" where
  "in_order cmp xs \<longleftrightarrow> sorted_wrt (\<lambda>x y. cmp x y \<le> 0) xs"

subsection \<open>Case-insensitive comparison of strings\<close>

text \<open>
  \<open>lower\<close> is the \<open>tolower\<close> table of the locale in force, \<open>same\<close> tells whether the two pointers are
  equal.
\<close>

fun strcasecmp_loop :: "(byte \<Rightarrow> int) \<Rightarrow> byte list \<Rightarrow> byte list \<Rightarrow> int option" where
  "strcasecmp_loop lower (c1 # p1) (c2 # p2) =
     (let result = lower c1 - lower c2 in
      if result = 0 then (if c1 = 0 then Some result else strcasecmp_loop lower p1 p2) else Some result)"
| "strcasecmp_loop lower _ _ = None"

definition strcasecmp :: "(byte \<Rightarrow> int) \<Rightarrow> bool \<Rightarrow> byte list \<Rightarrow> byte list \<Rightarrow> int option" where
  "strcasecmp lower same s1 s2 = (if same then Some 0 else strcasecmp_loop lower s1 s2)"

text \<open>The table of the C locale.\<close>

definition c_tolower :: "byte \<Rightarrow> int" where
  "c_tolower c = (if 0x41 \<le> c \<and> c \<le> 0x5A then uint c + 32 else uint c)"

lemma c_tolower_zero: "c_tolower c = 0 \<longleftrightarrow> c = 0"
  by (auto simp: c_tolower_def uint_0_iff) (metis add_nonneg_pos uint_ge_0 zero_less_numeral less_numeral_extra(3))

lemma c_tolower_0 [simp]: "c_tolower 0 = 0"
  by (simp add: c_tolower_zero)

lemma c_tolower_ge_0: "0 \<le> c_tolower c"
  by (simp add: c_tolower_def)

text \<open>The comparison of two terminated strings in the C locale.\<close>

definition strcasecmp_C :: "byte list \<Rightarrow> byte list \<Rightarrow> int" where
  "strcasecmp_C s t = (case strcasecmp c_tolower False (s @ [0]) (t @ [0]) of Some r \<Rightarrow> r | None \<Rightarrow> 0)"

lemma strcasecmp_returns: "\<exists>r. strcasecmp_loop c_tolower (s @ [0]) (t @ [0]) = Some r"
proof (induction s arbitrary: t)
  case Nil
  then show ?case by (cases t) (auto simp: c_tolower_zero Let_def)
next
  case (Cons c s)
  have "c_tolower c - c_tolower 0 = 0 \<longleftrightarrow> c = 0" using c_tolower_zero [of c] c_tolower_zero [of 0] by simp
  with Cons show ?case by (cases t) (auto simp: Let_def)
qed

lemma strcasecmp_C_simps:
  "strcasecmp_C [] [] = 0"
  "strcasecmp_C [] (d # t) = - c_tolower d"
  "strcasecmp_C (c # s) [] = c_tolower c"
  "strcasecmp_C (c # s) (d # t) =
     (if c_tolower c \<noteq> c_tolower d then c_tolower c - c_tolower d else if c = 0 then 0 else strcasecmp_C s t)"
  by (auto simp: strcasecmp_C_def strcasecmp_def Let_def c_tolower_zero)

lemma strcasecmp_C_flip: "strcasecmp_C s t = - strcasecmp_C t s"
proof (induction s arbitrary: t)
  case Nil
  then show ?case by (cases t) (auto simp: strcasecmp_C_simps)
next
  case (Cons c s)
  show ?case
  proof (cases t)
    case (Cons d u)
    have "c = 0 \<longleftrightarrow> d = 0" if "c_tolower c = c_tolower d" using that c_tolower_zero by metis
    with Cons Cons.IH [of u] show ?thesis by (auto simp: strcasecmp_C_simps)
  qed (simp add: strcasecmp_C_simps)
qed

lemma strcasecmp_C_trans: "strcasecmp_C s t \<le> 0 \<Longrightarrow> strcasecmp_C t u \<le> 0 \<Longrightarrow> strcasecmp_C s u \<le> 0"
proof (induction s arbitrary: t u)
  case Nil
  then show ?case using c_tolower_ge_0 by (cases u) (auto simp: strcasecmp_C_simps)
next
  case (Cons c s)
  show ?case
  proof (cases t)
    case Nil
    with Cons.prems c_tolower_ge_0 [of c] have "c = 0" using c_tolower_zero [of c] by (simp add: strcasecmp_C_simps)
    then show ?thesis
      using c_tolower_ge_0 c_tolower_zero [of 0] by (cases u) (auto simp: strcasecmp_C_simps)
  next
    case t: (Cons d t')
    show ?thesis
    proof (cases u)
      case Nil
      with t Cons.prems c_tolower_ge_0 [of d] c_tolower_ge_0 [of c] show ?thesis
        using c_tolower_zero [of d] c_tolower_zero [of c] by (auto simp: strcasecmp_C_simps split: if_splits)
    next
      case u: (Cons e u')
      from t u Cons.prems Cons.IH [of t' u'] c_tolower_zero [of c] c_tolower_zero [of d] show ?thesis
        by (auto simp: strcasecmp_C_simps split: if_splits)
    qed
  qed
qed

interpretation casecmp: ordering_fn strcasecmp_C
proof
  show "strcasecmp_C x y < 0 \<longleftrightarrow> 0 < strcasecmp_C y x" for x y
    using strcasecmp_C_flip [of x y] by linarith
qed (rule strcasecmp_C_trans)

subsection \<open>Searches\<close>

function bsearch_loop :: "('k \<Rightarrow> 'a \<Rightarrow> int) \<Rightarrow> 'k \<Rightarrow> 'a list \<Rightarrow> nat \<Rightarrow> nat \<Rightarrow> nat option option" where
  "bsearch_loop compar key base l u =
     (if l < u then
        let idx = (l + u) div 2 in
        do { p \<leftarrow> rd base idx;
             let comparison = compar key p;
             if comparison < 0 then bsearch_loop compar key base l idx
             else if 0 < comparison then bsearch_loop compar key base (idx + 1) u
             else Some (Some idx) }
      else Some None)"
  by pat_completeness auto
termination
  by (relation "measure (\<lambda>(compar, key, base, l, u). u - l)") auto

declare bsearch_loop.simps [simp del]

definition bsearch :: "'k \<Rightarrow> 'a list \<Rightarrow> nat \<Rightarrow> ('k \<Rightarrow> 'a \<Rightarrow> int) \<Rightarrow> nat option option" where
  "bsearch key base nmemb compar = bsearch_loop compar key base 0 nmemb"

function lfind_loop :: "('k \<Rightarrow> 'a \<Rightarrow> int) \<Rightarrow> 'k \<Rightarrow> 'a list \<Rightarrow> nat \<Rightarrow> nat \<Rightarrow> nat option" where
  "lfind_loop compar key base nmemb cnt =
     (if cnt < nmemb then
        do { p \<leftarrow> rd base cnt;
             if compar key p \<noteq> 0 then lfind_loop compar key base nmemb (cnt + 1) else Some cnt }
      else Some cnt)"
  by pat_completeness auto
termination
  by (relation "measure (\<lambda>(compar, key, base, nmemb, cnt). nmemb - cnt)") auto

declare lfind_loop.simps [simp del]

definition lfind :: "'k \<Rightarrow> 'a list \<Rightarrow> nat \<Rightarrow> ('k \<Rightarrow> 'a \<Rightarrow> int) \<Rightarrow> nat option option" where
  "lfind key base nmemb compar =
     do { cnt \<leftarrow> lfind_loop compar key base nmemb 0; Some (if cnt < nmemb then Some cnt else None) }"

text \<open>\<open>lsearch\<close> returns the array, the new number of elements and the index of the element.\<close>

definition lsearch :: "'a \<Rightarrow> 'a list \<Rightarrow> nat \<Rightarrow> ('a \<Rightarrow> 'a \<Rightarrow> int) \<Rightarrow> ('a list \<times> nat \<times> nat) option" where
  "lsearch key base nmemb compar =
     do { result \<leftarrow> lfind key base nmemb compar;
          case result of
            None \<Rightarrow> do { base \<leftarrow> wr base nmemb key; Some (base, nmemb + 1, nmemb) }
          | Some i \<Rightarrow> Some (base, nmemb, i) }"

lemma bsearch_loop_correct:
  assumes "u \<le> nmemb" "nmemb \<le> length base"
    and mono: "\<And>i j. i \<le> j \<Longrightarrow> j < nmemb \<Longrightarrow>
      (compar key (base ! i) < 0 \<longrightarrow> compar key (base ! j) < 0) \<and> (compar key (base ! i) \<le> 0 \<longrightarrow> compar key (base ! j) \<le> 0)"
    and "\<And>i. i < nmemb \<Longrightarrow> compar key (base ! i) = 0 \<Longrightarrow> l \<le> i \<and> i < u"
  shows "\<exists>r. bsearch_loop compar key base l u = Some r \<and>
    (case r of Some i \<Rightarrow> i < nmemb \<and> compar key (base ! i) = 0 | None \<Rightarrow> \<forall>i < nmemb. compar key (base ! i) \<noteq> 0)"
  using assms(1,4)
proof (induction "u - l" arbitrary: l u rule: less_induct)
  case less
  show ?case
  proof (cases "l < u")
    case False
    with less.prems show ?thesis by (subst bsearch_loop.simps) fastforce
  next
    case True
    define idx where "idx = (l + u) div 2"
    have idx: "l \<le> idx" "idx < u" "idx < nmemb" "idx < length base"
      using True less.prems(1) assms(2) by (auto simp: idx_def)
    have step: "bsearch_loop compar key base l u =
        (if compar key (base ! idx) < 0 then bsearch_loop compar key base l idx
         else if 0 < compar key (base ! idx) then bsearch_loop compar key base (idx + 1) u else Some (Some idx))"
      using True idx(4) by (subst bsearch_loop.simps) (simp add: idx_def [symmetric] rd_in Let_def)
    consider "compar key (base ! idx) < 0" | "0 < compar key (base ! idx)" | "compar key (base ! idx) = 0" by linarith
    then show ?thesis
    proof cases
      case 1
      have "i < idx" if "i < nmemb" "compar key (base ! i) = 0" for i
        using mono [of idx i] that 1 by (cases "idx \<le> i") auto
      with 1 step less.hyps [of idx l] idx less.prems show ?thesis by auto
    next
      case 2
      have "idx < i" if "i < nmemb" "compar key (base ! i) = 0" for i
        using mono [of i idx] that 2 idx(3) by (cases "i \<le> idx") auto
      with 2 step less.hyps [of u "idx + 1"] idx less.prems show ?thesis by (auto simp: Suc_le_eq)
    next
      case 3
      with step idx show ?thesis by auto
    qed
  qed
qed

lemma lfind_loop_correct:
  assumes "nmemb \<le> length base" "cnt \<le> nmemb"
  shows "\<exists>k. lfind_loop compar key base nmemb cnt = Some k \<and> cnt \<le> k \<and> k \<le> nmemb \<and>
    (\<forall>i. cnt \<le> i \<and> i < k \<longrightarrow> compar key (base ! i) \<noteq> 0) \<and> (k < nmemb \<longrightarrow> compar key (base ! k) = 0)"
  using assms(2)
proof (induction "nmemb - cnt" arbitrary: cnt)
  case 0
  then show ?case by (subst lfind_loop.simps) auto
next
  case (Suc d)
  then have lt: "cnt < nmemb" "d = nmemb - (cnt + 1)" by auto
  show ?case
  proof (cases "compar key (base ! cnt) = 0")
    case True
    with lt assms(1) show ?thesis by (subst lfind_loop.simps) (auto simp: rd_in)
  next
    case False
    then have step: "lfind_loop compar key base nmemb cnt = lfind_loop compar key base nmemb (cnt + 1)"
      using lt assms(1) by (subst lfind_loop.simps) (simp add: rd_in)
    obtain k where k: "lfind_loop compar key base nmemb (cnt + 1) = Some k" "cnt + 1 \<le> k" "k \<le> nmemb"
      "\<forall>i. cnt + 1 \<le> i \<and> i < k \<longrightarrow> compar key (base ! i) \<noteq> 0" "k < nmemb \<longrightarrow> compar key (base ! k) = 0"
      using Suc.hyps(1) [OF lt(2)] lt(1) by auto
    have "compar key (base ! i) \<noteq> 0" if "cnt \<le> i" "i < k" for i
      using k(4) False that by (cases "i = cnt") auto
    with k step show ?thesis by (intro exI [of _ k]) simp
  qed
qed

subsection \<open>Properties\<close>

text \<open>
  C27: \<open>bsearch\<close> on an array that is partitioned by the key (elements the key is greater than, then
  elements equal to it, then elements it is less than) reads only inside the array, returns,
  and finds an element equal to the key exactly when there is one.
\<close>

theorem bsearch_correct:
  assumes "nmemb \<le> length base"
    and "\<And>i j. i \<le> j \<Longrightarrow> j < nmemb \<Longrightarrow>
      (compar key (base ! i) < 0 \<longrightarrow> compar key (base ! j) < 0) \<and> (compar key (base ! i) \<le> 0 \<longrightarrow> compar key (base ! j) \<le> 0)"
  shows "\<exists>r. bsearch key base nmemb compar = Some r \<and>
    (case r of Some i \<Rightarrow> i < nmemb \<and> compar key (base ! i) = 0 | None \<Rightarrow> \<forall>i < nmemb. compar key (base ! i) \<noteq> 0)"
  unfolding bsearch_def using assms by (intro bsearch_loop_correct) auto

theorem bsearch_witness:
  "\<exists>r. bsearch (5 :: int) [1, 5, 9] 3 (-) = Some r \<and>
    (case r of Some i \<Rightarrow> i < 3 \<and> (5 :: int) - [1, 5, 9] ! i = 0 | None \<Rightarrow> \<forall>i < 3. 5 - ([1, 5, 9] ! i :: int) \<noteq> 0)"
proof (rule bsearch_correct)
  fix i j :: nat
  assume "i \<le> j" "j < 3"
  then have "[1, 5, 9 :: int] ! i \<le> [1, 5, 9] ! j" by (intro sorted_nth_mono) auto
  then show "((5 :: int) - [1, 5, 9] ! i < 0 \<longrightarrow> (5 :: int) - [1, 5, 9] ! j < 0) \<and>
      ((5 :: int) - [1, 5, 9] ! i \<le> 0 \<longrightarrow> (5 :: int) - [1, 5, 9] ! j \<le> 0)" by linarith
qed simp

text \<open>
  C37: \<open>lsearch\<close> returns the first of the elements equal to the key and changes nothing if there is
  one; otherwise it appends the key, which is then the element returned.  It writes only behind
  the elements and needs room for one there.
\<close>

theorem lsearch_correct:
  assumes "nmemb < length base"
  shows "\<exists>base' n i. lsearch key base nmemb compar = Some (base', n, i) \<and> i < n \<and>
    (\<forall>j < i. compar key (base ! j) \<noteq> 0) \<and>
    (if \<exists>j < nmemb. compar key (base ! j) = 0
     then base' = base \<and> n = nmemb \<and> compar key (base ! i) = 0
     else take n base' = take nmemb base @ [key] \<and> n = nmemb + 1 \<and> i = nmemb \<and> length base' = length base)"
proof -
  obtain k where k: "lfind_loop compar key base nmemb 0 = Some k" "k \<le> nmemb"
    "\<forall>i < k. compar key (base ! i) \<noteq> 0" "k < nmemb \<longrightarrow> compar key (base ! k) = 0"
    using lfind_loop_correct [of nmemb base 0 compar key] assms by auto
  show ?thesis
  proof (cases "k < nmemb")
    case True
    with k show ?thesis by (auto simp: lsearch_def lfind_def)
  next
    case False
    with k(2) have "k = nmemb" by simp
    with k assms show ?thesis by (auto simp: lsearch_def lfind_def wr_in)
  qed
qed

theorem lsearch_witness:
  "\<exists>base' n i. lsearch (7 :: int) [1, 5, 0] 2 (-) = Some (base', n, i) \<and> n = 3 \<and> take n base' = [1, 5, 7]"
proof -
  have "[1, 5, 0 :: int] ! j \<noteq> 7" if "j < 2" for j
    using less_2_cases [OF that] by auto
  then have none: "\<not> (\<exists>j < 2. (7 :: int) - [1, 5, 0] ! j = 0)" by auto
  obtain base' n i where "lsearch (7 :: int) [1, 5, 0] 2 (-) = Some (base', n, i)"
    "take n base' = take 2 [1, 5, 0] @ [7]" "n = 2 + 1"
    using lsearch_correct [of 2 "[1, 5, 0 :: int]" 7 "(-)"] unfolding if_not_P [OF none] by auto
  then show ?thesis by (intro exI [of _ base'] exI [of _ n] exI [of _ i]) simp
qed

end
