(* ===== verification/Qsort.thy ===== *)
theory Qsort
  imports Compare "HOL-Library.Multiset"
begin

text \<open>
  Sorting: \<^verbatim>\<open>src/original/stdlib/qsort.c\<close> and \<open>__memswap\<close> of \<^verbatim>\<open>sysdeps/generic/memswap.h\<close>.

  An array of \<open>n\<close> elements of \<open>sz\<close> bytes is a list of elements; the pointer \<open>base + k * sz\<close>
  is the index \<open>k\<close>, and a copy of \<open>sz\<close> bytes is the assignment of an element.  The exchange
  of two elements is also modelled on bytes, and shown to refine the exchange in the list.
  The temporary storage is uninitialised: its contents are an argument (\<open>t\<close>).  The copying
  loops of \<open>msort_with_tmp\<close> for 4 byte words, 8 byte words and bytes differ in how an element
  is copied only; the loop for \<open>SWAP_VOID_ARG\<close> calls the comparison function on what the
  pointers in the array point to.
\<close>

subsection \<open>Exchanging two elements, on bytes\<close>

datatype swap_type_t = SWAP_WORDS_64 | SWAP_WORDS_32 | SWAP_VOID_ARG | SWAP_BYTES

text \<open>
  \<open>mem\<close> is the memory the two blocks lie in, at offsets \<open>a\<close> and \<open>b\<close>.  Words of \<open>w\<close> bytes are
  loaded and stored as runs of bytes.
\<close>

definition load :: "nat \<Rightarrow> byte list \<Rightarrow> nat \<Rightarrow> byte list option" where
  "load w mem p = (if p + w \<le> length mem then Some (take w (drop p mem)) else None)"

definition store :: "byte list \<Rightarrow> nat \<Rightarrow> byte list \<Rightarrow> byte list option" where
  "store mem p v = (if p + length v \<le> length mem then Some (overlay mem p v) else None)"

definition exchange :: "nat \<Rightarrow> byte list \<Rightarrow> nat \<Rightarrow> nat \<Rightarrow> byte list option" where
  "exchange w mem p q =
     do { t \<leftarrow> load w mem p; u \<leftarrow> load w mem q; mem \<leftarrow> store mem p u; store mem q t }"

text \<open>\<open>swap_words_64\<close> is the loop for \<open>w = 8\<close>, \<open>swap_words_32\<close> for \<open>w = 4\<close>; \<open>n\<close> wraps around below 0.\<close>

function swap_words :: "nat \<Rightarrow> byte list \<Rightarrow> nat \<Rightarrow> nat \<Rightarrow> nat \<Rightarrow> byte list option" where
  "swap_words w mem a b n =
     (if w = 0 \<or> n < w then None
      else do { mem \<leftarrow> exchange w mem (a + (n - w)) (b + (n - w));
                if n - w = 0 then Some mem else swap_words w mem a b (n - w) })"
  by pat_completeness auto
termination
  by (relation "measure (\<lambda>(w, mem, a, b, n). n)") auto

declare swap_words.simps [simp del]

definition swap_words_64 :: "byte list \<Rightarrow> nat \<Rightarrow> nat \<Rightarrow> nat \<Rightarrow> byte list option" where
  "swap_words_64 mem a b n = swap_words 8 mem a b n"

definition swap_words_32 :: "byte list \<Rightarrow> nat \<Rightarrow> nat \<Rightarrow> nat \<Rightarrow> byte list option" where
  "swap_words_32 mem a b n = swap_words 4 mem a b n"

definition SWAP_GENERIC_SIZE :: nat where
  "SWAP_GENERIC_SIZE = 32"

fun memswap_tail :: "byte list \<Rightarrow> nat \<Rightarrow> nat \<Rightarrow> nat \<Rightarrow> byte list option" where
  "memswap_tail mem p1 p2 0 = Some mem"
| "memswap_tail mem p1 p2 (Suc n) = do { mem \<leftarrow> exchange 1 mem (p1 + n) (p2 + n); memswap_tail mem p1 p2 n }"

function memswap :: "byte list \<Rightarrow> nat \<Rightarrow> nat \<Rightarrow> nat \<Rightarrow> byte list option" where
  "memswap mem p1 p2 n =
     (if SWAP_GENERIC_SIZE < n
      then do { mem \<leftarrow> exchange SWAP_GENERIC_SIZE mem p1 p2;
                memswap mem (p1 + SWAP_GENERIC_SIZE) (p2 + SWAP_GENERIC_SIZE) (n - SWAP_GENERIC_SIZE) }
      else memswap_tail mem p1 p2 n)"
  by pat_completeness auto
termination
  by (relation "measure (\<lambda>(mem, p1, p2, n). n)") (auto simp: SWAP_GENERIC_SIZE_def)

declare memswap.simps [simp del]

definition do_swap :: "byte list \<Rightarrow> nat \<Rightarrow> nat \<Rightarrow> nat \<Rightarrow> swap_type_t \<Rightarrow> byte list option" where
  "do_swap mem a b sz swap_type =
     (if swap_type = SWAP_WORDS_64 then swap_words_64 mem a b sz
      else if swap_type = SWAP_WORDS_32 then swap_words_32 mem a b sz
      else memswap mem a b sz)"

definition get_swap_type :: "nat \<Rightarrow> nat \<Rightarrow> swap_type_t" where
  "get_swap_type pbase sz =
     (if sz AND 3 = 0 \<and> pbase mod 4 = 0
      then (if sz = 4 then SWAP_WORDS_32
            else if sz = 8 \<and> pbase mod 8 = 0 then SWAP_WORDS_64
            else SWAP_BYTES)
      else SWAP_BYTES)"

subsection \<open>The sorts, on arrays of elements\<close>

definition swap_at :: "'a list \<Rightarrow> nat \<Rightarrow> nat \<Rightarrow> 'a list option" where
  "swap_at base i j = do { x \<leftarrow> rd base i; y \<leftarrow> rd base j; base \<leftarrow> wr base i y; wr base j x }"

definition cmp_at :: "('a \<Rightarrow> 'a \<Rightarrow> int) \<Rightarrow> 'a list \<Rightarrow> nat \<Rightarrow> nat \<Rightarrow> int option" where
  "cmp_at cmp base i j = do { x \<leftarrow> rd base i; y \<leftarrow> rd base j; Some (cmp x y) }"

lemma swap_at_in:
  "i < length base \<Longrightarrow> j < length base \<Longrightarrow> swap_at base i j = Some (base[i := base ! j, j := base ! i])"
  by (simp add: swap_at_def rd_in wr_in)

lemma cmp_at_in: "i < length base \<Longrightarrow> j < length base \<Longrightarrow> cmp_at cmp base i j = Some (cmp (base ! i) (base ! j))"
  by (simp add: cmp_at_def rd_in)

function siftdown :: "('a \<Rightarrow> 'a \<Rightarrow> int) \<Rightarrow> 'a list \<Rightarrow> nat \<Rightarrow> nat \<Rightarrow> 'a list option" where
  "siftdown cmp base k n =
     (if 2 * k + 1 \<le> n then
        do { right \<leftarrow> (if 2 * k + 1 < n then do { r \<leftarrow> cmp_at cmp base (2 * k + 1) (2 * k + 2); Some (r < 0) }
                      else Some False);
             let j = (if right then 2 * k + 2 else 2 * k + 1);
             done \<leftarrow> (if j = k then Some True else do { r \<leftarrow> cmp_at cmp base k j; Some (0 \<le> r) });
             if done then Some base
             else do { base \<leftarrow> swap_at base j k; siftdown cmp base j n } }
      else Some base)"
  by pat_completeness auto
termination
  by (relation "measure (\<lambda>(cmp, base, k, n). n - k)") (auto split: if_splits)

declare siftdown.simps [simp del]

fun heapify_loop :: "('a \<Rightarrow> 'a \<Rightarrow> int) \<Rightarrow> 'a list \<Rightarrow> nat \<Rightarrow> nat \<Rightarrow> 'a list option" where
  "heapify_loop cmp base n k =
     do { base \<leftarrow> siftdown cmp base k n;
          case k of 0 \<Rightarrow> Some base | Suc k' \<Rightarrow> heapify_loop cmp base n k' }"

declare heapify_loop.simps [simp del]

definition heapify :: "('a \<Rightarrow> 'a \<Rightarrow> int) \<Rightarrow> 'a list \<Rightarrow> nat \<Rightarrow> 'a list option" where
  "heapify cmp base n = heapify_loop cmp base n (n div 2)"

text \<open>The loop of \<open>heapsort_r\<close> is entered with \<open>n > 0\<close> only.\<close>

fun heapsort_loop :: "('a \<Rightarrow> 'a \<Rightarrow> int) \<Rightarrow> 'a list \<Rightarrow> nat \<Rightarrow> 'a list option" where
  "heapsort_loop cmp base 0 = None"
| "heapsort_loop cmp base (Suc n) =
     do { base \<leftarrow> swap_at base 0 (Suc n);
          if n = 0 then Some base
          else do { base \<leftarrow> siftdown cmp base 0 n; heapsort_loop cmp base n } }"

definition heapsort_r :: "('a \<Rightarrow> 'a \<Rightarrow> int) \<Rightarrow> 'a list \<Rightarrow> nat \<Rightarrow> 'a list option" where
  "heapsort_r cmp base n =
     (if n = 0 then Some base
      else do { base \<leftarrow> heapify cmp base n; heapsort_loop cmp base n })"

text \<open>
  The merging loop of \<open>msort_with_tmp\<close>; the result holds \<open>b1\<close>, \<open>n1\<close>, \<open>n2\<close>, the temporary storage
  and the write position \<open>tmp\<close> in it.
\<close>

function merge_loop ::
  "('a \<Rightarrow> 'a \<Rightarrow> int) \<Rightarrow> 'a list \<Rightarrow> nat \<Rightarrow> nat \<Rightarrow> nat \<Rightarrow> nat \<Rightarrow> 'a list \<Rightarrow> nat \<Rightarrow>
     (nat \<times> nat \<times> nat \<times> 'a list \<times> nat) option" where
  "merge_loop cmp base b1 n1 b2 n2 t tmp =
     (if 0 < n1 \<and> 0 < n2 then
        do { x \<leftarrow> rd base b1; y \<leftarrow> rd base b2;
             if cmp x y \<le> 0
             then do { t \<leftarrow> wr t tmp x; merge_loop cmp base (b1 + 1) (n1 - 1) b2 n2 t (tmp + 1) }
             else do { t \<leftarrow> wr t tmp y; merge_loop cmp base b1 n1 (b2 + 1) (n2 - 1) t (tmp + 1) } }
      else Some (b1, n1, n2, t, tmp))"
  by pat_completeness auto
termination
  by (relation "measure (\<lambda>(cmp, base, b1, n1, b2, n2, t, tmp). n1 + n2)") auto

declare merge_loop.simps [simp del]

function msort_with_tmp ::
  "('a \<Rightarrow> 'a \<Rightarrow> int) \<Rightarrow> 'a list \<Rightarrow> 'a list \<Rightarrow> nat \<Rightarrow> nat \<Rightarrow> ('a list \<times> 'a list) option" where
  "msort_with_tmp cmp base t b n =
     (if n \<le> 1 then Some (base, t)
      else do { (base, t) \<leftarrow> msort_with_tmp cmp base t b (n div 2);
                (base, t) \<leftarrow> msort_with_tmp cmp base t (b + n div 2) (n - n div 2);
                (b1, n1, n2, t, tmp) \<leftarrow> merge_loop cmp base b (n div 2) (b + n div 2) (n - n div 2) t 0;
                t \<leftarrow> (if 0 < n1 then memcpy t tmp base b1 n1 else Some t);
                base \<leftarrow> memcpy base b t 0 (n - n2);
                Some (base, t) })"
  by pat_completeness auto
termination
  by (relation "measure (\<lambda>(cmp, base, t, b, n). n)") auto

declare msort_with_tmp.simps [simp del]

text \<open>
  Indirect sorting.  \<open>tp\<close> is the array of pointers into the array, as indices.  The inner loop
  moves the elements of one cycle of the permutation; it need not return when \<open>tp\<close> is not a
  permutation.
\<close>

fun fill_pointers :: "nat list \<Rightarrow> nat \<Rightarrow> nat \<Rightarrow> nat list option" where
  "fill_pointers tp i 0 = Some tp"
| "fill_pointers tp i (Suc k) = do { tp \<leftarrow> wr tp i i; fill_pointers tp (i + 1) k }"

partial_function (option) cycle_loop ::
  "'a list \<Rightarrow> nat list \<Rightarrow> nat \<Rightarrow> nat \<Rightarrow> nat \<Rightarrow> ('a list \<times> nat list \<times> nat) option" where
  "cycle_loop base tp ip j kp =
     do { tp \<leftarrow> wr tp j j;
          x \<leftarrow> rd base kp;
          base \<leftarrow> wr base j x;
          kp' \<leftarrow> rd tp kp;
          if kp' \<noteq> ip then cycle_loop base tp ip kp kp' else Some (base, tp, kp) }"

declare cycle_loop.simps [code]

fun permute_loop :: "'a list \<Rightarrow> nat list \<Rightarrow> nat \<Rightarrow> nat \<Rightarrow> 'a list option" where
  "permute_loop base tp i 0 = Some base"
| "permute_loop base tp i (Suc k) =
     do { kp \<leftarrow> rd tp i;
          if kp \<noteq> i
          then do { tmp_storage \<leftarrow> rd base i;
                    (base, tp, j) \<leftarrow> cycle_loop base tp i i kp;
                    tp \<leftarrow> wr tp j j;
                    base \<leftarrow> wr base j tmp_storage;
                    permute_loop base tp (i + 1) k }
          else permute_loop base tp (i + 1) k }"

definition indirect_msort_with_tmp ::
  "('a \<Rightarrow> 'a \<Rightarrow> int) \<Rightarrow> 'a list \<Rightarrow> nat list \<Rightarrow> nat list \<Rightarrow> nat \<Rightarrow> 'a list option" where
  "indirect_msort_with_tmp cmp base t tp n =
     do { tp \<leftarrow> fill_pointers tp 0 n;
          (tp, t) \<leftarrow> msort_with_tmp (\<lambda>p q. cmp (base ! p) (base ! q)) tp t 0 n;
          permute_loop base tp 0 n }"

definition QSORT_STACK_SIZE :: nat where
  "QSORT_STACK_SIZE = 1024"

definition INDIRECT_SORT_SIZE_THRES :: nat where
  "INDIRECT_SORT_SIZE_THRES = 32"

text \<open>
  \<open>__qsort_r\<close>.  \<open>malloc_ok\<close> tells whether the allocation of the buffer succeeds; \<open>t\<close>, \<open>pt\<close> and
  \<open>pt'\<close> are the uninitialised contents of the buffer, seen as elements or as two arrays of
  pointers.  A pointer has 8 bytes.
\<close>

definition qsort_total_size :: "nat \<Rightarrow> nat \<Rightarrow> nat" where
  "qsort_total_size total_elems sz =
     (if INDIRECT_SORT_SIZE_THRES < sz then 2 * total_elems * 8 + sz else total_elems * sz)"

definition qsort_r ::
  "bool \<Rightarrow> 'a list \<Rightarrow> nat list \<Rightarrow> nat list \<Rightarrow> 'a list \<Rightarrow> nat \<Rightarrow> nat \<Rightarrow> ('a \<Rightarrow> 'a \<Rightarrow> int) \<Rightarrow> 'a list option" where
  "qsort_r malloc_ok t pt pt' pbase total_elems sz cmp =
     (if total_elems \<le> 1 then Some pbase
      else if \<not> qsort_total_size total_elems sz \<le> QSORT_STACK_SIZE \<and> \<not> malloc_ok
      then heapsort_r cmp pbase (total_elems - 1)
      else if INDIRECT_SORT_SIZE_THRES < sz
      then indirect_msort_with_tmp cmp pbase pt pt' total_elems
      else do { (base, t) \<leftarrow> msort_with_tmp cmp pbase t 0 total_elems; Some base })"

subsection \<open>Exchange on bytes refines exchange on elements\<close>

definition exchanged :: "nat \<Rightarrow> byte list \<Rightarrow> nat \<Rightarrow> nat \<Rightarrow> byte list \<Rightarrow> bool" where
  "exchanged w mem p q mem' \<longleftrightarrow> length mem' = length mem \<and>
     (\<forall>i < length mem. mem' ! i = (if p \<le> i \<and> i < p + w then mem ! (i - p + q)
        else if q \<le> i \<and> i < q + w then mem ! (i - q + p) else mem ! i))"

definition disjoint_blocks :: "nat \<Rightarrow> nat \<Rightarrow> nat \<Rightarrow> nat \<Rightarrow> bool" where
  "disjoint_blocks len w p q \<longleftrightarrow> p + w \<le> len \<and> q + w \<le> len \<and> (p + w \<le> q \<or> q + w \<le> p)"

lemma exchange_correct:
  assumes "disjoint_blocks (length mem) w p q"
  shows "\<exists>mem'. exchange w mem p q = Some mem' \<and> exchanged w mem p q mem'"
proof -
  let ?t = "take w (drop p mem)" and ?u = "take w (drop q mem)"
  have len: "length ?t = w" "length ?u = w" "p + w \<le> length mem" "q + w \<le> length mem"
    using assms by (auto simp: disjoint_blocks_def)
  have "exchange w mem p q = Some (overlay (overlay mem p ?u) q ?t)"
    using len by (simp add: exchange_def load_def store_def)
  moreover have "exchanged w mem p q (overlay (overlay mem p ?u) q ?t)"
    using assms len by (auto simp: exchanged_def nth_overlay disjoint_blocks_def add.commute)
  ultimately show ?thesis by blast
qed

lemma exchanged_0: "exchanged 0 mem p q mem' \<longleftrightarrow> mem' = mem"
  by (auto simp: exchanged_def list_eq_iff_nth_eq)

text \<open>Two blocks can be exchanged in two parts, in either order.\<close>

lemma exchanged_high_low:
  assumes "exchanged k mem (a + m) (b + m) mem1" "exchanged m mem1 a b mem2"
    and "disjoint_blocks (length mem) (m + k) a b"
  shows "exchanged (m + k) mem a b mem2"
  using assms by (auto simp: exchanged_def disjoint_blocks_def)

lemma exchanged_low_high:
  assumes "exchanged m mem a b mem1" "exchanged k mem1 (a + m) (b + m) mem2"
    and "disjoint_blocks (length mem) (m + k) a b"
  shows "exchanged (m + k) mem a b mem2"
  using assms by (auto simp: exchanged_def disjoint_blocks_def)

lemma exchanged_length: "exchanged w mem p q mem' \<Longrightarrow> length mem' = length mem"
  by (simp add: exchanged_def)

lemma swap_words_correct:
  "0 < w \<Longrightarrow> disjoint_blocks (length mem) (w * Suc c) a b \<Longrightarrow>
     \<exists>mem'. swap_words w mem a b (w * Suc c) = Some mem' \<and> exchanged (w * Suc c) mem a b mem'"
proof (induction c arbitrary: mem)
  case 0
  then obtain mem' where "exchange w mem a b = Some mem'" "exchanged w mem a b mem'"
    using exchange_correct [of mem w a b] by auto
  with 0 show ?case by (subst swap_words.simps) simp
next
  case (Suc c)
  have "disjoint_blocks (length mem) w (a + w * Suc c) (b + w * Suc c)"
    using Suc.prems(2) by (auto simp: disjoint_blocks_def)
  then obtain m1 where m1: "exchange w mem (a + w * Suc c) (b + w * Suc c) = Some m1"
    "exchanged w mem (a + w * Suc c) (b + w * Suc c) m1" using exchange_correct by blast
  have "disjoint_blocks (length m1) (w * Suc c) a b"
    using Suc.prems(2) exchanged_length [OF m1(2)] by (auto simp: disjoint_blocks_def)
  with Suc.IH Suc.prems(1) obtain m2 where m2: "swap_words w m1 a b (w * Suc c) = Some m2"
    "exchanged (w * Suc c) m1 a b m2" by blast
  have sz: "w * Suc (Suc c) = w * Suc c + w" by simp
  have "exchanged (w * Suc c + w) mem a b m2"
    using exchanged_high_low [OF m1(2) m2(2)] Suc.prems(2) by (simp only: sz)
  moreover have "swap_words w mem a b (w * Suc (Suc c)) = Some m2"
    using m1(1) m2(1) Suc.prems(1) unfolding sz by (subst swap_words.simps) simp
  ultimately show ?case unfolding sz by blast
qed

lemma memswap_tail_correct:
  "disjoint_blocks (length mem) n a b \<Longrightarrow> \<exists>mem'. memswap_tail mem a b n = Some mem' \<and> exchanged n mem a b mem'"
proof (induction n arbitrary: mem)
  case 0
  then show ?case by (simp add: exchanged_0)
next
  case (Suc n)
  have "disjoint_blocks (length mem) 1 (a + n) (b + n)" using Suc.prems by (auto simp: disjoint_blocks_def)
  then obtain m1 where m1: "exchange 1 mem (a + n) (b + n) = Some m1" "exchanged 1 mem (a + n) (b + n) m1"
    using exchange_correct by blast
  have "disjoint_blocks (length m1) n a b"
    using Suc.prems exchanged_length [OF m1(2)] by (auto simp: disjoint_blocks_def)
  with Suc.IH obtain m2 where m2: "memswap_tail m1 a b n = Some m2" "exchanged n m1 a b m2" by blast
  with exchanged_high_low [OF m1(2) m2(2)] m1(1) Suc.prems show ?case by simp
qed

lemma memswap_correct:
  "disjoint_blocks (length mem) n a b \<Longrightarrow> \<exists>mem'. memswap mem a b n = Some mem' \<and> exchanged n mem a b mem'"
proof (induction n arbitrary: mem a b rule: less_induct)
  case (less n)
  show ?case
  proof (cases "32 < n")
    case False
    with memswap_tail_correct [OF less.prems] show ?thesis
      by (subst memswap.simps) (simp add: SWAP_GENERIC_SIZE_def)
  next
    case True
    then have "disjoint_blocks (length mem) 32 a b" using less.prems by (auto simp: disjoint_blocks_def)
    then obtain m1 where m1: "exchange 32 mem a b = Some m1" "exchanged 32 mem a b m1"
      using exchange_correct by blast
    have "disjoint_blocks (length m1) (n - 32) (a + 32) (b + 32)"
      using less.prems True exchanged_length [OF m1(2)] by (auto simp: disjoint_blocks_def)
    with less.IH [of "n - 32" m1] True obtain m2
      where m2: "memswap m1 (a + 32) (b + 32) (n - 32) = Some m2" "exchanged (n - 32) m1 (a + 32) (b + 32) m2"
      by (auto simp: less.prems)
    have "exchanged (32 + (n - 32)) mem a b m2"
      using True less.prems by (intro exchanged_low_high [OF m1(2) m2(2)]) simp
    with m1(1) m2(1) True show ?thesis by (subst memswap.simps) (simp add: SWAP_GENERIC_SIZE_def)
  qed
qed

lemma get_swap_type_cases:
  "get_swap_type pbase sz = SWAP_WORDS_64 \<and> sz = 8 \<or> get_swap_type pbase sz = SWAP_WORDS_32 \<and> sz = 4 \<or>
     get_swap_type pbase sz = SWAP_BYTES"
  by (simp add: get_swap_type_def)

lemma do_swap_exchanges:
  assumes "0 < sz" "disjoint_blocks (length mem) sz a b"
  shows "\<exists>mem'. do_swap mem a b sz (get_swap_type pbase sz) = Some mem' \<and> exchanged sz mem a b mem'"
proof -
  consider (w64) "get_swap_type pbase sz = SWAP_WORDS_64" "sz = 8"
    | (w32) "get_swap_type pbase sz = SWAP_WORDS_32" "sz = 4" | (bytes) "get_swap_type pbase sz = SWAP_BYTES"
    using get_swap_type_cases by blast
  then show ?thesis
  proof cases
    case w64
    with swap_words_correct [of 8 mem 0 a b] assms show ?thesis by (simp add: do_swap_def swap_words_64_def)
  next
    case w32
    with swap_words_correct [of 4 mem 0 a b] assms show ?thesis by (simp add: do_swap_def swap_words_32_def)
  next
    case bytes
    with memswap_correct assms show ?thesis by (simp add: do_swap_def)
  qed
qed

text \<open>The array of elements that a run of bytes holds.\<close>

definition blocks :: "nat \<Rightarrow> byte list \<Rightarrow> byte list list" where
  "blocks sz mem = map (\<lambda>i. take sz (drop (i * sz) mem)) [0..<length mem div sz]"

lemma block_in: "i < n div sz \<Longrightarrow> i * sz + sz \<le> (n :: nat)"
  by (metis add.commute less_eq_div_iff_mult_less_eq mult_Suc Suc_leI bot_nat_0.not_eq_extremum div_by_0 not_less_zero)

lemma blocks_apart:
  assumes "i \<noteq> (j :: nat)"
  shows "i * sz + sz \<le> j * sz \<or> j * sz + sz \<le> i * sz"
proof (cases "i < j")
  case True
  then have "Suc i * sz \<le> j * sz" by (intro mult_le_mono1) simp
  then show ?thesis by simp
next
  case False
  with assms have "Suc j * sz \<le> i * sz" by (intro mult_le_mono1) simp
  then show ?thesis by simp
qed

lemma block_of_exchanged:
  assumes "exchanged sz mem (i * sz) (j * sz) mem'" "i \<noteq> j" "k < length mem div sz" "i < length mem div sz" "j < length mem div sz"
  shows "take sz (drop (k * sz) mem') = take sz (drop ((if k = i then j else if k = j then i else k) * sz) mem)"
proof (rule nth_equalityI)
  note in_k = block_in [OF assms(3)] and in_i = block_in [OF assms(4)] and in_j = block_in [OF assms(5)]
  have len: "length mem' = length mem" using assms(1) by (rule exchanged_length)
  show "length (take sz (drop (k * sz) mem')) = length (take sz (drop ((if k = i then j else if k = j then i else k) * sz) mem))"
    using in_k in_i in_j len by auto
  fix x
  assume "x < length (take sz (drop (k * sz) mem'))"
  then have x: "x < sz" by simp
  have "mem' ! (k * sz + x) = mem ! ((if k = i then j else if k = j then i else k) * sz + x)"
    using assms(1) x in_k blocks_apart [of k i sz] blocks_apart [of k j sz] blocks_apart [OF assms(2), of sz]
    by (auto simp: exchanged_def add.commute)
  with x in_k in_i in_j len show "take sz (drop (k * sz) mem') ! x =
      take sz (drop ((if k = i then j else if k = j then i else k) * sz) mem) ! x"
    by auto
qed

lemma do_swap_swaps_elements:
  assumes "0 < sz" "i \<noteq> j" "i < length mem div sz" "j < length mem div sz"
  shows "\<exists>mem'. do_swap mem (i * sz) (j * sz) sz (get_swap_type pbase sz) = Some mem' \<and>
    length mem' = length mem \<and> swap_at (blocks sz mem) i j = Some (blocks sz mem')"
proof -
  have "disjoint_blocks (length mem) sz (i * sz) (j * sz)"
    using block_in [OF assms(3)] block_in [OF assms(4)] blocks_apart [OF assms(2)] by (simp add: disjoint_blocks_def)
  then obtain mem' where m: "do_swap mem (i * sz) (j * sz) sz (get_swap_type pbase sz) = Some mem'"
    "exchanged sz mem (i * sz) (j * sz) mem'" using do_swap_exchanges [OF assms(1)] by blast
  have "blocks sz mem' = (blocks sz mem)[i := blocks sz mem ! j, j := blocks sz mem ! i]"
    using assms block_of_exchanged [OF m(2) assms(2) _ assms(3,4)] exchanged_length [OF m(2)]
    by (intro nth_equalityI) (auto simp: blocks_def nth_list_update)
  with m assms exchanged_length [OF m(2)] show ?thesis by (simp add: swap_at_in blocks_def)
qed

subsection \<open>Heap sort\<close>

definition heap_at :: "('a \<Rightarrow> 'a \<Rightarrow> int) \<Rightarrow> 'a list \<Rightarrow> nat \<Rightarrow> nat \<Rightarrow> bool" where
  "heap_at cmp base n i \<longleftrightarrow> (2 * i + 1 \<le> n \<longrightarrow> 0 \<le> cmp (base ! i) (base ! (2 * i + 1))) \<and>
     (2 * i + 2 \<le> n \<longrightarrow> 0 \<le> cmp (base ! i) (base ! (2 * i + 2)))"

text \<open>
  The state of \<open>siftdown\<close>: the heap condition holds from \<open>k0\<close> on except at \<open>k\<close>, and the parent of
  \<open>k\<close> dominates the children of \<open>k\<close>.
\<close>

definition sifting :: "('a \<Rightarrow> 'a \<Rightarrow> int) \<Rightarrow> 'a list \<Rightarrow> nat \<Rightarrow> nat \<Rightarrow> nat \<Rightarrow> bool" where
  "sifting cmp base n k0 k \<longleftrightarrow> k0 \<le> k \<and> (\<forall>i \<ge> k0. i \<noteq> k \<longrightarrow> heap_at cmp base n i) \<and>
     (\<forall>p \<ge> k0. (k = 2 * p + 1 \<or> k = 2 * p + 2) \<longrightarrow>
        (2 * k + 1 \<le> n \<longrightarrow> 0 \<le> cmp (base ! p) (base ! (2 * k + 1))) \<and>
        (2 * k + 2 \<le> n \<longrightarrow> 0 \<le> cmp (base ! p) (base ! (2 * k + 2))))"

text \<open>The child \<open>siftdown\<close> looks at.\<close>

definition larger_child :: "('a \<Rightarrow> 'a \<Rightarrow> int) \<Rightarrow> 'a list \<Rightarrow> nat \<Rightarrow> nat \<Rightarrow> nat" where
  "larger_child cmp base n k =
     (if 2 * k + 1 < n \<and> cmp (base ! (2 * k + 1)) (base ! (2 * k + 2)) < 0 then 2 * k + 2 else 2 * k + 1)"

lemma siftdown_step:
  assumes "n < length base"
  shows "siftdown cmp base k n =
    (if 2 * k + 1 \<le> n then
       (if 0 \<le> cmp (base ! k) (base ! larger_child cmp base n k) then Some base
        else siftdown cmp (base[larger_child cmp base n k := base ! k, k := base ! larger_child cmp base n k])
          (larger_child cmp base n k) n)
     else Some base)"
  using assms by (subst siftdown.simps) (auto simp: cmp_at_in swap_at_in larger_child_def Let_def)

lemma larger_child_cases:
  "larger_child cmp base n k = 2 * k + 1 \<or> larger_child cmp base n k = 2 * k + 2 \<and> 2 * k + 2 \<le> n"
  by (simp add: larger_child_def)

lemma larger_child_range: "2 * k + 1 \<le> n \<Longrightarrow> k < larger_child cmp base n k \<and> larger_child cmp base n k \<le> n"
  by (simp add: larger_child_def)

lemma mset_swapped:
  "i < length xs \<Longrightarrow> j < length xs \<Longrightarrow> mset (xs[i := xs ! j, j := xs ! i]) = mset xs"
  by (rule mset_swap)

lemma swap_at_0:
  assumes "m < length base"
  shows "swap_at base 0 m = Some (base[0 := base ! m, m := base ! 0])"
    and "mset (base[0 := base ! m, m := base ! 0]) = mset base"
proof -
  have "0 < length base" using assms by linarith
  with assms show "swap_at base 0 m = Some (base[0 := base ! m, m := base ! 0])"
    "mset (base[0 := base ! m, m := base ! 0]) = mset base"
    using swap_at_in mset_swapped by blast+
qed

context ordering_fn
begin

lemma larger_child_dominates:
  "2 * k + 1 \<le> n \<Longrightarrow> 0 \<le> cmp (base ! larger_child cmp base n k) (base ! (2 * k + 1))"
  "2 * k + 2 \<le> n \<Longrightarrow> 0 \<le> cmp (base ! larger_child cmp base n k) (base ! (2 * k + 2))"
  using cmp_flip by (force simp: larger_child_def)+

lemma sifting_done:
  assumes "sifting cmp base n k0 k" "n < 2 * k + 1 \<or> 0 \<le> cmp (base ! k) (base ! larger_child cmp base n k)" "k0 \<le> i"
  shows "heap_at cmp base n i"
proof (cases "i = k")
  case False
  with assms show ?thesis by (simp add: sifting_def)
next
  case True
  have "0 \<le> cmp (base ! k) (base ! c)" if "c = 2 * k + 1 \<or> c = 2 * k + 2" "c \<le> n" for c
  proof -
    have "0 \<le> cmp (base ! larger_child cmp base n k) (base ! c)"
      using larger_child_dominates [of k n base] that by auto
    moreover have "0 \<le> cmp (base ! k) (base ! larger_child cmp base n k)" using assms(2) that by auto
    ultimately show ?thesis using cmp_le_flip cmp_trans by blast
  qed
  with True show ?thesis by (simp add: heap_at_def)
qed

lemma sifting_step:
  assumes "sifting cmp base n k0 k" "2 * k + 1 \<le> n" "n < length base"
    and neg: "cmp (base ! k) (base ! larger_child cmp base n k) < 0"
  shows "sifting cmp (base[larger_child cmp base n k := base ! k, k := base ! larger_child cmp base n k]) n k0
    (larger_child cmp base n k)"
proof -
  define j where "j = larger_child cmp base n k"
  let ?b = "base[j := base ! k, k := base ! j]"
  have j: "k < j" "j \<le> n" using larger_child_range [OF assms(2)] by (auto simp: j_def)
  have jc: "j = 2 * k + 1 \<or> j = 2 * k + 2" using larger_child_cases by (auto simp: j_def)
  have nth: "?b ! i = (if i = k then base ! j else if i = j then base ! k else base ! i)" for i
    using j assms(3) by (simp add: nth_list_update)
  have old: "heap_at cmp base n i" if "k0 \<le> i" "i \<noteq> k" for i using assms(1) that by (simp add: sifting_def)
  have dom: "0 \<le> cmp (base ! j) (base ! (2 * k + 1))" "2 * k + 2 \<le> n \<Longrightarrow> 0 \<le> cmp (base ! j) (base ! (2 * k + 2))"
    using larger_child_dominates [of k n base] assms(2) by (auto simp: j_def)
  have jk: "0 \<le> cmp (base ! j) (base ! k)" using neg cmp_flip by (force simp: j_def)
  have k0: "k0 \<le> k" using assms(1) by (simp add: sifting_def)
  have "heap_at cmp ?b n i" if i: "k0 \<le> i" "i \<noteq> j" for i
  proof (cases "i = k")
    case True
    with jc dom jk show ?thesis by (auto simp: heap_at_def nth)
  next
    case False
    have par: "0 \<le> cmp (base ! i) (base ! j)" if "k = 2 * i + 1 \<or> k = 2 * i + 2"
      using assms(1) i(1) that jc j(2) by (auto simp: sifting_def)
    from old [OF i(1) False] par False i(2) jc j show ?thesis
      by (auto simp: heap_at_def nth)
  qed
  moreover have "(2 * j + 1 \<le> n \<longrightarrow> 0 \<le> cmp (?b ! p) (?b ! (2 * j + 1))) \<and>
      (2 * j + 2 \<le> n \<longrightarrow> 0 \<le> cmp (?b ! p) (?b ! (2 * j + 2)))" if "j = 2 * p + 1 \<or> j = 2 * p + 2" for p
  proof -
    have "p = k" using that jc by auto
    with old [of j] k0 j show ?thesis by (auto simp: heap_at_def nth)
  qed
  ultimately show ?thesis using k0 j(1) unfolding j_def [symmetric] sifting_def by auto
qed

lemma siftdown_correct:
  "sifting cmp base n k0 k \<Longrightarrow> n < length base \<Longrightarrow>
     \<exists>base'. siftdown cmp base k n = Some base' \<and> mset base' = mset base \<and> length base' = length base \<and>
       drop (Suc n) base' = drop (Suc n) base \<and> (\<forall>i \<ge> k0. heap_at cmp base' n i)"
proof (induction "n - k" arbitrary: base k rule: less_induct)
  case less
  show ?case
  proof (cases "2 * k + 1 \<le> n \<and> cmp (base ! k) (base ! larger_child cmp base n k) < 0")
    case False
    with sifting_done [OF less.prems(1)] less.prems(2) show ?thesis
      by (subst siftdown_step) auto
  next
    case True
    define j where "j = larger_child cmp base n k"
    define b where "b = base[j := base ! k, k := base ! j]"
    have j: "k < j" "j \<le> n" using True larger_child_range [of k n] by (auto simp: j_def)
    have step: "siftdown cmp base k n = siftdown cmp b j n"
      using True less.prems(2) by (subst siftdown_step) (auto simp: j_def b_def)
    have "sifting cmp b n k0 j" using True less.prems sifting_step unfolding b_def j_def by blast
    moreover have "n - j < n - k" "n < length b" using j less.prems(2) by (auto simp: b_def)
    ultimately obtain base' where
      "siftdown cmp b j n = Some base'" "mset base' = mset b" "length base' = length b"
      "drop (Suc n) base' = drop (Suc n) b" "\<forall>i \<ge> k0. heap_at cmp base' n i"
      using less.hyps [of j b] by blast
    moreover have "mset b = mset base" unfolding b_def using j less.prems(2) by (intro mset_swapped) auto
    ultimately show ?thesis using step j by (auto simp: b_def)
  qed
qed

lemma heapify_loop_correct:
  "n < length base \<Longrightarrow> \<forall>i > k. heap_at cmp base n i \<Longrightarrow>
     \<exists>base'. heapify_loop cmp base n k = Some base' \<and> mset base' = mset base \<and> length base' = length base \<and>
       drop (Suc n) base' = drop (Suc n) base \<and> (\<forall>i. heap_at cmp base' n i)"
proof (induction k arbitrary: base)
  case 0
  then have "sifting cmp base n 0 0" by (auto simp: sifting_def)
  from siftdown_correct [OF this 0(1)] show ?case by (subst heapify_loop.simps) auto
next
  case (Suc k)
  then have "sifting cmp base n (Suc k) (Suc k)" by (auto simp: sifting_def)
  from siftdown_correct [OF this Suc.prems(1)] obtain b where
    b: "siftdown cmp base (Suc k) n = Some b" "mset b = mset base" "length b = length base"
      "drop (Suc n) b = drop (Suc n) base" "\<forall>i \<ge> Suc k. heap_at cmp b n i" by blast
  with Suc.IH [of b] Suc.prems(1) show ?case by (subst heapify_loop.simps) (auto simp: Suc_le_eq)
qed

lemma heap_root_max: "\<forall>i. heap_at cmp base n i \<Longrightarrow> i \<le> n \<Longrightarrow> 0 \<le> cmp (base ! 0) (base ! i)"
proof (induction i rule: less_induct)
  case (less i)
  show ?case
  proof (cases "i = 0")
    case False
    define p where "p = (i - 1) div 2"
    have p: "p < i" "i = 2 * p + 1 \<or> i = 2 * p + 2" using False by (auto simp: p_def)
    have "0 \<le> cmp (base ! p) (base ! i)" using less.prems p by (auto simp: heap_at_def)
    moreover have "0 \<le> cmp (base ! 0) (base ! p)" using less p(1) by auto
    ultimately show ?thesis using cmp_le_flip cmp_trans by blast
  qed simp
qed

text \<open>The invariant of the extraction loop: a heap, then the largest elements in order.\<close>

lemma mset_take_of_drop:
  assumes "mset xs = mset ys" "drop n xs = drop n ys"
  shows "mset (take n xs) = mset (take n ys)"
  using assms by (metis add_right_cancel append_take_drop_id mset_append)

definition extracting :: "'a list \<Rightarrow> nat \<Rightarrow> bool" where
  "extracting base m \<longleftrightarrow> in_order cmp (drop m base) \<and>
     (\<forall>x \<in> set (take m base). \<forall>y \<in> set (drop m base). cmp x y \<le> 0)"

lemma extracting_perm:
  assumes "extracting base m" "mset base' = mset base" "drop m base' = drop m base"
  shows "extracting base' m"
  using assms mset_eq_setD [OF mset_take_of_drop [OF assms(2,3)]] by (simp add: extracting_def)

lemma extracting_1: "extracting base (Suc 0) \<Longrightarrow> in_order cmp base"
  by (cases base) (auto simp: extracting_def in_order_def)

lemma extract_max:
  assumes "m < length base" "0 < m" "\<forall>i. heap_at cmp base m i" "extracting base (Suc m)"
  defines "b \<equiv> base[0 := base ! m, m := base ! 0]"
  shows "extracting b m" and "sifting cmp b (m - 1) 0 0"
proof -
  have dr: "drop m b = base ! 0 # drop (Suc m) base"
    using assms(1,2) by (simp add: b_def Cons_nth_drop_Suc [symmetric])
  have top: "base ! 0 \<in> set (take (Suc m) base)" using assms(1) by (auto simp: in_set_conv_nth intro: exI [of _ 0])
  have tk: "\<exists>i \<le> m. x = base ! i" if "x \<in> set (take m b)" for x
  proof -
    from that obtain i where "i < m" "x = b ! i" by (auto simp: in_set_conv_nth)
    moreover have "base \<noteq> []" using assms(1) by auto
    ultimately have "x = base ! (if i = 0 then m else i)" by (simp add: b_def nth_list_update)
    with \<open>i < m\<close> show ?thesis by (intro exI [of _ "if i = 0 then m else i"]) simp
  qed
  have "cmp x y \<le> 0" if "x \<in> set (take m b)" "y \<in> set (drop m b)" for x y
  proof -
    from tk [OF that(1)] obtain i where i: "i \<le> m" "x = base ! i" by blast
    have "x \<in> set (take (Suc m) base)" using i assms(1) by (auto simp: in_set_conv_nth intro: exI [of _ i])
    moreover have "cmp x (base ! 0) \<le> 0" using heap_root_max [OF assms(3) i(1)] cmp_le_flip i(2) by blast
    ultimately show ?thesis using that(2) assms(4) dr by (auto simp: extracting_def)
  qed
  moreover have "in_order cmp (drop m b)"
    using assms(4) top dr by (auto simp: extracting_def in_order_def)
  ultimately show "extracting b m" by (simp add: extracting_def)
  have "heap_at cmp b (m - 1) i" if "0 < i" for i
  proof -
    have "b ! i = base ! i" if "0 < i" "i < m" for i using that by (simp add: b_def)
    with that assms(3) spec [OF assms(3), of i] show ?thesis by (auto simp: heap_at_def)
  qed
  then show "sifting cmp b (m - 1) 0 0" by (auto simp: sifting_def)
qed

lemma heapsort_loop_correct:
  "Suc n < length base \<Longrightarrow> \<forall>i. heap_at cmp base (Suc n) i \<Longrightarrow> extracting base (Suc (Suc n)) \<Longrightarrow>
     \<exists>base'. heapsort_loop cmp base (Suc n) = Some base' \<and> mset base' = mset base \<and> in_order cmp base'"
proof (induction n arbitrary: base)
  case 0
  let ?b = "base[0 := base ! 1, 1 := base ! 0]"
  have "swap_at base 0 1 = Some ?b" "mset ?b = mset base"
    using 0(1) swap_at_0 [of 1 base] by simp_all
  with extracting_1 [of ?b] extract_max(1) [of 1 base] 0 show ?case by simp
next
  case (Suc n)
  let ?b = "base[0 := base ! Suc (Suc n), Suc (Suc n) := base ! 0]"
  have b: "swap_at base 0 (Suc (Suc n)) = Some ?b" "mset ?b = mset base"
    using swap_at_0 [OF Suc.prems(1)] by simp_all
  have ex: "extracting ?b (Suc (Suc n))" "sifting cmp ?b (Suc n) 0 0"
    using extract_max [of "Suc (Suc n)" base] Suc.prems by auto
  from siftdown_correct [OF ex(2)] Suc.prems(1) obtain b' where
    b': "siftdown cmp ?b 0 (Suc n) = Some b'" "mset b' = mset ?b" "length b' = length ?b"
      "drop (Suc (Suc n)) b' = drop (Suc (Suc n)) ?b" "\<forall>i. heap_at cmp b' (Suc n) i" by auto
  have "extracting b' (Suc (Suc n))" using ex(1) b'(2,4) by (rule extracting_perm)
  with Suc.IH [of b'] b b' Suc.prems(1) show ?case by simp
qed

lemma heapsort_r_correct:
  assumes "n < length base" "length base = Suc n"
  shows "\<exists>base'. heapsort_r cmp base n = Some base' \<and> mset base' = mset base \<and> in_order cmp base'"
proof (cases n)
  case 0
  with assms have "in_order cmp base" by (cases base) (auto simp: in_order_def)
  with 0 show ?thesis by (simp add: heapsort_r_def)
next
  case (Suc m)
  have "\<forall>i > n div 2. heap_at cmp base n i" by (auto simp: heap_at_def)
  from heapify_loop_correct [OF assms(1) this] obtain b where
    b: "heapify cmp base n = Some b" "mset b = mset base" "length b = length base" "\<forall>i. heap_at cmp b n i"
    unfolding heapify_def by blast
  have "extracting b (Suc n)" using b(3) assms by (simp add: extracting_def in_order_def)
  with heapsort_loop_correct [of m b] b Suc assms show ?thesis by (simp add: heapsort_r_def)
qed

end

end
