(* ===== verification/Qsort_Merge.thy ===== *)
theory Qsort_Merge
  imports Qsort
begin

text \<open>
  Correctness of the merge sort of \<^verbatim>\<open>src/original/stdlib/qsort.c\<close>, of the rearrangement by cycles in
  indirect sorting, and of \<open>qsort_r\<close> as a whole.  The in-place merge sort is shown equal to the
  textbook functions \<open>merge\<close> and \<open>msort\<close> on lists; those are sorted and stable.
\<close>

subsection \<open>The reference merge sort\<close>

fun merge :: "('a \<Rightarrow> 'a \<Rightarrow> int) \<Rightarrow> 'a list \<Rightarrow> 'a list \<Rightarrow> 'a list" where
  "merge cmp (x # xs) (y # ys) = (if cmp x y \<le> 0 then x # merge cmp xs (y # ys) else y # merge cmp (x # xs) ys)"
| "merge cmp xs [] = xs"
| "merge cmp [] ys = ys"

fun msort :: "('a \<Rightarrow> 'a \<Rightarrow> int) \<Rightarrow> 'a list \<Rightarrow> 'a list" where
  "msort cmp xs =
     (if length xs \<le> 1 then xs
      else merge cmp (msort cmp (take (length xs div 2) xs)) (msort cmp (drop (length xs div 2) xs)))"

declare msort.simps [simp del]

lemma merge_Nil [simp]: "merge cmp [] ys = ys"
  by (cases ys) auto

lemma mset_merge [simp]: "mset (merge cmp xs ys) = mset xs + mset ys"
  by (induction cmp xs ys rule: merge.induct) (auto simp: ac_simps)

lemma mset_msort [simp]: "mset (msort cmp xs) = mset xs"
proof (induction cmp xs rule: msort.induct)
  case (1 cmp xs)
  then show ?case by (subst msort.simps) (simp add: mset_append [symmetric] del: mset_append)
qed

lemma length_merge [simp]: "length (merge cmp xs ys) = length xs + length ys"
  by (metis length_append mset_append mset_eq_length mset_merge)

lemma length_msort [simp]: "length (msort cmp xs) = length xs"
  by (metis mset_eq_length mset_msort)

lemma set_merge [simp]: "set (merge cmp xs ys) = set xs \<union> set ys"
  by (metis mset_merge set_mset_mset set_mset_union)

lemma set_msort [simp]: "set (msort cmp xs) = set xs"
  by (metis mset_msort set_mset_mset)

lemma merge_map: "merge cmp (map f xs) (map f ys) = map f (merge (\<lambda>p q. cmp (f p) (f q)) xs ys)"
  by (induction "\<lambda>p q. cmp (f p) (f q)" xs ys rule: merge.induct) auto

lemma msort_map: "msort cmp (map f xs) = map f (msort (\<lambda>p q. cmp (f p) (f q)) xs)"
proof (induction xs rule: length_induct)
  case (1 xs)
  show ?case
  proof (cases "length xs \<le> 1")
    case True
    then show ?thesis by (simp add: msort.simps)
  next
    case False
    with 1 show ?thesis
      by (subst (1 2) msort.simps) (simp add: take_map drop_map merge_map)
  qed
qed

text \<open>Elements that compare equal keep their order.\<close>

definition stable :: "('a \<Rightarrow> 'a \<Rightarrow> int) \<Rightarrow> 'a list \<Rightarrow> 'a list \<Rightarrow> bool" where
  "stable cmp xs ys \<longleftrightarrow> (\<forall>z. filter (\<lambda>x. cmp z x = 0) ys = filter (\<lambda>x. cmp z x = 0) xs)"

context ordering_fn
begin

lemma in_order_Cons: "in_order cmp (x # xs) \<longleftrightarrow> (\<forall>y \<in> set xs. cmp x y \<le> 0) \<and> in_order cmp xs"
  by (simp add: in_order_def)

lemma in_order_merge: "in_order cmp xs \<Longrightarrow> in_order cmp ys \<Longrightarrow> in_order cmp (merge cmp xs ys)"
proof (induction "length xs + length ys" arbitrary: xs ys rule: less_induct)
  case less
  show ?case
  proof (cases "xs = [] \<or> ys = []")
    case True
    with less.prems show ?thesis by (cases xs) auto
  next
    case False
    then obtain x xs' y ys' where eq: "xs = x # xs'" "ys = y # ys'" by (meson neq_Nil_conv)
    show ?thesis
    proof (cases "cmp x y \<le> 0")
      case True
      moreover have "cmp x z \<le> 0" if "z \<in> set ys'" for z
        using True less.prems(2) that cmp_trans [of x y z] by (simp add: eq in_order_Cons)
      ultimately show ?thesis using less.prems less.hyps [of xs' ys] by (auto simp: eq in_order_Cons)
    next
      case False
      then have "cmp y x \<le> 0" using cmp_total by blast
      moreover have "cmp y z \<le> 0" if "z \<in> set xs'" for z
        using \<open>cmp y x \<le> 0\<close> less.prems(1) that cmp_trans [of y x z] by (simp add: eq in_order_Cons)
      ultimately show ?thesis using False less.prems less.hyps [of xs ys'] by (auto simp: eq in_order_Cons)
    qed
  qed
qed

lemma in_order_msort: "in_order cmp (msort cmp xs)"
proof (induction xs rule: length_induct)
  case (1 xs)
  show ?case
  proof (cases "length xs \<le> 1")
    case True
    then show ?thesis by (cases xs) (auto simp: msort.simps in_order_def)
  next
    case False
    with 1 show ?thesis by (subst msort.simps) (simp add: in_order_merge)
  qed
qed

lemma filter_merge:
  "in_order cmp xs \<Longrightarrow> filter (\<lambda>x. cmp z x = 0) (merge cmp xs ys) = filter (\<lambda>x. cmp z x = 0) xs @ filter (\<lambda>x. cmp z x = 0) ys"
proof (induction "length xs + length ys" arbitrary: xs ys rule: less_induct)
  case less
  show ?case
  proof (cases "xs = [] \<or> ys = []")
    case True
    then show ?thesis by (cases xs) auto
  next
    case False
    then obtain x xs' y ys' where eq: "xs = x # xs'" "ys = y # ys'" by (meson neq_Nil_conv)
    show ?thesis
    proof (cases "cmp x y \<le> 0")
      case True
      with less.hyps [of xs' ys] less.prems show ?thesis by (simp add: eq in_order_Cons)
    next
      case gt: False
      have "filter (\<lambda>x. cmp z x = 0) xs = []" if "cmp z y = 0"
      proof -
        have "cmp z w \<noteq> 0" if "w \<in> set xs" for w
        proof -
          have "cmp y x < 0" using gt cmp_flip [of y x] by simp
          moreover have "cmp x w \<le> 0" using less.prems that by (auto simp: eq in_order_Cons)
          ultimately have "cmp y w < 0" by (rule cmp_less_le_trans)
          with cmp_le_less_trans [of z y w] \<open>cmp z y = 0\<close> show ?thesis by simp
        qed
        then show ?thesis by (simp add: filter_empty_conv)
      qed
      with less.hyps [of xs ys'] less.prems gt show ?thesis by (simp add: eq)
    qed
  qed
qed

lemma stable_msort: "stable cmp xs (msort cmp xs)"
proof (induction xs rule: length_induct)
  case (1 xs)
  show ?case
  proof (cases "length xs \<le> 1")
    case True
    then show ?thesis by (simp add: msort.simps stable_def)
  next
    case False
    with 1 have "stable cmp (take (length xs div 2) xs) (msort cmp (take (length xs div 2) xs))"
      "stable cmp (drop (length xs div 2) xs) (msort cmp (drop (length xs div 2) xs))" by auto
    with False show ?thesis
      by (subst msort.simps) (simp add: stable_def filter_merge in_order_msort filter_append [symmetric] del: filter_append)
  qed
qed

end

subsection \<open>The in-place merge sort equals the reference\<close>

lemma take_drop_Cons:
  assumes "take (Suc n) (drop b xs) = x # ys"
  shows "b < length xs" "xs ! b = x" "take n (drop (Suc b) xs) = ys"
proof -
  show b: "b < length xs" using assms by (cases "b < length xs") auto
  from assms show "xs ! b = x" "take n (drop (Suc b) xs) = ys"
    unfolding Cons_nth_drop_Suc [OF b, symmetric] by simp_all
qed

lemma overlay_first:
  "tmp + Suc (length M) \<le> length t \<Longrightarrow> overlay (overlay t tmp [x]) (Suc tmp) M = overlay t tmp (x # M)"
  using overlay_overlay [of tmp "[x]" M t] by simp

text \<open>
  The merging loop leaves \<open>M\<close> in the temporary storage; one of the two inputs is used up, and what
  is left of the other, \<open>xs'\<close> or \<open>ys'\<close>, completes the merge.
\<close>

lemma merge_loop_correct:
  assumes "take n1 (drop b1 base) = xs" "length xs = n1" "take n2 (drop b2 base) = ys" "length ys = n2"
    and "tmp + n1 + n2 \<le> length t"
  shows "\<exists>M xs' ys'. merge_loop cmp base b1 n1 b2 n2 t tmp =
      Some (b1 + (n1 - length xs'), length xs', length ys', overlay t tmp M, tmp + length M) \<and>
    merge cmp xs ys = M @ xs' @ ys' \<and> length M + length xs' + length ys' = n1 + n2 \<and>
    length xs' \<le> n1 \<and> length ys' \<le> n2 \<and>
    drop (n1 - length xs') xs = xs' \<and> drop (n2 - length ys') ys = ys' \<and> (xs' = [] \<or> ys' = [])"
  using assms
proof (induction "n1 + n2" arbitrary: b1 n1 xs b2 n2 ys t tmp rule: less_induct)
  case less
  show ?case
  proof (cases "0 < n1 \<and> 0 < n2")
    case False
    then have "xs = [] \<or> ys = []" using less.prems by auto
    with less.prems False show ?thesis
      by (subst merge_loop.simps) (intro exI [of _ "[]"] exI [of _ xs] exI [of _ ys]; auto)
  next
    case True
    then obtain m1 m2 where n: "n1 = Suc m1" "n2 = Suc m2" by (meson gr0_implies_Suc)
    with less.prems obtain x xs1 y ys1 where eq: "xs = x # xs1" "ys = y # ys1"
      by (metis Suc_length_conv)
    note x = take_drop_Cons [OF less.prems(1) [unfolded n eq]] and y = take_drop_Cons [OF less.prems(3) [unfolded n eq]]
    have len: "length xs1 = m1" "length ys1 = m2" "tmp < length t" using less.prems n eq by auto
    have step: "merge_loop cmp base b1 n1 b2 n2 t tmp =
        (if cmp x y \<le> 0 then merge_loop cmp base (b1 + 1) m1 b2 n2 (overlay t tmp [x]) (tmp + 1)
         else merge_loop cmp base b1 n1 (b2 + 1) m2 (overlay t tmp [y]) (tmp + 1))"
      using x y len by (subst merge_loop.simps) (simp add: n rd_in wr_overlay)
    show ?thesis
    proof (cases "cmp x y \<le> 0")
      case True
      have "\<exists>M xs' ys'. merge_loop cmp base (b1 + 1) m1 b2 n2 (overlay t tmp [x]) (tmp + 1) =
          Some (b1 + 1 + (m1 - length xs'), length xs', length ys', overlay (overlay t tmp [x]) (tmp + 1) M, tmp + 1 + length M) \<and>
        merge cmp xs1 ys = M @ xs' @ ys' \<and> length M + length xs' + length ys' = m1 + n2 \<and>
        length xs' \<le> m1 \<and> length ys' \<le> n2 \<and>
        drop (m1 - length xs') xs1 = xs' \<and> drop (n2 - length ys') ys = ys' \<and> (xs' = [] \<or> ys' = [])"
        using x len less.prems n by (intro less.hyps) auto
      then obtain M xs' ys' where M:
        "merge_loop cmp base (b1 + 1) m1 b2 n2 (overlay t tmp [x]) (tmp + 1) =
          Some (b1 + 1 + (m1 - length xs'), length xs', length ys', overlay (overlay t tmp [x]) (tmp + 1) M, tmp + 1 + length M)"
        "merge cmp xs1 ys = M @ xs' @ ys'" "length M + length xs' + length ys' = m1 + n2"
        "length xs' \<le> m1" "length ys' \<le> n2"
        "drop (m1 - length xs') xs1 = xs'" "drop (n2 - length ys') ys = ys'" "xs' = [] \<or> ys' = []" by blast
      then have "overlay (overlay t tmp [x]) (tmp + 1) M = overlay t tmp (x # M)" "drop (n1 - length xs') xs = xs'"
        using less.prems(5) n eq by (auto simp: overlay_first Suc_diff_le)
      with M step True show ?thesis
        by (intro exI [of _ "x # M"] exI [of _ xs'] exI [of _ ys']) (auto simp: n eq Suc_diff_le)
    next
      case False
      have "\<exists>M xs' ys'. merge_loop cmp base b1 n1 (b2 + 1) m2 (overlay t tmp [y]) (tmp + 1) =
          Some (b1 + (n1 - length xs'), length xs', length ys', overlay (overlay t tmp [y]) (tmp + 1) M, tmp + 1 + length M) \<and>
        merge cmp xs ys1 = M @ xs' @ ys' \<and> length M + length xs' + length ys' = n1 + m2 \<and>
        length xs' \<le> n1 \<and> length ys' \<le> m2 \<and>
        drop (n1 - length xs') xs = xs' \<and> drop (m2 - length ys') ys1 = ys' \<and> (xs' = [] \<or> ys' = [])"
        using y len less.prems n by (intro less.hyps) auto
      then obtain M xs' ys' where M:
        "merge_loop cmp base b1 n1 (b2 + 1) m2 (overlay t tmp [y]) (tmp + 1) =
          Some (b1 + (n1 - length xs'), length xs', length ys', overlay (overlay t tmp [y]) (tmp + 1) M, tmp + 1 + length M)"
        "merge cmp xs ys1 = M @ xs' @ ys'" "length M + length xs' + length ys' = n1 + m2"
        "length xs' \<le> n1" "length ys' \<le> m2"
        "drop (n1 - length xs') xs = xs'" "drop (m2 - length ys') ys1 = ys'" "xs' = [] \<or> ys' = []" by blast
      then have "overlay (overlay t tmp [y]) (tmp + 1) M = overlay t tmp (y # M)" "drop (n2 - length ys') ys = ys'"
        using less.prems(5) n eq by (auto simp: overlay_first Suc_diff_le)
      with M step False show ?thesis
        by (intro exI [of _ "y # M"] exI [of _ xs'] exI [of _ ys']) (auto simp: n eq Suc_diff_le)
    qed
  qed
qed

lemma memcpy_into:
  "length ws \<le> length xs \<Longrightarrow> length ws \<le> length t \<Longrightarrow> take (length ws) t = ws \<Longrightarrow>
     memcpy (pre @ xs) (length pre) t 0 (length ws) = Some (pre @ ws @ drop (length ws) xs)"
  by (simp add: memcpy_def)

lemma msort_with_tmp_correct:
  "length xs = n \<Longrightarrow> n \<le> length t \<Longrightarrow>
     \<exists>t'. msort_with_tmp cmp (pre @ xs @ post) t (length pre) n = Some (pre @ msort cmp xs @ post, t') \<and> length t' = length t"
proof (induction n arbitrary: pre xs post t rule: less_induct)
  case (less n)
  show ?case
  proof (cases "n \<le> 1")
    case True
    with less.prems show ?thesis by (subst msort_with_tmp.simps) (simp add: msort.simps)
  next
    case False
    define n1 where "n1 = n div 2"
    define us where "us = msort cmp (take n1 xs)"
    define vs where "vs = msort cmp (drop n1 xs)"
    have n1: "n1 < n" "n - n1 < n" "n1 \<le> n" using False by (auto simp: n1_def)
    have len: "length us = n1" "length vs = n - n1" using less.prems n1 by (auto simp: us_def vs_def)
    have xs: "pre @ xs @ post = pre @ take n1 xs @ drop n1 xs @ post"
      by (metis append.assoc append_take_drop_id)
    obtain t1 where t1: "msort_with_tmp cmp (pre @ xs @ post) t (length pre) n1 = Some (pre @ us @ drop n1 xs @ post, t1)"
      "length t1 = length t"
      using less.IH [of n1 "take n1 xs" t pre "drop n1 xs @ post"] less.prems n1
      unfolding xs us_def by auto
    obtain t2 where t2: "msort_with_tmp cmp (pre @ us @ drop n1 xs @ post) t1 (length pre + n1) (n - n1) =
        Some (pre @ us @ vs @ post, t2)" "length t2 = length t"
      using less.IH [of "n - n1" "drop n1 xs" t1 "pre @ us" post] less.prems n1 t1(2) len(1)
      by (auto simp: vs_def)
    have "\<exists>M us' vs'. merge_loop cmp (pre @ us @ vs @ post) (length pre) n1 (length pre + n1) (n - n1) t2 0 =
        Some (length pre + (n1 - length us'), length us', length vs', overlay t2 0 M, 0 + length M) \<and>
      merge cmp us vs = M @ us' @ vs' \<and> length M + length us' + length vs' = n1 + (n - n1) \<and>
      length us' \<le> n1 \<and> length vs' \<le> n - n1 \<and>
      drop (n1 - length us') us = us' \<and> drop (n - n1 - length vs') vs = vs' \<and> (us' = [] \<or> vs' = [])"
      using len t2(2) less.prems n1 by (intro merge_loop_correct) auto
    then obtain M us' vs' where
      M: "merge_loop cmp (pre @ us @ vs @ post) (length pre) n1 (length pre + n1) (n - n1) t2 0 =
          Some (length pre + (n1 - length us'), length us', length vs', overlay t2 0 M, length M)"
      and mg: "merge cmp us vs = M @ us' @ vs'" and sum: "length M + length us' + length vs' = n"
      and us': "length us' \<le> n1" "drop (n1 - length us') us = us'"
      and vs': "length vs' \<le> n - n1" "drop (n - n1 - length vs') vs = vs'" and one: "us' = [] \<or> vs' = []"
      using n1 by auto
    define t3 where "t3 = overlay t2 0 (M @ us')"
    have t3: "(if 0 < length us' then memcpy (overlay t2 0 M) (length M) (pre @ us @ vs @ post) (length pre + (n1 - length us')) (length us')
        else Some (overlay t2 0 M)) = Some t3"
    proof -
      have "take (length us') (drop (length pre + (n1 - length us')) (pre @ us @ vs @ post)) = us'"
        using us' len(1) by simp
      with sum t2(2) less.prems us'(1) len show ?thesis
        using overlay_overlay [of 0 M us' t2] by (auto simp: t3_def memcpy_overlay)
    qed
    have ms: "msort cmp xs = M @ us' @ vs'"
      using False less.prems mg by (subst msort.simps) (simp add: us_def vs_def n1_def)
    have final: "memcpy (pre @ us @ vs @ post) (length pre) t3 0 (n - length vs') = Some (pre @ msort cmp xs @ post)"
    proof -
      have k: "n - length vs' = length (M @ us')" "n1 \<le> length (M @ us')" using sum vs'(1) n1 by auto
      have "take (length (M @ us')) t3 = M @ us'" "length (M @ us') \<le> length t3"
        using sum t2(2) less.prems take_overlay [of 0 "M @ us'" t2] by (auto simp: t3_def)
      moreover have "drop (length (M @ us')) (us @ vs @ post) = vs' @ post"
      proof -
        have "length (M @ us') - n1 = n - n1 - length vs'" "length (M @ us') \<le> n1 + length vs" using k len by auto
        with k(2) vs'(2) len show ?thesis by (simp del: length_append)
      qed
      moreover have "length (M @ us') \<le> length (us @ vs @ post)" using sum len n1 by simp
      ultimately have "memcpy (pre @ us @ vs @ post) (length pre) t3 0 (length (M @ us')) = Some (pre @ (M @ us') @ vs' @ post)"
        using memcpy_into [of "M @ us'" "us @ vs @ post" t3 pre] by (simp only: simp_thms)
      then show ?thesis unfolding k(1) ms by simp
    qed
    have "length t3 = length t" using sum t2(2) less.prems by (simp add: t3_def)
    with False t1(1) t2(1) M t3 final show ?thesis
      by (subst msort_with_tmp.simps) (simp add: n1_def [symmetric])
  qed
qed

subsection \<open>Rearrangement by cycles\<close>

definition is_perm :: "nat list \<Rightarrow> bool" where
  "is_perm p \<longleftrightarrow> distinct p \<and> set p = {..<length p}"

text \<open>
  \<open>moved p orig S base tp\<close>: the positions in \<open>S\<close> hold their final element and point to themselves,
  the others are as they were.  \<open>settled p D\<close>: \<open>D\<close> is a union of cycles.  \<open>chain p D C i j\<close>: \<open>C\<close>
  are the positions passed on the cycle of \<open>i\<close> when the loop has come to \<open>j\<close>.
\<close>

definition moved :: "nat list \<Rightarrow> 'a list \<Rightarrow> nat set \<Rightarrow> 'a list \<Rightarrow> nat list \<Rightarrow> bool" where
  "moved p orig S base tp \<longleftrightarrow> length base = length p \<and> length tp = length p \<and> length orig = length p \<and>
     (\<forall>x < length p. if x \<in> S then tp ! x = x \<and> base ! x = orig ! (p ! x) else tp ! x = p ! x \<and> base ! x = orig ! x)"

definition settled :: "nat list \<Rightarrow> nat set \<Rightarrow> bool" where
  "settled p D \<longleftrightarrow> D \<subseteq> {..<length p} \<and> (\<forall>x < length p. p ! x \<in> D \<longleftrightarrow> x \<in> D)"

definition chain :: "nat list \<Rightarrow> nat set \<Rightarrow> nat set \<Rightarrow> nat \<Rightarrow> nat \<Rightarrow> bool" where
  "chain p D C i j \<longleftrightarrow> C \<subseteq> {..<length p} \<and> j < length p \<and> j \<notin> D \<union> C \<and> C \<inter> D = {} \<and> i \<in> insert j C \<and>
     (\<forall>x \<in> C. p ! x \<in> insert j C) \<and> (\<forall>y \<in> insert j C - {i}. \<exists>x \<in> C. p ! x = y)"

lemma perm_less: "is_perm p \<Longrightarrow> x < length p \<Longrightarrow> p ! x < length p"
  unfolding is_perm_def by (metis lessThan_iff nth_mem)

lemma perm_inj: "is_perm p \<Longrightarrow> x < length p \<Longrightarrow> y < length p \<Longrightarrow> p ! x = p ! y \<longleftrightarrow> x = y"
  by (auto simp: is_perm_def nth_eq_iff_index_eq)

lemma chain_next:
  assumes "is_perm p" "settled p D" "chain p D C i j" "p ! j \<noteq> i"
  shows "p ! j \<notin> D \<union> C" "p ! j \<noteq> j" "p ! j < length p" "chain p D (insert j C) i (p ! j)"
proof -
  let ?k = "p ! j"
  have j: "j < length p" "j \<notin> D" "j \<notin> C" and C: "C \<subseteq> {..<length p}" "C \<inter> D = {}"
    and pre: "\<And>y. y \<in> insert j C \<Longrightarrow> y \<noteq> i \<Longrightarrow> \<exists>x \<in> C. p ! x = y"
    using assms(3) by (auto simp: chain_def)
  show k: "?k < length p" using perm_less [OF assms(1) j(1)] .
  have "?k \<notin> insert j C"
  proof
    assume "?k \<in> insert j C"
    then obtain x where "x \<in> C" "p ! x = ?k" using pre assms(4) by blast
    with perm_inj [OF assms(1)] C(1) j show False by (metis lessThan_iff subsetD)
  qed
  moreover have "?k \<notin> D" using assms(2) j by (auto simp: settled_def)
  ultimately show "?k \<notin> D \<union> C" "?k \<noteq> j" by auto
  then show "chain p D (insert j C) i ?k"
    using assms(3) j k unfolding chain_def by auto
qed

lemma moved_step:
  assumes "moved p orig S base tp" "j < length p" "j \<notin> S" "p ! j \<notin> S" "p ! j < length p"
  shows "moved p orig (insert j S) (base[j := base ! (p ! j)]) (tp[j := j])"
  using assms by (auto simp: moved_def nth_list_update)

lemma cycle_loop_correct:
  assumes "is_perm p" "settled p D"
  shows "chain p D C i j \<Longrightarrow> p ! j \<noteq> i \<Longrightarrow> moved p orig (D \<union> C) base tp \<Longrightarrow>
    \<exists>base' tp' C' j'. cycle_loop base tp i j (p ! j) = Some (base', tp', j') \<and>
      chain p D C' i j' \<and> p ! j' = i \<and> moved p orig (D \<union> C') base' tp'"
proof (induction "length p - card C" arbitrary: C j base tp rule: less_induct)
  case less
  let ?k = "p ! j"
  note nxt = chain_next [OF assms less.prems(1,2)]
  have j: "j < length p" "j \<notin> D \<union> C" and C: "C \<subseteq> {..<length p}" using less.prems(1) by (auto simp: chain_def)
  have len: "length base = length p" "length tp = length p" using less.prems(3) by (auto simp: moved_def)
  let ?base = "base[j := base ! ?k]" and ?tp = "tp[j := j]"
  have mv: "moved p orig (D \<union> insert j C) ?base ?tp"
    using moved_step [OF less.prems(3) j nxt(1,3)] by simp
  have tpk: "?tp ! ?k = p ! ?k" using less.prems(3) nxt(1-3) by (auto simp: moved_def)
  have step: "cycle_loop base tp i j ?k =
      (if p ! ?k \<noteq> i then cycle_loop ?base ?tp i ?k (p ! ?k) else Some (?base, ?tp, ?k))"
    using j(1) nxt(3) len tpk by (subst cycle_loop.simps) (simp add: rd_in wr_in)
  show ?case
  proof (cases "p ! ?k = i")
    case True
    with step nxt(4) mv show ?thesis by auto
  next
    case False
    have fin: "finite C" using C finite_subset by blast
    have "insert j C \<subseteq> {..<length p}" using C j by auto
    then have "card (insert j C) \<le> length p" by (metis card_lessThan card_mono finite_lessThan)
    then have "length p - card (insert j C) < length p - card C" using fin j(2) by simp
    from less.hyps [OF this nxt(4) False mv] False step show ?thesis by simp
  qed
qed

lemma moved_last:
  assumes "moved p orig S base tp" "j < length p" "v = orig ! (p ! j)"
  shows "moved p orig (insert j S) (base[j := v]) (tp[j := j])"
  using assms by (auto simp: moved_def nth_list_update)

lemma chain_closed:
  assumes "is_perm p" "settled p D" "chain p D C i j" "p ! j = i"
  shows "settled p (insert j (D \<union> C))"
proof -
  have j: "j < length p" and C: "C \<subseteq> {..<length p}" and i: "i \<in> insert j C"
    and img: "\<And>x. x \<in> C \<Longrightarrow> p ! x \<in> insert j C"
    and pre: "\<And>y. y \<in> insert j C \<Longrightarrow> y \<noteq> i \<Longrightarrow> \<exists>x \<in> C. p ! x = y"
    using assms(3) by (auto simp: chain_def)
  have D: "D \<subseteq> {..<length p}" "\<And>x. x < length p \<Longrightarrow> p ! x \<in> D \<longleftrightarrow> x \<in> D" using assms(2) by (auto simp: settled_def)
  have "x \<in> insert j C" if x: "x < length p" "p ! x \<in> insert j C" for x
  proof (cases "p ! x = i")
    case True
    with perm_inj [OF assms(1) x(1) j] assms(4) show ?thesis by simp
  next
    case False
    with pre x(2) obtain y where "y \<in> C" "p ! y = p ! x" by blast
    with perm_inj [OF assms(1), of y x] C x(1) show ?thesis by auto
  qed
  moreover have "p ! x \<in> insert j C" if "x \<in> insert j C" for x using that img i assms(4) by auto
  ultimately show ?thesis using D C j unfolding settled_def by blast
qed

lemma permute_loop_correct:
  assumes "is_perm p"
  shows "settled p D \<Longrightarrow> {..<i} \<subseteq> D \<Longrightarrow> i + k = length p \<Longrightarrow> moved p orig D base tp \<Longrightarrow>
    permute_loop base tp i k = Some (map (\<lambda>x. orig ! (p ! x)) [0..<length p])"
proof (induction k arbitrary: i D base tp)
  case 0
  then have "D = {..<length p}" by (auto simp: settled_def)
  with 0(4) have "base = map (\<lambda>x. orig ! (p ! x)) [0..<length p]"
    by (intro nth_equalityI) (auto simp: moved_def)
  then show ?case by simp
next
  case (Suc k)
  have i: "i < length p" using Suc.prems(3) by simp
  have len: "length base = length p" "length tp = length p" using Suc.prems(4) by (auto simp: moved_def)
  show ?case
  proof (cases "tp ! i = i")
    case True
    have "settled p (insert i D) \<and> moved p orig (insert i D) base tp"
    proof (cases "i \<in> D")
      case False
      with Suc.prems(4) True i have pi: "p ! i = i" by (auto simp: moved_def)
      have "p ! x = i \<longleftrightarrow> x = i" if "x < length p" for x using perm_inj [OF assms that i] pi by simp
      with Suc.prems(1) i have "settled p (insert i D)" by (auto simp: settled_def)
      moreover have "moved p orig (insert i D) base tp" using Suc.prems(4) i pi True False by (auto simp: moved_def)
      ultimately show ?thesis by blast
    qed (use Suc.prems in \<open>simp add: insert_absorb\<close>)
    moreover have "{..<i + 1} \<subseteq> insert i D" using Suc.prems(2) by (auto simp: less_Suc_eq)
    ultimately have "permute_loop base tp (i + 1) k = Some (map (\<lambda>x. orig ! (p ! x)) [0..<length p])"
      using Suc.prems(3) by (intro Suc.IH) auto
    with True i len show ?thesis by (simp add: rd_in)
  next
    case False
    then have iD: "i \<notin> D" and tpi: "tp ! i = p ! i" and bi: "base ! i = orig ! i"
      using Suc.prems(4) i by (auto simp: moved_def split: if_splits)
    have "chain p D {} i i" using i iD by (auto simp: chain_def)
    with cycle_loop_correct [OF assms Suc.prems(1), of "{}" i i orig base tp] False tpi Suc.prems(4)
    obtain base' tp' C' j' where
      cyc: "cycle_loop base tp i i (p ! i) = Some (base', tp', j')" "chain p D C' i j'" "p ! j' = i"
        "moved p orig (D \<union> C') base' tp'" by auto
    have j': "j' < length p" "i \<in> insert j' C'" using cyc(2) by (auto simp: chain_def)
    have len': "length base' = length p" "length tp' = length p" using cyc(4) by (auto simp: moved_def)
    have mv: "moved p orig (insert j' (D \<union> C')) (base'[j' := base ! i]) (tp'[j' := j'])"
      using moved_last [OF cyc(4) j'(1), of "base ! i"] cyc(3) bi by simp
    have "{..<i + 1} \<subseteq> insert j' (D \<union> C')" using Suc.prems(2) j'(2) by (auto simp: less_Suc_eq)
    with Suc.IH [OF chain_closed [OF assms Suc.prems(1) cyc(2,3)] _ _ mv] Suc.prems(3)
    have "permute_loop (base'[j' := base ! i]) (tp'[j' := j']) (i + 1) k = Some (map (\<lambda>x. orig ! (p ! x)) [0..<length p])"
      by simp
    with cyc(1) False tpi i len len' j'(1) show ?thesis by (simp add: rd_in wr_in)
  qed
qed

lemma fill_pointers_correct:
  "i + k \<le> length tp \<Longrightarrow> fill_pointers tp i k = Some (overlay tp i [i..<i + k])"
proof (induction k arbitrary: i tp)
  case (Suc k)
  then have "fill_pointers tp i (Suc k) = Some (overlay (overlay tp i [i]) (Suc i) [Suc i..<i + Suc k])"
    by (simp add: wr_overlay)
  also have "overlay (overlay tp i [i]) (Suc i) [Suc i..<i + Suc k] = overlay tp i (i # [Suc i..<i + Suc k])"
    using Suc.prems by (intro overlay_first) simp
  also have "i # [Suc i..<i + Suc k] = [i..<i + Suc k]" by (simp add: upt_conv_Cons)
  finally show ?case .
qed simp

lemma indirect_correct:
  assumes "length base = n" "n \<le> length t" "length tp = n"
  shows "indirect_msort_with_tmp cmp base t tp n = Some (msort cmp base)"
proof -
  let ?cmp = "\<lambda>p q. cmp (base ! p) (base ! q)"
  define p where "p = msort ?cmp [0..<n]"
  have fill: "fill_pointers tp 0 n = Some [0..<n]" using fill_pointers_correct [of 0 n tp] assms by (simp add: overlay_def)
  obtain t' where sort: "msort_with_tmp ?cmp [0..<n] t 0 n = Some (p, t')"
    using msort_with_tmp_correct [of "[0..<n]" n t ?cmp "[]" "[]"] assms(2) by (auto simp: p_def)
  have "mset p = mset [0..<n]" by (simp add: p_def)
  then have "distinct p" using mset_eq_imp_distinct_iff by fastforce
  then have perm: "is_perm p" "length p = n"
    by (auto simp: is_perm_def p_def atLeast0LessThan)
  have "moved p base {} base p" using perm assms by (simp add: moved_def)
  then have "permute_loop base p 0 n = Some (map (\<lambda>x. base ! (p ! x)) [0..<n])"
    using permute_loop_correct [OF perm(1), of "{}" 0 n base base p] perm(2) by (simp add: settled_def)
  moreover have "map (\<lambda>x. base ! (p ! x)) [0..<n] = map ((!) base) p"
    using perm(2) by (intro nth_equalityI) auto
  moreover have "map ((!) base) p = msort cmp base"
    using msort_map [of cmp "(!) base" "[0..<n]"] map_nth [of base] unfolding assms(1) p_def by simp
  ultimately show ?thesis using fill sort by (simp add: indirect_msort_with_tmp_def)
qed

subsection \<open>The routine as a whole\<close>

text \<open>With an arbitrary comparison function the heap sort still permutes the array and returns.\<close>

lemma siftdown_perm:
  "n < length base \<Longrightarrow> \<exists>base'. siftdown cmp base k n = Some base' \<and> mset base' = mset base"
proof (induction "n - k" arbitrary: base k rule: less_induct)
  case less
  let ?j = "larger_child cmp base n k"
  show ?case
  proof (cases "2 * k + 1 \<le> n \<and> \<not> 0 \<le> cmp (base ! k) (base ! ?j)")
    case False
    with less.prems show ?thesis by (subst siftdown_step) auto
  next
    case True
    let ?b = "base[?j := base ! k, k := base ! ?j]"
    have j: "k < ?j" "?j \<le> n" using True larger_child_range [of k n] by auto
    then have "mset ?b = mset base" using less.prems by (intro mset_swapped) auto
    moreover have "n - ?j < n - k" using j by linarith
    ultimately show ?thesis
      using True less.hyps [of ?j ?b] less.prems by (subst siftdown_step) auto
  qed
qed

lemma heapify_loop_perm:
  "n < length base \<Longrightarrow> \<exists>base'. heapify_loop cmp base n k = Some base' \<and> mset base' = mset base"
proof (induction k arbitrary: base)
  case 0
  from siftdown_perm [OF 0] show ?case by (subst heapify_loop.simps) auto
next
  case (Suc k)
  from siftdown_perm [OF Suc.prems] obtain b where "siftdown cmp base (Suc k) n = Some b" "mset b = mset base" by blast
  with Suc.IH [of b] Suc.prems mset_eq_length [of b base] show ?case by (subst heapify_loop.simps) auto
qed

lemma heapsort_loop_perm:
  "Suc n < length base \<Longrightarrow> \<exists>base'. heapsort_loop cmp base (Suc n) = Some base' \<and> mset base' = mset base"
proof (induction n arbitrary: base)
  case 0
  then show ?case using swap_at_0 [of 1 base] by simp
next
  case (Suc n)
  let ?b = "base[0 := base ! Suc (Suc n), Suc (Suc n) := base ! 0]"
  from siftdown_perm [of "Suc n" ?b] Suc.prems obtain b' where
    "siftdown cmp ?b 0 (Suc n) = Some b'" "mset b' = mset ?b" by auto
  with Suc.IH [of b'] swap_at_0 [OF Suc.prems] Suc.prems mset_eq_length [of b' ?b] show ?case by auto
qed

lemma heapsort_r_perm:
  assumes "n < length base"
  shows "\<exists>base'. heapsort_r cmp base n = Some base' \<and> mset base' = mset base"
proof (cases n)
  case (Suc m)
  obtain b where b: "heapify cmp base n = Some b" "mset b = mset base"
    using heapify_loop_perm [OF assms] by (auto simp: heapify_def)
  then have "Suc m < length b" using assms Suc mset_eq_length [of b base] by simp
  with heapsort_loop_perm [of m b cmp] b Suc show ?thesis by (auto simp: heapsort_r_def)
qed (simp add: heapsort_r_def)

lemma qsort_r_merge:
  assumes "length pbase = n" "n \<le> length t" "n \<le> length pt" "length pt' = n"
    and "malloc_ok \<or> qsort_total_size n sz \<le> QSORT_STACK_SIZE \<or> n \<le> 1"
  shows "qsort_r malloc_ok t pt pt' pbase n sz cmp = Some (msort cmp pbase)"
proof (cases "n \<le> 1")
  case True
  with assms(1) show ?thesis by (simp add: qsort_r_def msort.simps)
next
  case False
  obtain t' where "msort_with_tmp cmp pbase t 0 n = Some (msort cmp pbase, t')"
    using msort_with_tmp_correct [of pbase n t cmp "[]" "[]"] assms(1,2) by auto
  with False assms(5) indirect_correct [OF assms(1,3,4), of cmp] show ?thesis by (auto simp: qsort_r_def)
qed

lemma qsort_r_heap:
  "1 < n \<Longrightarrow> \<not> malloc_ok \<Longrightarrow> QSORT_STACK_SIZE < qsort_total_size n sz \<Longrightarrow>
     qsort_r malloc_ok t pt pt' pbase n sz cmp = heapsort_r cmp pbase (n - 1)"
  by (simp add: qsort_r_def)

text \<open>The contract of a sorting routine: a permutation in order.\<close>

definition sorts :: "('a \<Rightarrow> 'a \<Rightarrow> int) \<Rightarrow> 'a list \<Rightarrow> 'a list \<Rightarrow> bool" where
  "sorts cmp xs ys \<longleftrightarrow> mset ys = mset xs \<and> in_order cmp ys"

subsection \<open>Properties\<close>

text \<open>
  C2: \<open>qsort_r\<close> with a comparison function that orders the elements (a total preorder) returns, and
  leaves in the array a permutation of its elements in order, on every path: merge sort,
  indirect merge sort, and heap sort when the allocation fails.  When the buffer is
  on the stack or its allocation succeeds, elements that compare equal also keep their order.  The last
  part is a property of this implementation and no promise of the library: the manual
  (\<^verbatim>\<open>manual/search.texi\<close>) warns that the order of equal elements is unpredictable and the sorting
  not stable.
\<close>

theorem qsort_r_sorts:
  assumes "ordering_fn cmp" and "length pbase = n" and "n \<le> length t" and "n \<le> length pt" and "length pt' = n"
  shows "\<exists>base'. qsort_r malloc_ok t pt pt' pbase n sz cmp = Some base' \<and> sorts cmp pbase base' \<and>
    (malloc_ok \<or> qsort_total_size n sz \<le> QSORT_STACK_SIZE \<or> n \<le> 1 \<longrightarrow> stable cmp pbase base')"
proof (cases "malloc_ok \<or> qsort_total_size n sz \<le> QSORT_STACK_SIZE \<or> n \<le> 1")
  case True
  then have "qsort_r malloc_ok t pt pt' pbase n sz cmp = Some (msort cmp pbase)"
    by (rule qsort_r_merge [OF assms(2-5)])
  with ordering_fn.stable_msort [OF assms(1)] ordering_fn.in_order_msort [OF assms(1)] show ?thesis
    by (auto simp: sorts_def)
next
  case False
  then have "n - 1 < length pbase" "length pbase = Suc (n - 1)" using assms(2) by auto
  from ordering_fn.heapsort_r_correct [OF assms(1) this] obtain base' where
    "heapsort_r cmp pbase (n - 1) = Some base'" "sorts cmp pbase base'" unfolding sorts_def by blast
  with False qsort_r_heap [of n malloc_ok sz t pt pt' pbase cmp] show ?thesis by simp
qed

theorem qsort_r_sorts_witness:
  "\<exists>base'. qsort_r False [[], [], []] [0, 0, 0] [0, 0, 0] [[98], [65], [97]] 3 400 strcasecmp_C = Some base' \<and>
     sorts strcasecmp_C [[98], [65], [97]] base' \<and> stable strcasecmp_C [[98], [65], [97]] base'"
  using qsort_r_sorts [OF casecmp.ordering_fn_axioms, of "[[98], [65], [97]]" 3 "[[], [], []]" "[0, 0, 0]" "[0, 0, 0]" False 400]
  by (auto simp: qsort_total_size_def QSORT_STACK_SIZE_def INDIRECT_SORT_SIZE_THRES_def)

text \<open>The warning of the manual applies to heap sort, to which \<open>qsort_r\<close> turns when the allocation fails.\<close>

lemma qsort_r_heap_unstable:
  "qsort_r False [] [] [] [(1, 1), (1, 2)] 2 2000 (\<lambda>x y. fst x - fst y) = Some [(1, 2), (1 :: int, 1 :: int)]"
proof -
  have "heapsort_r (\<lambda>x y. fst x - fst y) [(1, 1), (1, 2)] 1 = Some [(1, 2), (1 :: int, 1 :: int)]" by code_simp
  then show ?thesis
    by (simp add: qsort_r_def qsort_total_size_def QSORT_STACK_SIZE_def INDIRECT_SORT_SIZE_THRES_def)
qed

text \<open>
  C15: \<open>qsort_r\<close> is memory safe and returns for every comparison function whatsoever, also one that
  orders nothing consistently: it accesses only the array and its buffers and leaves a
  permutation of the elements.
\<close>

theorem qsort_r_safe:
  assumes "length pbase = n" and "n \<le> length t" and "n \<le> length pt" and "length pt' = n"
  shows "\<exists>base'. qsort_r malloc_ok t pt pt' pbase n sz cmp = Some base' \<and> mset base' = mset pbase"
proof (cases "malloc_ok \<or> qsort_total_size n sz \<le> QSORT_STACK_SIZE \<or> n \<le> 1")
  case True
  from qsort_r_merge [OF assms this, of cmp] show ?thesis by simp
next
  case False
  then have "n - 1 < length pbase" using assms(1) by auto
  from heapsort_r_perm [OF this, of cmp] False qsort_r_heap [of n malloc_ok sz t pt pt' pbase cmp] show ?thesis by simp
qed

theorem qsort_r_safe_witness:
  "\<exists>base'. qsort_r True [0, 0, 0] [0, 0, 0] [0, 0, 0] [3, 1, 2 :: int] 3 4 (\<lambda>x y. 1) = Some base' \<and>
     mset base' = mset [3, 1, 2]"
  by (rule qsort_r_safe) simp_all

text \<open>
  C16: with memory for its buffer, \<open>qsort_r\<close> computes exactly the textbook top-down merge sort, by
  either of its two routes; the route over an array of pointers and the rearrangement along the
  cycles of a permutation make no difference to the result.
\<close>

theorem qsort_r_is_msort:
  assumes "length pbase = n" and "n \<le> length t" and "n \<le> length pt" and "length pt' = n"
    and "malloc_ok \<or> qsort_total_size n sz \<le> QSORT_STACK_SIZE"
  shows "qsort_r malloc_ok t pt pt' pbase n sz cmp = Some (msort cmp pbase)"
  using assms qsort_r_merge by blast

theorem qsort_r_is_msort_witness:
  "qsort_r False [0, 0, 0] [0, 0, 0] [0, 0, 0] [3, 1, 2] 3 40 (-) = Some (msort (-) [3, 1, 2 :: int])"
  by (rule qsort_r_is_msort)
    (simp_all add: qsort_total_size_def QSORT_STACK_SIZE_def INDIRECT_SORT_SIZE_THRES_def)

text \<open>
  C31: the exchange of two elements on bytes, by words of 8 or 4 bytes or by \<open>memswap\<close> as
  \<open>get_swap_type\<close> selects for the address and the element size, refines the exchange in the array
  of elements: no byte outside the two elements changes.
\<close>

theorem do_swap_refines:
  assumes "0 < sz" and "i \<noteq> j" and "i < length mem div sz" and "j < length mem div sz"
  shows "\<exists>mem'. do_swap mem (i * sz) (j * sz) sz (get_swap_type pbase sz) = Some mem' \<and>
    length mem' = length mem \<and> swap_at (blocks sz mem) i j = Some (blocks sz mem')"
  using assms by (rule do_swap_swaps_elements)

theorem do_swap_refines_witness:
  "\<exists>mem'. do_swap [1, 2, 3, 4, 5, 6] (0 * 3) (1 * 3) 3 (get_swap_type 0 3) = Some mem' \<and>
    length mem' = length [1, 2, 3, 4, 5, 6 :: byte] \<and> swap_at (blocks 3 [1, 2, 3, 4, 5, 6]) 0 1 = Some (blocks 3 mem')"
  using do_swap_refines [of 3 0 1 "[1, 2, 3, 4, 5, 6]" 0] by simp

end
