(* ===== verification/Dns_Base64.thy ===== *)
theory Dns_Base64
  imports Libc_Prelude
begin

text \<open>
  Base 64: \<open>b64_ntop\<close> and \<open>b64_pton\<close> of \<^verbatim>\<open>src/original/resolv/base64.c\<close>.

  The source pointers only move forward, so they are the rest of their object.  The size of the target
  is the length of its list.  Both functions return -1 for an error; the target may then have
  been written in part.  A failing \<open>Assert\<close> is a fault, \<open>None\<close>.  \<open>isspace\<close> is the one of the C locale.
\<close>

subsection \<open>Encoding\<close>

definition Base64 :: "byte list" where
  "Base64 = map of_char ''ABCDEFGHIJKLMNOPQRSTUVWXYZabcdefghijklmnopqrstuvwxyz0123456789+/''"

definition Pad64 :: byte where
  "Pad64 = 0x3D"

text \<open>A \<open>size_t\<close> returned as \<open>int\<close>.\<close>

definition c_int :: "nat \<Rightarrow> int" where
  "c_int n = sint (of_nat n :: 32 word)"

definition b64_output :: "byte \<Rightarrow> byte \<Rightarrow> byte \<Rightarrow> byte \<times> byte \<times> byte \<times> byte" where
  "b64_output i0 i1 i2 =
     (drop_bit 2 i0,
      push_bit 4 (i0 AND 0x03) + drop_bit 4 i1,
      push_bit 2 (i1 AND 0x0F) + drop_bit 6 i2,
      i2 AND 0x3F)"

definition store4 :: "byte list \<Rightarrow> nat \<Rightarrow> byte \<Rightarrow> byte \<Rightarrow> byte \<Rightarrow> byte \<Rightarrow> byte list option" where
  "store4 target n a b c d =
     do { target \<leftarrow> wr target n a; target \<leftarrow> wr target (n + 1) b;
          target \<leftarrow> wr target (n + 2) c; wr target (n + 3) d }"

text \<open>
  The loop over whole groups returns the target when it runs out of space, and otherwise the state
  in which it leaves the rest of the source.
\<close>

function b64_ntop_loop ::
  "byte list \<Rightarrow> nat \<Rightarrow> byte list \<Rightarrow> nat \<Rightarrow> (byte list + byte list \<times> nat \<times> byte list \<times> nat) option" where
  "b64_ntop_loop src srclength target datalength =
     (if 2 < srclength
      then do { i0 \<leftarrow> rd src 0; i1 \<leftarrow> rd src 1; i2 \<leftarrow> rd src 2;
                let (o0, o1, o2, o3) = b64_output i0 i1 i2;
                if \<not> (o0 < 64 \<and> o1 < 64 \<and> o2 < 64 \<and> o3 < 64) then None
                else if length target < datalength + 4 then Some (Inl target)
                else do { c0 \<leftarrow> rd Base64 (unat o0); c1 \<leftarrow> rd Base64 (unat o1);
                          c2 \<leftarrow> rd Base64 (unat o2); c3 \<leftarrow> rd Base64 (unat o3);
                          target \<leftarrow> store4 target datalength c0 c1 c2 c3;
                          b64_ntop_loop (drop 3 src) (srclength - 3) target (datalength + 4) } }
      else Some (Inr (src, srclength, target, datalength)))"
  by auto
termination by (relation "measure (\<lambda>(s, n, t, d). n)") auto

declare b64_ntop_loop.simps [simp del]

definition b64_ntop_pad :: "byte list \<Rightarrow> nat \<Rightarrow> byte list \<Rightarrow> nat \<Rightarrow> (byte list + byte list \<times> nat) option" where
  "b64_ntop_pad src srclength target datalength =
     (if srclength \<noteq> 0
      then do { i0 \<leftarrow> rd src 0;
                i1 \<leftarrow> if 1 < srclength then rd src 1 else Some 0;
                let (o0, o1, o2, o3) = b64_output i0 i1 0;
                if \<not> (o0 < 64 \<and> o1 < 64 \<and> o2 < 64) then None
                else if length target < datalength + 4 then Some (Inl target)
                else do { c0 \<leftarrow> rd Base64 (unat o0); c1 \<leftarrow> rd Base64 (unat o1); c2 \<leftarrow> rd Base64 (unat o2);
                          target \<leftarrow> store4 target datalength c0 c1 (if srclength = 1 then Pad64 else c2) Pad64;
                          Some (Inr (target, datalength + 4)) } }
      else Some (Inr (target, datalength)))"

definition b64_ntop :: "byte list \<Rightarrow> nat \<Rightarrow> byte list \<Rightarrow> (byte list \<times> int) option" where
  "b64_ntop src srclength target =
     do { r \<leftarrow> b64_ntop_loop src srclength target 0;
          case r of Inl target \<Rightarrow> Some (target, - 1)
          | Inr (src, srclength, target, datalength) \<Rightarrow>
              do { r \<leftarrow> b64_ntop_pad src srclength target datalength;
                   case r of Inl target \<Rightarrow> Some (target, - 1)
                   | Inr (target, datalength) \<Rightarrow>
                       if length target \<le> datalength then Some (target, - 1)
                       else do { target \<leftarrow> wr target datalength 0; Some (target, c_int datalength) } } }"

subsection \<open>Decoding\<close>

definition c_isspace :: "byte \<Rightarrow> bool" where
  "c_isspace c \<longleftrightarrow> c = 0x20 \<or> 0x09 \<le> c \<and> c \<le> 0x0D"

fun strchr :: "byte list \<Rightarrow> byte \<Rightarrow> nat option" where
  "strchr [] c = None"
| "strchr (x # s) c = (if x = c then Some 0 else map_option Suc (strchr s c))"

text \<open>
  The \<open>switch (state)\<close> for one digit: the new state and index, or \<open>None\<close> for the return of -1.  The
  target may be a null pointer; then the digits are only counted.
\<close>

definition b64_step :: "nat \<Rightarrow> byte list option \<Rightarrow> nat \<Rightarrow> byte \<Rightarrow> (byte list option \<times> (nat \<times> nat) option) option" where
  "b64_step state target tarindex v =
     (case target of
        None \<Rightarrow> if state = 0 then Some (None, Some (1, tarindex))
                else if state = 1 then Some (None, Some (2, tarindex + 1))
                else if state = 2 then Some (None, Some (3, tarindex + 1))
                else if state = 3 then Some (None, Some (0, tarindex + 1)) else None
      | Some t \<Rightarrow>
          if state = 0
          then if length t \<le> tarindex then Some (target, None)
               else do { t \<leftarrow> wr t tarindex (push_bit 2 v); Some (Some t, Some (1, tarindex)) }
          else if state = 1
          then if length t \<le> tarindex + 1 then Some (target, None)
               else do { x \<leftarrow> rd t tarindex; t \<leftarrow> wr t tarindex (x OR drop_bit 4 v);
                         t \<leftarrow> wr t (tarindex + 1) (push_bit 4 (v AND 0x0F)); Some (Some t, Some (2, tarindex + 1)) }
          else if state = 2
          then if length t \<le> tarindex + 1 then Some (target, None)
               else do { x \<leftarrow> rd t tarindex; t \<leftarrow> wr t tarindex (x OR drop_bit 2 v);
                         t \<leftarrow> wr t (tarindex + 1) (push_bit 6 (v AND 0x03)); Some (Some t, Some (3, tarindex + 1)) }
          else if state = 3
          then if length t \<le> tarindex then Some (target, None)
               else do { x \<leftarrow> rd t tarindex; t \<leftarrow> wr t tarindex (x OR v); Some (Some t, Some (0, tarindex + 1)) }
          else None)"

fun b64_pton_loop ::
  "byte list \<Rightarrow> nat \<Rightarrow> byte list option \<Rightarrow> nat \<Rightarrow> (byte list option \<times> (byte \<times> byte list \<times> nat \<times> nat) option) option" where
  "b64_pton_loop [] state target tarindex = None"
| "b64_pton_loop (ch # src) state target tarindex =
     (if ch = 0 then Some (target, Some (ch, src, state, tarindex))
      else if c_isspace ch then b64_pton_loop src state target tarindex
      else if ch = Pad64 then Some (target, Some (ch, src, state, tarindex))
      else case strchr Base64 ch of
        None \<Rightarrow> Some (target, None)
      | Some pos \<Rightarrow>
          do { (target, r) \<leftarrow> b64_step state target tarindex (of_nat pos);
               case r of None \<Rightarrow> Some (target, None)
               | Some (state, tarindex) \<Rightarrow> b64_pton_loop src state target tarindex })"

text \<open>The two loops over white space, with the current character.\<close>

fun skip_space :: "byte \<Rightarrow> byte list \<Rightarrow> (byte \<times> byte list) option" where
  "skip_space ch src =
     (if ch \<noteq> 0 \<and> c_isspace ch then case src of [] \<Rightarrow> None | c # s \<Rightarrow> skip_space c s else Some (ch, src))"

fun only_space :: "byte \<Rightarrow> byte list \<Rightarrow> bool option" where
  "only_space ch src =
     (if ch = 0 then Some True else if \<not> c_isspace ch then Some False
      else case src of [] \<Rightarrow> None | c # s \<Rightarrow> only_space c s)"

declare skip_space.simps [simp del] only_space.simps [simp del]

definition b64_trailer :: "byte \<Rightarrow> byte list \<Rightarrow> byte list option \<Rightarrow> nat \<Rightarrow> int option" where
  "b64_trailer ch src target tarindex =
     do { ok \<leftarrow> only_space ch src;
          if \<not> ok then Some (- 1)
          else case target of
            None \<Rightarrow> Some (c_int tarindex)
          | Some t \<Rightarrow> do { x \<leftarrow> rd t tarindex; Some (if x \<noteq> 0 then - 1 else c_int tarindex) } }"

definition b64_finish :: "byte \<Rightarrow> byte list \<Rightarrow> nat \<Rightarrow> byte list option \<Rightarrow> nat \<Rightarrow> int option" where
  "b64_finish ch src state target tarindex =
     (if ch = Pad64
      then do { ch \<leftarrow> rd src 0;
                let src = drop 1 src;
                if state = 0 \<or> state = 1 then Some (- 1)
                else if state = 2
                then do { (ch, src) \<leftarrow> skip_space ch src;
                          if ch \<noteq> Pad64 then Some (- 1)
                          else do { ch \<leftarrow> rd src 0; b64_trailer ch (drop 1 src) target tarindex } }
                else b64_trailer ch src target tarindex }
      else if state \<noteq> 0 then Some (- 1) else Some (c_int tarindex))"

definition b64_pton :: "byte list \<Rightarrow> byte list option \<Rightarrow> (byte list option \<times> int) option" where
  "b64_pton src target =
     do { (target, r) \<leftarrow> b64_pton_loop src 0 target 0;
          case r of None \<Rightarrow> Some (target, - 1)
          | Some (ch, src, state, tarindex) \<Rightarrow>
              do { r \<leftarrow> b64_finish ch src state target tarindex; Some (target, r) } }"

subsection \<open>The reference: groups of bits as numbers\<close>

text \<open>The digits to the base 64: upper case letters, lower case letters, decimal digits, plus and slash.\<close>

definition digit :: "nat \<Rightarrow> byte" where
  "digit d = of_nat (if d < 26 then 65 + d else if d < 52 then 97 + (d - 26) else if d < 62 then 48 + (d - 52)
     else if d = 62 then 43 else 47)"

text \<open>The digits of a byte string: every three bytes are a number of four digits to the base 64.\<close>

fun b64_digits :: "byte list \<Rightarrow> nat list" where
  "b64_digits (a # b # c # x) =
     (let v = (unat a * 256 + unat b) * 256 + unat c in
      [v div 64 ^ 3, v div 64 ^ 2 mod 64, v div 64 mod 64, v mod 64] @ b64_digits x)"
| "b64_digits [a, b] =
     (let v = (unat a * 256 + unat b) * 4 in [v div 64 ^ 2, v div 64 mod 64, v mod 64])"
| "b64_digits [a] = (let v = unat a * 16 in [v div 64, v mod 64])"
| "b64_digits [] = []"

text \<open>The text of a byte string is its digits, filled up with equals signs.\<close>

definition b64_encode :: "byte list \<Rightarrow> byte list" where
  "b64_encode x = map digit (b64_digits x) @ replicate ((3 - length x mod 3) mod 3) 0x3D"

lemma b64_encode_code: "b64_encode x = map digit (b64_digits x) @ replicate ((3 - length x mod 3) mod 3) Pad64"
  by (simp add: b64_encode_def Pad64_def)

text \<open>The complete bytes in a string of digits, and the bits left over as the next byte would hold them.\<close>

fun b64_bytes :: "nat list \<Rightarrow> byte list" where
  "b64_bytes (a # b # c # d # ds) =
     [of_nat (a * 4 + b div 16), of_nat (b mod 16 * 16 + c div 4), of_nat (c mod 4 * 64 + d)] @ b64_bytes ds"
| "b64_bytes [a, b, c] = [of_nat (a * 4 + b div 16), of_nat (b mod 16 * 16 + c div 4)]"
| "b64_bytes [a, b] = [of_nat (a * 4 + b div 16)]"
| "b64_bytes [a] = []"
| "b64_bytes [] = []"

fun b64_part :: "nat list \<Rightarrow> nat" where
  "b64_part (a # b # c # d # ds) = b64_part ds"
| "b64_part [a, b, c] = c mod 4 * 64"
| "b64_part [a, b] = b mod 16 * 16"
| "b64_part [a] = a * 4"
| "b64_part [] = 0"

lemma Base64_table: "length Base64 = 64" "distinct Base64"
  "list_all (\<lambda>c. c \<noteq> 0 \<and> c \<noteq> Pad64 \<and> \<not> c_isspace c) Base64"
  by code_simp+

lemma digit_table: "d < 64 \<Longrightarrow> digit d = Base64 ! d"
proof -
  have "\<forall>d \<in> set [0..<64]. digit d = Base64 ! d" by code_simp
  then show "d < 64 \<Longrightarrow> digit d = Base64 ! d" by simp
qed

lemma digit_char [simp]: "d < 64 \<Longrightarrow> digit d \<noteq> 0 \<and> digit d \<noteq> Pad64 \<and> \<not> c_isspace (digit d)"
  using Base64_table(3) by (simp add: digit_table list_all_length Base64_table)

lemma pad_char [simp]: "Pad64 \<noteq> 0" "\<not> c_isspace Pad64"
  by code_simp+

lemma strchr_nth: "distinct s \<Longrightarrow> i < length s \<Longrightarrow> strchr s (s ! i) = Some i"
  by (induction s arbitrary: i) (auto simp: nth_Cons split: nat.splits)

lemma strchr_Some: "strchr s c = Some i \<Longrightarrow> i < length s \<and> s ! i = c"
  by (induction s arbitrary: i) (auto split: if_splits)

lemma strchr_digit [simp]: "d < 64 \<Longrightarrow> strchr Base64 (digit d) = Some d"
  by (simp add: digit_table strchr_nth Base64_table)

lemma strchr_Base64: "strchr Base64 c = Some d \<Longrightarrow> d < 64 \<and> c = digit d"
  using strchr_Some [of Base64 c d] by (auto simp: digit_table Base64_table)

lemma digit_inj: "a < 64 \<Longrightarrow> b < 64 \<Longrightarrow> digit a = digit b \<longleftrightarrow> a = b"
  by (metis strchr_digit option.inject)

lemma last_digit: "y < 64 \<Longrightarrow> (x * 64 + y) div 64 = x" "y < 64 \<Longrightarrow> (x * 64 + y) mod 64 = y" for x y :: nat
  by auto

lemma regroup_bits:
  fixes a b c :: nat
  shows "(a * 256 + b) * 256 + c = ((a div 4 * 64 + (a mod 4 * 16 + b div 16)) * 64 + (b mod 16 * 4 + c div 64)) * 64 + c mod 64"
    "(a * 256 + b) * 4 = (a div 4 * 64 + (a mod 4 * 16 + b div 16)) * 64 + b mod 16 * 4"
    "a * 16 = a div 4 * 64 + a mod 4 * 16"
proof -
  obtain a1 a0 b1 b0 c1 c0 where parts: "a div 4 = a1" "a mod 4 = a0" "b div 16 = b1" "b mod 16 = b0" "c div 64 = c1" "c mod 64 = c0"
    by blast
  have "a = a1 * 4 + a0" "b = b1 * 16 + b0" "c = c1 * 64 + c0" unfolding parts [symmetric] by simp_all
  then show "(a * 256 + b) * 256 + c = ((a div 4 * 64 + (a mod 4 * 16 + b div 16)) * 64 + (b mod 16 * 4 + c div 64)) * 64 + c mod 64"
    "(a * 256 + b) * 4 = (a div 4 * 64 + (a mod 4 * 16 + b div 16)) * 64 + b mod 16 * 4"
    "a * 16 = a div 4 * 64 + a mod 4 * 16"
    unfolding parts by simp_all
qed

lemma byte_parts:
  "unat a div 4 < 64" "unat a div 16 < 16" "unat a div 64 < 4"
  "unat a mod 4 * 16 + unat b div 16 < 64" "unat b mod 16 * 4 + unat c div 64 < 64" for a b c :: byte
proof -
  show d: "unat a div 4 < 64" "unat a div 16 < 16" "unat a div 64 < 4" for a :: byte
    using unat_byte_less [of a] by (intro less_mult_imp_div_less; linarith)+
  have "unat a mod 4 < 4" "unat b mod 16 < 16" by simp_all
  then show "unat a mod 4 * 16 + unat b div 16 < 64" "unat b mod 16 * 4 + unat c div 64 < 64"
    using d(2) [of b] d(3) [of c] by linarith+
qed

text \<open>The digits in terms of the bits of the bytes, as the code takes them apart.\<close>

lemma b64_digits_bits:
  "b64_digits (a # b # c # x) =
     [unat a div 4, unat a mod 4 * 16 + unat b div 16, unat b mod 16 * 4 + unat c div 64, unat c mod 64] @ b64_digits x"
  "b64_digits [a, b] = [unat a div 4, unat a mod 4 * 16 + unat b div 16, unat b mod 16 * 4]"
  "b64_digits [a] = [unat a div 4, unat a mod 4 * 16]"
proof -
  note lt = byte_parts(4) [of a b] byte_parts(5) [of b c]
  have lt': "unat b mod 16 * 4 < 64" "unat a mod 4 * 16 < 64" "unat c mod 64 < 64"
    using mod_less_divisor [of 16 "unat b"] mod_less_divisor [of 4 "unat a"] by simp_all
  have pow: "v div 64 ^ 3 = v div 64 div 64 div 64" "v div 64 ^ 2 = v div 64 div 64" for v :: nat
    by (simp_all add: div_mult2_eq [symmetric])
  show "b64_digits (a # b # c # x) =
     [unat a div 4, unat a mod 4 * 16 + unat b div 16, unat b mod 16 * 4 + unat c div 64, unat c mod 64] @ b64_digits x"
    "b64_digits [a, b] = [unat a div 4, unat a mod 4 * 16 + unat b div 16, unat b mod 16 * 4]"
    "b64_digits [a] = [unat a div 4, unat a mod 4 * 16]"
    unfolding b64_digits.simps Let_def pow regroup_bits(1,2) [of "unat a" "unat b"] regroup_bits(3) [of "unat a"]
    by (simp_all only: last_digit lt lt')
qed

lemma b64_digits_less: "d \<in> set (b64_digits x) \<Longrightarrow> d < 64"
proof (induction x rule: b64_digits.induct)
  case (1 a b c x)
  then show ?case unfolding b64_digits_bits using byte_parts by (auto simp del: b64_digits.simps)
next
  case (2 a b)
  have "unat b mod 16 < 16" by simp
  with 2 show ?case unfolding b64_digits_bits using byte_parts by (auto simp del: b64_digits.simps)
next
  case (3 a)
  have "unat a mod 4 < 4" by simp
  with 3 show ?case unfolding b64_digits_bits using byte_parts by (auto simp del: b64_digits.simps)
qed simp

lemma length_b64_digits: "length (b64_digits x) = (4 * length x + 2) div 3"
  by (induction x rule: b64_digits.induct) (simp_all add: Let_def)

text \<open>The bytes of the digits are the string, and no bits are left over.\<close>

lemma byte_of_bits: "n = unat b \<Longrightarrow> (of_nat n :: byte) = b"
  by simp

lemma b64_bytes_digits: "b64_bytes (b64_digits x) = x \<and> b64_part (b64_digits x) = 0"
proof (induction x rule: b64_digits.induct)
  case (1 a b c x)
  have "unat a div 4 * 4 + (unat a mod 4 * 16 + unat b div 16) div 16 = unat a"
    "(unat a mod 4 * 16 + unat b div 16) mod 16 * 16 + (unat b mod 16 * 4 + unat c div 64) div 4 = unat b"
    "(unat b mod 16 * 4 + unat c div 64) mod 4 * 64 + unat c mod 64 = unat c"
    using byte_parts(2) [of b] byte_parts(3) [of c] by simp_all
  with 1 show ?case unfolding b64_digits_bits by (simp del: of_nat_add of_nat_mult add: byte_of_bits)
next
  case (2 a b)
  have "unat a div 4 * 4 + (unat a mod 4 * 16 + unat b div 16) div 16 = unat a"
    "(unat a mod 4 * 16 + unat b div 16) mod 16 * 16 + unat b mod 16 * 4 div 4 = unat b"
    using byte_parts(2) [of b] by simp_all
  then show ?case unfolding b64_digits_bits by (simp del: of_nat_add of_nat_mult add: byte_of_bits)
next
  case (3 a)
  have "unat a div 4 * 4 + unat a mod 4 * 16 div 16 = unat a" by simp
  then show ?case unfolding b64_digits_bits by (simp del: of_nat_add of_nat_mult add: byte_of_bits)
qed simp

lemma unat_bits: "n < 256 \<Longrightarrow> unat (of_nat n :: byte) = n"
  by (simp add: unat_of_nat)

lemma b64_digits_bytes:
  "\<forall>d \<in> set ds. d < 64 \<Longrightarrow> length ds mod 4 \<noteq> 1 \<Longrightarrow> b64_part ds = 0 \<Longrightarrow> b64_digits (b64_bytes ds) = ds"
proof (induction ds rule: b64_bytes.induct)
  case (1 a b c d ds)
  have lt: "a < 64" "b < 64" "c < 64" "d < 64" "b div 16 < 4" "c div 4 < 16" "b mod 16 < 16" "c mod 4 < 4" using 1(2) by auto
  then have u: "unat (of_nat (a * 4 + b div 16) :: byte) = a * 4 + b div 16"
    "unat (of_nat (b mod 16 * 16 + c div 4) :: byte) = b mod 16 * 16 + c div 4"
    "unat (of_nat (c mod 4 * 64 + d) :: byte) = c mod 4 * 64 + d"
    by (simp_all only: unat_bits)
  have "length ds mod 4 \<noteq> 1" using 1(3) by simp
  with 1 lt show ?case unfolding b64_bytes.simps append_Cons append_Nil b64_digits_bits u by simp
next
  case (2 a b c)
  have lt: "a < 64" "b < 64" "c < 64" "b div 16 < 4" "c div 4 < 16" "b mod 16 < 16" using 2(1) by auto
  then have u: "unat (of_nat (a * 4 + b div 16) :: byte) = a * 4 + b div 16"
    "unat (of_nat (b mod 16 * 16 + c div 4) :: byte) = b mod 16 * 16 + c div 4"
    by (simp_all only: unat_bits)
  have "c div 4 * 4 = c" using 2(3) by simp presburger
  with lt show ?case unfolding b64_bytes.simps b64_digits_bits u by simp
next
  case (3 a b)
  have lt: "a < 64" "b < 64" "b div 16 < 4" using 3(1) by auto
  then have u: "unat (of_nat (a * 4 + b div 16) :: byte) = a * 4 + b div 16" by (simp only: unat_bits)
  have "b div 16 * 16 = b" using 3(3) by simp presburger
  with lt show ?case unfolding b64_bytes.simps b64_digits_bits u by simp
qed simp_all

lemma length_b64_bytes: "length (b64_bytes ds) = 3 * length ds div 4"
  by (induction ds rule: b64_bytes.induct) simp_all

text \<open>One more digit.\<close>

lemma b64_snoc:
  "length ds mod 4 = 0 \<Longrightarrow> b64_bytes (ds @ [v]) = b64_bytes ds \<and> b64_part (ds @ [v]) = v * 4"
  "length ds mod 4 = 1 \<Longrightarrow> b64_bytes (ds @ [v]) = b64_bytes ds @ [of_nat (b64_part ds + v div 16)] \<and> b64_part (ds @ [v]) = v mod 16 * 16"
  "length ds mod 4 = 2 \<Longrightarrow> b64_bytes (ds @ [v]) = b64_bytes ds @ [of_nat (b64_part ds + v div 4)] \<and> b64_part (ds @ [v]) = v mod 4 * 64"
  "length ds mod 4 = 3 \<Longrightarrow> b64_bytes (ds @ [v]) = b64_bytes ds @ [of_nat (b64_part ds + v)] \<and> b64_part (ds @ [v]) = 0"
  by (induction ds rule: b64_bytes.induct) simp_all

subsection \<open>What the encoder writes\<close>

lemma byte_bits:
  fixes n :: byte
  shows "unat (drop_bit 2 n) = unat n div 4" "unat (drop_bit 4 n) = unat n div 16" "unat (drop_bit 6 n) = unat n div 64"
    "unat (n AND 0x3F) = unat n mod 64" "unat (push_bit 4 (n AND 0x03)) = unat n mod 4 * 16"
    "unat (push_bit 2 (n AND 0x0F)) = unat n mod 16 * 4"
proof -
  have drop: "unat (drop_bit k n) = unat n div 2 ^ k" for k
    using unat_byte_less [of n] by (subst unsigned_drop_bit_eq) (simp add: drop_bit_eq_div take_bit_nat_eq_self)
  have mask: "(0x3F :: byte) = mask 6" "(0x03 :: byte) = mask 2" "(0x0F :: byte) = mask 4"
    by (simp_all add: mask_eq_exp_minus_1)
  have low: "unat (n AND mask k) = unat n mod 2 ^ k" if "k \<le> 8" for k
    using that unfolding take_bit_eq_mask [symmetric] unsigned_take_bit_eq by (simp add: take_bit_eq_mod)
  have push: "unat (push_bit k x) = 2 ^ k * unat x mod 256" for k and x :: byte
    by (subst unsigned_push_bit_eq) (simp add: take_bit_eq_mod push_bit_eq_mult mult.commute)
  show "unat (drop_bit 2 n) = unat n div 4" "unat (drop_bit 4 n) = unat n div 16" "unat (drop_bit 6 n) = unat n div 64"
    "unat (n AND 0x3F) = unat n mod 64" "unat (push_bit 4 (n AND 0x03)) = unat n mod 4 * 16"
    "unat (push_bit 2 (n AND 0x0F)) = unat n mod 16 * 4"
    unfolding mask push by (simp_all add: drop low)
qed

lemma b64_output_digits:
  assumes "b64_output i0 i1 i2 = (o0, o1, o2, o3)"
  shows "unat o0 = unat i0 div 4" "unat o1 = unat i0 mod 4 * 16 + unat i1 div 16"
    "unat o2 = unat i1 mod 16 * 4 + unat i2 div 64" "unat o3 = unat i2 mod 64"
proof -
  have plus: "unat (x + y :: byte) = unat x + unat y" if "unat x + unat y < 64" for x y
    using that by (simp add: unat_word_ariths)
  have o: "o0 = drop_bit 2 i0" "o1 = push_bit 4 (i0 AND 0x03) + drop_bit 4 i1"
    "o2 = push_bit 2 (i1 AND 0x0F) + drop_bit 6 i2" "o3 = i2 AND 0x3F"
    using assms by (simp_all add: b64_output_def)
  show "unat o0 = unat i0 div 4" "unat o3 = unat i2 mod 64" unfolding o by (rule byte_bits)+
  show "unat o1 = unat i0 mod 4 * 16 + unat i1 div 16"
    unfolding o using byte_parts(4) [of i0 i1] by (subst plus) (simp_all only: byte_bits)
  show "unat o2 = unat i1 mod 16 * 4 + unat i2 div 64"
    unfolding o using byte_parts(5) [of i1 i2] by (subst plus) (simp_all only: byte_bits)
qed

lemma store4_correct: "n + 4 \<le> length target \<Longrightarrow> store4 target n a b c d = Some (overlay target n [a, b, c, d])"
  by (simp add: store4_def mem_simps overlay_def upd_conv_take_nth_drop take_Suc_conv_app_nth)

lemma rd_digit: "unat o0 = d \<Longrightarrow> d < 64 \<Longrightarrow> rd Base64 (unat o0) = Some (digit d)"
  by (simp add: digit_table mem_simps Base64_table)

lemma less_64: "unat (x :: byte) = d \<Longrightarrow> d < 64 \<Longrightarrow> x < 64"
  by (simp add: word_less_nat_alt)

lemma take_four: "take 4 (p # q # r # s # t) = [p, q, r, s]"
  by (simp add: numeral_eq_Suc)

text \<open>One whole group, and the padded last one.\<close>

lemma b64_ntop_loop_group:
  "b64_ntop_loop (a # b # c # src) (Suc (Suc (Suc n))) target k =
     (if length target < k + 4 then Some (Inl target)
      else b64_ntop_loop src n (overlay target k (map digit (take 4 (b64_digits (a # b # c # x))))) (k + 4))"
proof -
  obtain o0 o1 o2 o3 where out: "b64_output a b c = (o0, o1, o2, o3)" by (cases "b64_output a b c") auto
  note d = b64_output_digits [OF out]
  note lt = byte_parts(1) [of a] byte_parts(4) [of a b] byte_parts(5) [of b c]
  have lt3: "unat c mod 64 < 64" by simp
  note small = less_64 [OF d(1) lt(1)] less_64 [OF d(2) lt(2)] less_64 [OF d(3) lt(3)] less_64 [OF d(4) lt3]
  note rds = rd_digit [OF d(1) lt(1)] rd_digit [OF d(2) lt(2)] rd_digit [OF d(3) lt(3)] rd_digit [OF d(4) lt3]
  have ptr: "rd (a # b # c # src) 0 = Some a" "rd (a # b # c # src) 1 = Some b" "rd (a # b # c # src) 2 = Some c"
    "drop 3 (a # b # c # src) = src" "Suc (Suc (Suc n)) - 3 = n" "2 < Suc (Suc (Suc n))"
    by (simp_all add: numeral_2_eq_2 numeral_3_eq_3)
  show ?thesis
    unfolding b64_digits_bits b64_ntop_loop.simps [of "a # b # c # src"]
    by (simp add: ptr out small rds store4_correct take_four)
qed

lemma b64_ntop_pad_correct:
  assumes "length y \<le> 2"
  shows "b64_ntop_pad (y @ rest) (length y) target k =
    (if y = [] then Some (Inr (target, k))
     else if length target < k + 4 then Some (Inl target)
     else Some (Inr (overlay target k (b64_encode y), k + 4)))"
proof -
  consider "y = []" | a where "y = [a]" | a b where "y = [a, b]"
    using assms by (cases y; cases "tl y"; cases "tl (tl y)") auto
  then show ?thesis
  proof cases
    case 1
    then show ?thesis by (simp add: b64_ntop_pad_def)
  next
    case (2 a)
    obtain o0 o1 o2 o3 where out: "b64_output a 0 0 = (o0, o1, o2, o3)" by (cases "b64_output a 0 0") auto
    note d = b64_output_digits [OF out, simplified]
    have lt: "unat a mod 4 * 16 < 64" using byte_parts(4) [of a 0] by simp
    note small = less_64 [OF d(1) byte_parts(1)] less_64 [OF d(2) lt]
    note rds = rd_digit [OF d(1) byte_parts(1)] rd_digit [OF d(2) lt]
    have two: "replicate 2 Pad64 = [Pad64, Pad64]" by (simp add: numeral_2_eq_2)
    have z: "rd Base64 0 = Some (digit 0)" by (simp add: digit_table mem_simps Base64_table)
    show ?thesis unfolding 2 b64_encode_code b64_digits_bits
      by (simp add: b64_ntop_pad_def out small rds d(3) z store4_correct two)
  next
    case (3 a b)
    obtain o0 o1 o2 o3 where out: "b64_output a b 0 = (o0, o1, o2, o3)" by (cases "b64_output a b 0") auto
    note d = b64_output_digits [OF out, simplified]
    have lt: "unat b mod 16 * 4 < 64" using byte_parts(5) [of b 0] by simp
    note small = less_64 [OF d(1) byte_parts(1)] less_64 [OF d(2) byte_parts(4)] less_64 [OF d(3) lt]
    note rds = rd_digit [OF d(1) byte_parts(1)] rd_digit [OF d(2) byte_parts(4)] rd_digit [OF d(3) lt]
    show ?thesis unfolding 3 b64_encode_code b64_digits_bits
      by (simp add: b64_ntop_pad_def out small rds store4_correct)
  qed
qed

lemma b64_ntop_loop_correct:
  "k \<le> length target \<Longrightarrow>
   (if length target < k + 4 * (length x div 3)
    then \<exists>t. b64_ntop_loop (x @ rest) (length x) target k = Some (Inl t) \<and> length t = length target
    else b64_ntop_loop (x @ rest) (length x) target k =
      Some (Inr (drop (3 * (length x div 3)) x @ rest, length x mod 3,
        overlay target k (map digit (b64_digits (take (3 * (length x div 3)) x))), k + 4 * (length x div 3))))"
proof (induction x arbitrary: target k rule: b64_digits.induct)
  case (1 a b c x)
  let ?g = "map digit (take 4 (b64_digits (a # b # c # [])))"
  have g: "map digit (b64_digits (a # b # c # take n x)) = ?g @ map digit (b64_digits (take n x))" "length ?g = 4" for n
    unfolding b64_digits_bits append_Cons append_Nil take_four by simp_all
  have len: "length (a # b # c # x) div 3 = Suc (length x div 3)" "length (a # b # c # x) mod 3 = length x mod 3" by simp_all
  have take: "take (3 * Suc n) (a # b # c # x) = a # b # c # take (3 * n) x" "drop (3 * Suc n) (a # b # c # x) = drop (3 * n) x" for n
    by (simp_all add: numeral_3_eq_3)
  show ?case
  proof (cases "length target < k + 4")
    case True
    then have "b64_ntop_loop ((a # b # c # x) @ rest) (length (a # b # c # x)) target k = Some (Inl target)"
      by (simp add: b64_ntop_loop_group [where x = "[]"])
    moreover have "length target < k + 4 * Suc (length x div 3)" using True by simp
    ultimately show ?thesis unfolding len by (simp only: if_True) blast
  next
    case False
    let ?t = "overlay target k ?g"
    have lt: "length ?t = length target" "k + 4 \<le> length ?t" using False by (simp_all add: g(2))
    have eq: "b64_ntop_loop ((a # b # c # x) @ rest) (length (a # b # c # x)) target k = b64_ntop_loop (x @ rest) (length x) ?t (k + 4)"
      using False by (simp add: b64_ntop_loop_group [where x = "[]"])
    have ov: "overlay ?t (k + 4) ys = overlay target k (?g @ ys)" if "k + 4 + length ys \<le> length target" for ys
      using overlay_overlay [of k ?g ys target] that g(2) by simp
    have "length (map digit (b64_digits (take (3 * (length x div 3)) x))) = 4 * (length x div 3)"
      by (simp add: length_b64_digits)
    with 1(1) [OF refl lt(2)] ov show ?thesis unfolding eq len take g(1) lt(1) by (auto simp: algebra_simps)
  qed
qed (simp_all add: b64_ntop_loop.simps)

lemma b64_digits_append: "length x mod 3 = 0 \<Longrightarrow> b64_digits (x @ y) = b64_digits x @ b64_digits y"
  by (induction x rule: b64_digits.induct) (simp_all add: Let_def)

lemma b64_encode_append: "length x mod 3 = 0 \<Longrightarrow> b64_encode (x @ y) = b64_encode x @ b64_encode y"
proof -
  assume x: "length x mod 3 = 0"
  then have "length (x @ y) mod 3 = length y mod 3" using mod_add_left_eq [of "length x" 3 "length y"] by simp
  then show ?thesis unfolding b64_encode_code b64_digits_append [OF x] x by simp
qed

lemma length_b64_encode: "length (b64_encode x) = 4 * ((length x + 2) div 3)"
proof (induction x rule: b64_digits.induct)
  case (1 a b c x)
  have "(length (a # b # c # x) + 2) div 3 = Suc ((length x + 2) div 3)"
    using div_add_self2 [of 3 "length x + 2"] by (simp add: add.commute)
  moreover have "length (b64_encode (a # b # c # x)) = 4 + length (b64_encode x)"
    by (simp add: b64_encode_code Let_def)
  ultimately show ?case using 1 by simp
qed (simp_all add: b64_encode_code Let_def)

lemma c_int_eq: "n < 2 ^ 31 \<Longrightarrow> c_int n = int n"
  by (simp add: c_int_def signed_of_nat signed_take_bit_int_eq_self)

lemma b64_ntop_computes:
  assumes "length target \<le> 2 ^ 31"
  shows "\<exists>t. b64_ntop (x @ rest) (length x) target =
      Some (t, if length (b64_encode x) < length target then int (length (b64_encode x)) else - 1) \<and> length t = length target \<and>
    (length (b64_encode x) < length target \<longrightarrow> t = overlay target 0 (b64_encode x @ [0]))"
proof -
  let ?n = "3 * (length x div 3)" and ?k = "4 * (length x div 3)"
  define u y where "u = take ?n x" and "y = drop ?n x"
  have x: "x = u @ y" and lu: "length u = ?n" and ly: "length y = length x mod 3"
    by (simp_all add: u_def y_def minus_mult_div_eq_mod)
  have enc: "b64_encode x = map digit (b64_digits u) @ b64_encode y" and ek: "length (map digit (b64_digits u)) = ?k"
    using b64_encode_append [of u y] by (simp_all add: x [symmetric] lu length_b64_digits b64_encode_code)
  have yk: "length (b64_encode y) = (if y = [] then 0 else 4)"
  proof (cases "y = []")
    case False
    have "length x mod 3 < 3" by simp
    then have "length y = 1 \<or> length y = 2" using False ly by (cases y) auto
    then show ?thesis using False by (auto simp: length_b64_encode)
  qed (simp add: length_b64_encode)
  note loop = b64_ntop_loop_correct [of 0 target x rest, simplified, folded u_def y_def]
  show ?thesis
  proof (cases "length target < ?k")
    case True
    with loop enc ek show ?thesis by (auto simp: b64_ntop_def)
  next
    case False
    let ?t = "overlay target 0 (map digit (b64_digits u))"
    have l: "b64_ntop_loop (x @ rest) (length x) target 0 = Some (Inr (y @ rest, length y, ?t, ?k))"
      using loop False ly by simp
    have lt: "length ?t = length target" using False ek by simp
    have pad: "b64_ntop_pad (y @ rest) (length y) ?t ?k = (if y = [] then Some (Inr (?t, ?k))
      else if length target < ?k + 4 then Some (Inl ?t) else Some (Inr (overlay ?t ?k (b64_encode y), ?k + 4)))"
      using b64_ntop_pad_correct [of y rest ?t ?k] ly lt by simp
    have ov: "overlay ?t ?k ys = overlay target 0 (map digit (b64_digits u) @ ys)" if "?k + length ys \<le> length target" for ys
      using overlay_overlay [of 0 "map digit (b64_digits u)" ys target] that ek by simp
    have wr: "wr (overlay target 0 z) (length z) 0 = Some (overlay target 0 (z @ [0]))" if "length z < length target" for z :: "byte list"
      using that overlay_overlay [of 0 z "[0]" target] by (simp add: wr_overlay)
    have b64_encode_Nil: "b64_encode [] = []" by (simp add: b64_encode_code)
    show ?thesis
    proof (cases "y = [] \<or> ?k + 4 \<le> length target")
      case ok: True
      then have "b64_ntop (x @ rest) (length x) target = (if length target \<le> length (b64_encode x) then Some (overlay target 0 (b64_encode x), - 1)
        else do { t \<leftarrow> wr (overlay target 0 (b64_encode x)) (length (b64_encode x)) 0; Some (t, c_int (length (b64_encode x))) })"
        using pad ov [of "b64_encode y"] yk enc ek False
        by (cases "y = []") (auto simp: b64_ntop_def l b64_encode_Nil)
      moreover have "length (overlay target 0 (b64_encode x)) = length target" using ok False enc ek yk by auto
      ultimately show ?thesis using assms wr [of "b64_encode x"] by (auto simp: c_int_eq)
    next
      case False
      then show ?thesis using pad lt enc ek yk by (auto simp: b64_ntop_def l)
    qed
  qed
qed

subsection \<open>What the decoder accepts\<close>

text \<open>The state of the decoder after the digits \<open>ds\<close>, and the space they need.\<close>

definition b64_state :: "nat list \<Rightarrow> byte list \<Rightarrow> nat \<Rightarrow> byte list \<Rightarrow> nat \<Rightarrow> bool" where
  "b64_state ds t0 state t tarindex \<longleftrightarrow>
     (\<forall>d \<in> set ds. d < 64) \<and> state = length ds mod 4 \<and> tarindex = 3 * length ds div 4 \<and> length t = length t0 \<and>
     take tarindex t = b64_bytes ds \<and> drop (tarindex + 1) t = drop (tarindex + 1) t0 \<and>
     (state \<noteq> 0 \<longrightarrow> tarindex < length t \<and> t ! tarindex = of_nat (b64_part ds))"

definition b64_fits :: "nat list \<Rightarrow> byte list \<Rightarrow> bool" where
  "b64_fits ds t \<longleftrightarrow> 3 * (length ds div 4) + length ds mod 4 \<le> length t"

lemma digit_bits:
  assumes "v < 64"
  shows "push_bit 2 (of_nat v :: byte) = of_nat (v * 4)" "drop_bit 4 (of_nat v :: byte) = of_nat (v div 16)"
    "push_bit 4 (of_nat v AND 0x0F :: byte) = of_nat (v mod 16 * 16)" "drop_bit 2 (of_nat v :: byte) = of_nat (v div 4)"
    "push_bit 6 (of_nat v AND 0x03 :: byte) = of_nat (v mod 4 * 64)"
proof -
  have "list_all (\<lambda>v. push_bit 2 (of_nat v :: byte) = of_nat (v * 4) \<and> drop_bit 4 (of_nat v :: byte) = of_nat (v div 16) \<and>
    push_bit 4 (of_nat v AND 0x0F :: byte) = of_nat (v mod 16 * 16) \<and> drop_bit 2 (of_nat v :: byte) = of_nat (v div 4) \<and>
    push_bit 6 (of_nat v AND 0x03 :: byte) = of_nat (v mod 4 * 64)) [0..<64]"
    by code_simp
  then show "push_bit 2 (of_nat v :: byte) = of_nat (v * 4)" "drop_bit 4 (of_nat v :: byte) = of_nat (v div 16)"
    "push_bit 4 (of_nat v AND 0x0F :: byte) = of_nat (v mod 16 * 16)" "drop_bit 2 (of_nat v :: byte) = of_nat (v div 4)"
    "push_bit 6 (of_nat v AND 0x03 :: byte) = of_nat (v mod 4 * 64)"
    using assms unfolding list_all_iff by auto
qed

lemma or_bits:
  assumes "p < 256" "q < 2 ^ k" "2 ^ k dvd p" "k \<le> 8"
  shows "(of_nat p :: byte) OR of_nat q = of_nat (p + q)"
proof -
  obtain r where r: "p = 2 ^ k * r" using assms(3) by blast
  have "p AND q = 0"
  proof (rule bit_eqI)
    fix n
    have "\<not> bit q n" if "k \<le> n"
      using assms(2) that by (metis bit_take_bit_iff leD take_bit_nat_eq_self)
    moreover have "\<not> bit p n" if "n < k"
      using that by (simp add: r mult.commute flip: push_bit_eq_mult) (simp add: bit_simps)
    ultimately show "bit (p AND q) n = bit (0 :: nat) n" by (auto simp: bit_simps) (meson not_le)
  qed
  then have "p OR q = p + q" by (simp add: disjunctive_add_eq_or)
  then show ?thesis by (metis of_nat_or_eq)
qed

lemma b64_part_shape:
  "\<forall>d \<in> set ds. d < 64 \<Longrightarrow> length ds mod 4 = 1 \<Longrightarrow> b64_part ds < 256 \<and> 2 ^ 2 dvd b64_part ds"
  "length ds mod 4 = 2 \<Longrightarrow> b64_part ds < 256 \<and> 2 ^ 4 dvd b64_part ds"
  "length ds mod 4 = 3 \<Longrightarrow> b64_part ds < 256 \<and> 2 ^ 6 dvd b64_part ds"
proof -
  have "b mod 16 * 16 < 256" "c mod 4 * 64 < 256" for b c :: nat
    using mod_less_divisor [of 16 b] mod_less_divisor [of 4 c] by linarith+
  then show "\<forall>d \<in> set ds. d < 64 \<Longrightarrow> length ds mod 4 = 1 \<Longrightarrow> b64_part ds < 256 \<and> 2 ^ 2 dvd b64_part ds"
    "length ds mod 4 = 2 \<Longrightarrow> b64_part ds < 256 \<and> 2 ^ 4 dvd b64_part ds"
    "length ds mod 4 = 3 \<Longrightarrow> b64_part ds < 256 \<and> 2 ^ 6 dvd b64_part ds"
    by (induction ds rule: b64_part.induct) (simp_all add: dvd_def)
qed

lemma four_arith:
  "(4 * q + 1) div 4 = q" "(4 * q + 1) mod 4 = 1" "3 * (4 * q + 1) div 4 = 3 * q"
  "(4 * q + 2) div 4 = q" "(4 * q + 2) mod 4 = 2" "3 * (4 * q + 2) div 4 = 3 * q + 1"
  "(4 * q + 3) div 4 = q" "(4 * q + 3) mod 4 = 3" "3 * (4 * q + 3) div 4 = 3 * q + 2"
  "4 * (q + 1) div 4 = q + 1" "4 * (q + 1) mod 4 = 0" "3 * (4 * (q + 1)) div 4 = 3 * q + 3"
  "Suc (4 * q) div 4 = q" "Suc (4 * q) mod 4 = Suc 0" "3 * Suc (4 * q) div 4 = 3 * q" for q :: nat
  by presburger+

lemma b64_step_correct:
  assumes st: "b64_state ds t0 state t tarindex" and v: "v < 64"
  shows "if b64_fits (ds @ [v]) t0
    then \<exists>state' t' tarindex'. b64_step state (Some t) tarindex (of_nat v) = Some (Some t', Some (state', tarindex')) \<and>
      b64_state (ds @ [v]) t0 state' t' tarindex'
    else b64_step state (Some t) tarindex (of_nat v) = Some (Some t, None)"
proof -
  obtain q r where len: "length ds = 4 * q + r" and r: "length ds mod 4 = r" "r < 4"
    using mod_less_divisor [of 4 "length ds"] by (metis mult_div_mod_eq zero_less_numeral)
  note S' = st [unfolded b64_state_def]
  have ti: "tarindex = 3 * q + 3 * r div 4"
  proof -
    have "3 * length ds = 3 * r + (3 * q) * 4" using len by simp
    then have "3 * length ds div 4 = 3 * q + 3 * r div 4" by simp
    then show ?thesis using S' by simp
  qed
  have S: "\<forall>d \<in> set ds. d < 64" "state = r" "length t = length t0" "take tarindex t = b64_bytes ds"
    "drop (tarindex + 1) t = drop (tarindex + 1) t0" "r \<noteq> 0 \<longrightarrow> tarindex < length t \<and> t ! tarindex = of_nat (b64_part ds)"
    using S' r(1) by auto
  have dr: "drop (Suc (Suc tarindex)) t = drop (Suc (Suc tarindex)) t0"
    using S(5) by (metis Suc_eq_plus1 drop_Suc drop_tl tl_drop)
  have digits: "\<forall>d \<in> set (ds @ [v]). d < 64" using S(1) v by auto
  consider "r = 0" | "r = 1" | "r = 2" | "r = 3" using r(2) by linarith
  then show ?thesis
  proof cases
    case 1
    have n: "length (ds @ [v]) = 4 * q + 1" using len 1 by simp
    have "b64_fits (ds @ [v]) t0 \<longleftrightarrow> tarindex < length t"
      using S ti 1 r unfolding b64_fits_def n four_arith by auto
    moreover have "b64_state (ds @ [v]) t0 1 (t[tarindex := of_nat (v * 4)]) tarindex" if "tarindex < length t"
      unfolding b64_state_def n four_arith using that S ti 1 digits b64_snoc(1) [of ds v] r(1) by simp
    ultimately show ?thesis using S r 1 by (auto simp: b64_step_def mem_simps digit_bits(1) [OF v] simp del: of_nat_mult)
  next
    case 2
    have n: "length (ds @ [v]) = 4 * q + 2" using len 2 by simp
    let ?x = "of_nat (b64_part ds + v div 16) :: byte"
    have x: "t ! tarindex OR drop_bit 4 (of_nat v) = ?x"
      using S r 2 b64_part_shape(1) [of ds] v or_bits [of "b64_part ds" "v div 16" 2]
      unfolding digit_bits(2) [OF v] by (simp del: of_nat_add)
    have "b64_fits (ds @ [v]) t0 \<longleftrightarrow> tarindex + 1 < length t"
      using S ti 2 r unfolding b64_fits_def n four_arith by auto
    moreover have "b64_state (ds @ [v]) t0 2 (t[tarindex := ?x, tarindex + 1 := of_nat (v mod 16 * 16)]) (tarindex + 1)"
      if "tarindex + 1 < length t"
      unfolding b64_state_def n four_arith using that S ti 2 digits dr b64_snoc(2) [of ds v] r(1) by simp
    ultimately show ?thesis using S r 2 x by (auto simp: b64_step_def mem_simps digit_bits(3) [OF v] simp del: of_nat_mult of_nat_add push_bit_and)
  next
    case 3
    have n: "length (ds @ [v]) = 4 * q + 3" using len 3 by simp
    let ?x = "of_nat (b64_part ds + v div 4) :: byte"
    have x: "t ! tarindex OR drop_bit 2 (of_nat v) = ?x"
      using S r 3 b64_part_shape(2) [of ds] v or_bits [of "b64_part ds" "v div 4" 4]
      unfolding digit_bits(4) [OF v] by (simp del: of_nat_add)
    have "b64_fits (ds @ [v]) t0 \<longleftrightarrow> tarindex + 1 < length t"
      using S ti 3 r unfolding b64_fits_def n four_arith by auto
    moreover have "b64_state (ds @ [v]) t0 3 (t[tarindex := ?x, tarindex + 1 := of_nat (v mod 4 * 64)]) (tarindex + 1)"
      if "tarindex + 1 < length t"
      unfolding b64_state_def n four_arith using that S ti 3 digits dr b64_snoc(3) [of ds v] r(1) by simp
    ultimately show ?thesis using S r 3 x by (auto simp: b64_step_def mem_simps digit_bits(5) [OF v] simp del: of_nat_mult of_nat_add push_bit_and)
  next
    case 4
    have n: "length (ds @ [v]) = 4 * (q + 1)" using len 4 by simp
    let ?x = "of_nat (b64_part ds + v) :: byte"
    have x: "t ! tarindex OR of_nat v = ?x"
      using S r 4 b64_part_shape(3) [of ds] v or_bits [of "b64_part ds" v 6] by (simp del: of_nat_add)
    have "b64_fits (ds @ [v]) t0 \<longleftrightarrow> tarindex < length t"
      using S ti 4 r unfolding b64_fits_def n four_arith by auto
    moreover have "b64_state (ds @ [v]) t0 0 (t[tarindex := ?x]) (tarindex + 1)" if "tarindex < length t"
      unfolding b64_state_def n four_arith using that S ti 4 digits dr b64_snoc(4) [of ds v] r(1) by simp
    ultimately show ?thesis using S r 4 x by (auto simp: b64_step_def mem_simps simp del: of_nat_add)
  qed
qed

lemma b64_state_start: "b64_state [] t 0 t 0"
  by (simp add: b64_state_def)

lemma b64_fits_prefix: "b64_fits (ds @ es) t \<Longrightarrow> b64_fits ds t"
proof -
  let ?f = "\<lambda>n :: nat. 3 * (n div 4) + n mod 4"
  have step: "?f n \<le> ?f (Suc n)" for n by (simp add: mod_Suc div_Suc)
  have "?f (length ds) \<le> ?f (length (ds @ es))" by (rule lift_Suc_mono_le [of ?f]) (rule step, simp)
  then show "b64_fits (ds @ es) t \<Longrightarrow> b64_fits ds t" unfolding b64_fits_def by (rule le_trans)
qed

text \<open>
  A text without a zero byte is read as digits, up to its end or to the first \<open>=\<close>.  The loop stops
  early for any other character and when the target is too small.
\<close>

definition b64_text :: "byte list \<Rightarrow> nat list \<Rightarrow> byte list \<Rightarrow> bool" where
  "b64_text cs es tail \<longleftrightarrow> (\<forall>e \<in> set es. e < 64) \<and> cs = map digit es @ tail \<and> (tail = [] \<or> hd tail = Pad64)"

definition solid :: "byte list \<Rightarrow> byte list" where
  "solid inp = filter (\<lambda>c. \<not> c_isspace c) inp"

lemma b64_text_unique:
  "b64_text cs es tail \<Longrightarrow> b64_text cs es' tail' \<Longrightarrow> es = es' \<and> tail = tail'"
proof (induction es arbitrary: cs es')
  case Nil
  then show ?case by (cases es') (auto simp: b64_text_def)
next
  case (Cons e es)
  then obtain e' es'' where es': "es' = e' # es''" by (cases es') (auto simp: b64_text_def)
  then have "e = e'" using Cons.prems by (auto simp: b64_text_def digit_inj)
  moreover have "es = es'' \<and> tail = tail'"
    using Cons.prems es' by (intro Cons.IH [of "tl cs"]) (auto simp: b64_text_def)
  ultimately show ?case using es' by simp
qed

definition b64_outcome ::
  "byte list \<Rightarrow> nat list \<Rightarrow> byte list \<Rightarrow> byte list \<Rightarrow> byte list \<Rightarrow> (byte \<times> byte list \<times> nat \<times> nat) option \<Rightarrow> bool" where
  "b64_outcome cs ds t0 rest t' r \<longleftrightarrow> length t' = length t0 \<and>
    (case r of
       None \<Rightarrow> \<forall>es tail. b64_text cs es tail \<longrightarrow> \<not> b64_fits (ds @ es) t0
     | Some (ch, src, state', tarindex') \<Rightarrow> \<exists>es post. b64_text cs es (solid post) \<and> b64_state (ds @ es) t0 state' t' tarindex' \<and>
         0 \<notin> set post \<and> (es \<noteq> [] \<longrightarrow> b64_fits (ds @ es) t0) \<and>
         (if post = [] then ch = 0 \<and> src = rest else ch = Pad64 \<and> hd post = Pad64 \<and> src = tl post @ 0 # rest))"

lemma b64_outcome_stop:
  assumes "b64_state ds t0 state t tarindex" "0 \<notin> set post"
    "if post = [] then ch = 0 \<and> src = rest else ch = Pad64 \<and> hd post = Pad64 \<and> src = tl post @ 0 # rest"
  shows "b64_outcome (solid post) ds t0 rest t (Some (ch, src, state, tarindex))"
proof -
  have "b64_text (solid post) [] (solid post)"
    using assms(3) by (cases post) (auto simp: b64_text_def solid_def)
  with assms have "\<exists>es p. b64_text (solid post) es (solid p) \<and> b64_state (ds @ es) t0 state t tarindex \<and>
    0 \<notin> set p \<and> (es \<noteq> [] \<longrightarrow> b64_fits (ds @ es) t0) \<and>
    (if p = [] then ch = 0 \<and> src = rest else ch = Pad64 \<and> hd p = Pad64 \<and> src = tl p @ 0 # rest)"
    by (intro exI [of _ "[]"] exI [of _ post]) simp
  then show ?thesis using assms(1) by (simp add: b64_outcome_def b64_state_def)
qed

lemma b64_outcome_Cons:
  assumes "b64_outcome cs (ds @ [v]) t0 rest t r" "v < 64" "b64_fits (ds @ [v]) t0"
  shows "b64_outcome (digit v # cs) ds t0 rest t r"
proof -
  have tx: "b64_text (digit v # cs) es tail \<longleftrightarrow> (\<exists>es'. es = v # es' \<and> b64_text cs es' tail)" for es tail
    using assms(2) by (cases es) (auto simp: b64_text_def digit_inj)
  show ?thesis
  proof (cases r)
    case None
    then show ?thesis using assms(1) by (auto simp: b64_outcome_def tx)
  next
    case (Some a)
    obtain ch src state tarindex where a: "a = (ch, src, state, tarindex)" by (cases a)
    from assms(1) obtain es post where p: "b64_text cs es (solid post)" "b64_state (ds @ v # es) t0 state t tarindex" "0 \<notin> set post"
      "es \<noteq> [] \<longrightarrow> b64_fits (ds @ v # es) t0"
      "if post = [] then ch = 0 \<and> src = rest else ch = Pad64 \<and> hd post = Pad64 \<and> src = tl post @ 0 # rest" "length t = length t0"
      unfolding Some a b64_outcome_def by auto
    then have "\<exists>es post. b64_text (digit v # cs) es (solid post) \<and> b64_state (ds @ es) t0 state t tarindex \<and>
      0 \<notin> set post \<and> (es \<noteq> [] \<longrightarrow> b64_fits (ds @ es) t0) \<and>
      (if post = [] then ch = 0 \<and> src = rest else ch = Pad64 \<and> hd post = Pad64 \<and> src = tl post @ 0 # rest)"
      using assms(3) by (intro exI [of _ "v # es"] exI [of _ post]) (cases es; simp add: tx)
    then show ?thesis using p(6) by (simp add: b64_outcome_def Some a)
  qed
qed

lemma b64_outcome_reject:
  assumes "b64_state ds t0 state t tarindex" "\<And>es tail. b64_text cs es tail \<Longrightarrow> \<not> b64_fits (ds @ es) t0"
  shows "b64_outcome cs ds t0 rest t None"
  using assms by (auto simp: b64_outcome_def b64_state_def)

lemma b64_pton_loop_correct:
  assumes "b64_state ds t0 state t tarindex" "0 \<notin> set inp"
  shows "\<exists>t' r. b64_pton_loop (inp @ 0 # rest) state (Some t) tarindex = Some (Some t', r) \<and> b64_outcome (solid inp) ds t0 rest t' r"
  using assms
proof (induction inp arbitrary: ds state t tarindex)
  case Nil
  then show ?case using b64_outcome_stop [of ds t0 state t tarindex "[]"] by simp
next
  case (Cons c inp)
  have nz: "c \<noteq> 0" "0 \<notin> set inp" using Cons.prems(2) by auto
  consider (space) "c_isspace c" | (pad) "c = Pad64" | (bad) "\<not> c_isspace c" "c \<noteq> Pad64" "strchr Base64 c = None"
    | (digit) v where "v < 64" "c = digit v"
    by (cases "strchr Base64 c") (auto dest: strchr_Base64)
  then show ?case
  proof cases
    case space
    then have "solid (c # inp) = solid inp" by (simp add: solid_def)
    moreover have "b64_pton_loop ((c # inp) @ 0 # rest) state (Some t) tarindex = b64_pton_loop (inp @ 0 # rest) state (Some t) tarindex"
      using space nz(1) by simp
    ultimately show ?thesis using Cons.IH [OF Cons.prems(1) nz(2)] by simp
  next
    case pad
    then show ?thesis using b64_outcome_stop [OF Cons.prems, of Pad64 "inp @ 0 # rest" rest] by simp
  next
    case bad
    have "\<not> b64_text (solid (c # inp)) es tail" for es tail
      using bad by (cases es) (auto simp: b64_text_def solid_def)
    then have "b64_outcome (solid (c # inp)) ds t0 rest t None" by (intro b64_outcome_reject [OF Cons.prems(1)]) blast
    then show ?thesis using bad nz(1) by simp
  next
    case (digit v)
    note step = b64_step_correct [OF Cons.prems(1) digit(1)]
    have sol: "solid (c # inp) = digit v # solid inp" using digit by (simp add: solid_def)
    show ?thesis
    proof (cases "b64_fits (ds @ [v]) t0")
      case True
      then obtain state' t' tarindex' where s: "b64_step state (Some t) tarindex (of_nat v) = Some (Some t', Some (state', tarindex'))"
        "b64_state (ds @ [v]) t0 state' t' tarindex'" using step by auto
      obtain t'' r where r: "b64_pton_loop (inp @ 0 # rest) state' (Some t') tarindex' = Some (Some t'', r)"
        "b64_outcome (solid inp) (ds @ [v]) t0 rest t'' r"
        using Cons.IH [OF s(2) nz(2)] by blast
      have "b64_pton_loop ((c # inp) @ 0 # rest) state (Some t) tarindex = Some (Some t'', r)"
        using digit s(1) r(1) by simp
      with b64_outcome_Cons [OF r(2) digit(1) True] show ?thesis unfolding sol by blast
    next
      case False
      have "b64_outcome (digit v # solid inp) ds t0 rest t None"
      proof (rule b64_outcome_reject [OF Cons.prems(1)])
        fix es tail
        assume "b64_text (digit v # solid inp) es tail"
        then obtain es' where "es = v # es'" using digit(1) by (cases es) (auto simp: b64_text_def digit_inj)
        then show "\<not> b64_fits (ds @ es) t0" using False b64_fits_prefix [of "ds @ [v]" es' t0] by auto
      qed
      moreover have "b64_pton_loop ((c # inp) @ 0 # rest) state (Some t) tarindex = Some (Some t, None)"
        using digit step False by simp
      ultimately show ?thesis unfolding sol by blast
    qed
  qed
qed

lemma only_space_correct:
  "0 \<notin> set p \<Longrightarrow> only_space (hd (p @ 0 # rest)) (tl (p @ 0 # rest)) = Some (solid p = [])"
proof (induction p)
  case (Cons c p)
  then show ?case by (cases p) (auto simp: only_space.simps [of c] only_space.simps [of 0] solid_def)
qed (simp add: only_space.simps solid_def)

lemma skip_space_correct:
  "0 \<notin> set p \<Longrightarrow> skip_space (hd (p @ 0 # rest)) (tl (p @ 0 # rest)) =
     Some (let p = dropWhile c_isspace p in (hd (p @ [0]), if p = [] then rest else tl p @ 0 # rest))"
proof (induction p)
  case (Cons c p)
  then show ?case by (cases p) (auto simp: skip_space.simps [of c] skip_space.simps [of 0] Let_def)
qed (simp add: skip_space.simps)

lemma solid_dropWhile: "solid (dropWhile c_isspace p) = solid p"
  by (induction p) (simp_all add: solid_def)

lemma b64_trailer_correct:
  assumes "0 \<notin> set p" "tarindex < length t"
  shows "b64_trailer (hd (p @ 0 # rest)) (tl (p @ 0 # rest)) (Some t) tarindex =
    Some (if solid p = [] \<and> t ! tarindex = 0 then c_int tarindex else - 1)"
  using assms by (auto simp: b64_trailer_def only_space_correct mem_simps)

definition b64_pads :: "nat \<Rightarrow> byte list" where
  "b64_pads n = (if n mod 4 = 2 then [Pad64, Pad64] else if n mod 4 = 3 then [Pad64] else [])"

lemma b64_encode_pads:
  "b64_encode x = map digit (b64_digits x) @ b64_pads (length (b64_digits x)) \<and> length (b64_digits x) mod 4 \<noteq> 1"
proof (induction x rule: b64_digits.induct)
  case (1 a b c x)
  have "length (b64_digits (a # b # c # x)) mod 4 = length (b64_digits x) mod 4" by (simp add: Let_def)
  moreover have "b64_encode (a # b # c # x) = map digit (take 4 (b64_digits (a # b # c # x))) @ b64_encode x"
    by (simp add: b64_encode_code Let_def)
  ultimately show ?case using 1 [OF refl] by (simp add: b64_pads_def Let_def)
qed (simp_all add: b64_encode_code b64_pads_def Let_def numeral_2_eq_2)

lemma b64_part_whole: "length ds mod 4 = 0 \<Longrightarrow> b64_part ds = 0"
  by (induction ds rule: b64_part.induct) simp_all

lemma b64_finish_correct:
  assumes st: "b64_state es t0 state t tarindex" and post: "0 \<notin> set post"
    "if post = [] then ch = 0 \<and> src = rest else ch = Pad64 \<and> hd post = Pad64 \<and> src = tl post @ 0 # rest"
  shows "b64_finish ch src state (Some t) tarindex =
    Some (if state \<noteq> 1 \<and> solid post = b64_pads (length es) \<and> b64_part es = 0 then c_int tarindex else - 1)"
proof -
  have state: "state = length es mod 4" "state < 4" using st by (auto simp: b64_state_def)
  have part: "b64_part es = 0 \<longleftrightarrow> t ! tarindex = 0" "tarindex < length t" if "state \<noteq> 0"
  proof -
    have "b64_part es < 256"
      using st that state b64_part_shape [of es] by (cases "state = 1"; cases "state = 2") (auto simp: b64_state_def)
    then have "(of_nat (b64_part es) :: byte) = 0 \<longleftrightarrow> b64_part es = 0" using unat_bits [of "b64_part es"] by auto
    then show "b64_part es = 0 \<longleftrightarrow> t ! tarindex = 0" "tarindex < length t" using st that by (auto simp: b64_state_def)
  qed
  show ?thesis
  proof (cases post)
    case Nil
    have "state = 2 \<or> state = 3 \<or> state = 0 \<or> state = 1" using state(2) by linarith
    then show ?thesis using Nil post(2) state(1) b64_part_whole [of es]
      by (auto simp: b64_finish_def b64_pads_def solid_def)
  next
    case (Cons c p)
    then have p: "c = Pad64" "ch = Pad64" "src = p @ 0 # rest" "0 \<notin> set p" using post by auto
    have src: "rd src 0 = Some (hd (p @ 0 # rest))" "drop (Suc 0) src = tl (p @ 0 # rest)" by (cases p; simp add: p)+
    have solid: "solid post = Pad64 # solid p" using Cons p by (simp add: solid_def)
    consider "state = 0 \<or> state = 1" | "state = 2" | "state = 3" using state(2) by linarith
    then show ?thesis
    proof cases
      case 1
      then show ?thesis using state(1) solid by (auto simp: b64_finish_def p(2) src b64_pads_def)
    next
      case 2
      let ?p = "dropWhile c_isspace p"
      have skip: "skip_space (hd (p @ 0 # rest)) (tl (p @ 0 # rest)) = Some (hd (?p @ [0]), if ?p = [] then rest else tl ?p @ 0 # rest)"
        using skip_space_correct [OF p(4)] by (simp add: Let_def)
      show ?thesis
      proof (cases ?p)
        case Nil
        then have "solid p = []" using solid_dropWhile [of p] by (simp add: solid_def)
        then show ?thesis using 2 state(1) solid skip Nil by (simp add: b64_finish_def p(2) src b64_pads_def)
      next
        case (Cons c' p')
        have nz: "0 \<notin> set p'" using p(4) set_dropWhileD [of _ c_isspace p] Cons by auto
        have s: "solid p = solid (c' # p')" using solid_dropWhile [of p] Cons by simp
        have c': "\<not> c_isspace c'" using hd_dropWhile [of c_isspace p] Cons by simp
        have "b64_finish ch src state (Some t) tarindex =
          (if c' \<noteq> Pad64 then Some (- 1) else b64_trailer (hd (p' @ 0 # rest)) (tl (p' @ 0 # rest)) (Some t) tarindex)"
          using 2 skip Cons by (cases p') (simp_all add: b64_finish_def p(2) src)
        also have "\<dots> = Some (if c' = Pad64 \<and> solid p' = [] \<and> t ! tarindex = 0 then c_int tarindex else - 1)"
          using b64_trailer_correct [OF nz part(2)] 2 by auto
        finally show ?thesis using 2 state(1) solid s c' part(1) by (auto simp: b64_pads_def solid_def)
      qed
    next
      case 3
      then show ?thesis using b64_trailer_correct [OF p(4) part(2)] state(1) solid part(1)
        by (auto simp: b64_finish_def p(2) src b64_pads_def)
    qed
  qed
qed

lemma b64_pton_computes:
  assumes "0 \<notin> set inp" "length t < 2 ^ 31"
  shows "\<exists>t' r. b64_pton (inp @ 0 # rest) (Some t) = Some (Some t', r) \<and> length t' = length t \<and>
    (if \<exists>x. solid inp = b64_encode x \<and> b64_fits (b64_digits x) t
     then \<forall>x. solid inp = b64_encode x \<longrightarrow> r = int (length x) \<and> take (length x) t' = x \<and>
       drop (length x + 1) t' = drop (length x + 1) t
     else r = - 1)"
proof -
  have enc: "b64_text (b64_encode x) (b64_digits x) (b64_pads (length (b64_digits x)))" for x
    using b64_encode_pads [of x] b64_digits_less by (auto simp: b64_text_def b64_pads_def)
  obtain t' r where loop: "b64_pton_loop (inp @ 0 # rest) 0 (Some t) 0 = Some (Some t', r)" "b64_outcome (solid inp) [] t rest t' r"
    using b64_pton_loop_correct [OF b64_state_start assms(1)] by blast
  have len: "length t' = length t" using loop(2) by (simp add: b64_outcome_def)
  show ?thesis
  proof (cases r)
    case None
    then have no: "\<not> b64_fits es t" if "b64_text (solid inp) es tail" for es tail
      using loop(2) that by (auto simp: b64_outcome_def)
    have "\<not> (solid inp = b64_encode x \<and> b64_fits (b64_digits x) t)" for x
      using no enc [of x] by auto
    then show ?thesis using None loop(1) len by (auto simp: b64_pton_def)
  next
    case (Some a)
    obtain ch src state tarindex where a: "a = (ch, src, state, tarindex)" by (cases a)
    obtain es post where p: "b64_text (solid inp) es (solid post)" "b64_state es t state t' tarindex" "0 \<notin> set post"
      "es \<noteq> [] \<longrightarrow> b64_fits es t"
      "if post = [] then ch = 0 \<and> src = rest else ch = Pad64 \<and> hd post = Pad64 \<and> src = tl post @ 0 # rest"
      using loop(2) unfolding Some a b64_outcome_def by auto
    have fits: "b64_fits es t" using p(4) by (cases es) (simp_all add: b64_fits_def)
    let ?ok = "state \<noteq> 1 \<and> solid post = b64_pads (length es) \<and> b64_part es = 0"
    have res: "b64_pton (inp @ 0 # rest) (Some t) = Some (Some t', if ?ok then c_int tarindex else - 1)"
      using loop(1) b64_finish_correct [OF p(2,3,5)] by (simp add: b64_pton_def Some a)
    have es: "\<forall>e \<in> set es. e < 64" "state = length es mod 4" "tarindex = 3 * length es div 4" "take tarindex t' = b64_bytes es"
      "drop (tarindex + 1) t' = drop (tarindex + 1) t"
      using p(2) unfolding b64_state_def by blast+
    have only: "es = b64_digits x \<and> ?ok \<and> b64_bytes es = x" if "solid inp = b64_encode x" for x
      using b64_text_unique [OF p(1) [unfolded that] enc] b64_bytes_digits [of x] b64_encode_pads [of x] es(2) by auto
    show ?thesis
    proof (cases ?ok)
      case True
      then have "b64_digits (b64_bytes es) = es" using b64_digits_bytes [of es] es by auto
      then have sol: "solid inp = b64_encode (b64_bytes es)" and dig: "b64_digits (b64_bytes es) = es"
        using b64_encode_pads [of "b64_bytes es"] p(1) True by (simp_all add: b64_text_def)
      have ti: "tarindex = length (b64_bytes es)" using es(3) by (simp add: length_b64_bytes)
      then have "tarindex \<le> length t" using arg_cong [OF es(4), of length] len by simp
      then have ci: "c_int tarindex = int tarindex" using assms(2) by (intro c_int_eq) simp
      have ex: "\<exists>x. solid inp = b64_encode x \<and> b64_fits (b64_digits x) t"
        using sol dig fits by (intro exI [of _ "b64_bytes es"]) simp
      have all: "int tarindex = int (length x) \<and> take (length x) t' = x \<and> drop (length x + 1) t' = drop (length x + 1) t"
        if "solid inp = b64_encode x" for x
      proof -
        have x: "b64_bytes es = x" using only [OF that] by blast
        show ?thesis using ti es(4,5) unfolding x by simp
      qed
      have "b64_pton (inp @ 0 # rest) (Some t) = Some (Some t', int tarindex)" using res unfolding if_P [OF True] ci .
      then show ?thesis unfolding if_P [OF ex] using len all by blast
    next
      case False
      then have no: "\<not> (\<exists>x. solid inp = b64_encode x \<and> b64_fits (b64_digits x) t)" using only by blast
      have "b64_pton (inp @ 0 # rest) (Some t) = Some (Some t', - 1)" using res unfolding if_not_P [OF False] .
      then show ?thesis unfolding if_not_P [OF no] using len by blast
    qed
  qed
qed

lemma b64_fits_length:
  "b64_fits (b64_digits x) t \<longleftrightarrow> length x + of_bool (length x mod 3 \<noteq> 0) \<le> length t"
proof -
  obtain q r where x: "length x = 3 * q + r" "r < 3"
    using mod_less_divisor [of 3 "length x"] by (metis mult_div_mod_eq zero_less_numeral)
  then consider "r = 0" | "r = 1" | "r = 2" by linarith
  then show ?thesis
  proof cases
    case 1
    then have "length (b64_digits x) = 4 * q" using x by (simp add: length_b64_digits)
    then show ?thesis using x 1 by (simp add: b64_fits_def)
  next
    case 2
    have "length (b64_digits x) = (4 * q + 2) * 3 div 3" unfolding length_b64_digits x 2 by (rule arg_cong [of _ _ "\<lambda>n. n div 3"]) simp
    then have "length (b64_digits x) = 4 * q + 2" by simp
    then show ?thesis unfolding b64_fits_def x(1) 2 by (simp only: four_arith) simp
  next
    case 3
    have "4 * (3 * q + 2) + 2 = 1 + (4 * q + 3) * 3" by simp
    then have "length (b64_digits x) = (1 + (4 * q + 3) * 3) div 3" unfolding length_b64_digits x 3 by (rule arg_cong)
    then have "length (b64_digits x) = 4 * q + 3" by simp
    then show ?thesis unfolding b64_fits_def x(1) 3
      using mod_mult_self2 [of 2 3 q] by (simp only: four_arith add.commute [of _ 2]) auto
  qed
qed

lemma b64_encode_chars: "0 \<notin> set (b64_encode x) \<and> solid (b64_encode x) = b64_encode x"
proof -
  have "c \<noteq> 0 \<and> \<not> c_isspace c" if "c \<in> set (b64_encode x)" for c
    using that b64_digits_less [of _ x] digit_char by (fastforce simp: b64_encode_code)
  then show ?thesis by (auto simp: solid_def)
qed

subsection \<open>Properties\<close>

text \<open>
  C32: the encoder is base 64.  \<open>b64_ntop\<close> reads only its source and stays in its target; no \<open>Assert\<close> fails.
  If the encoding and its zero byte fit the target they are what is stored, and the length is returned;
  otherwise -1 is.
\<close>

theorem b64_ntop_correct:
  assumes "length target \<le> 2 ^ 31"
  shows "\<exists>t. b64_ntop (x @ rest) (length x) target =
      Some (t, if length (b64_encode x) < length target then int (length (b64_encode x)) else - 1) \<and> length t = length target \<and>
    (length (b64_encode x) < length target \<longrightarrow> t = overlay target 0 (b64_encode x @ [0]))"
  by (rule b64_ntop_computes [OF assms])

theorem b64_ntop_witness:
  "\<exists>t. b64_ntop ([1, 2, 3, 4] @ [9]) (length [1, 2, 3, 4 :: byte]) (replicate 9 0) =
      Some (t, if length (b64_encode [1, 2, 3, 4]) < length (replicate 9 (0 :: byte)) then int (length (b64_encode [1, 2, 3, 4])) else - 1) \<and>
    length t = length (replicate 9 (0 :: byte)) \<and>
    (length (b64_encode [1, 2, 3, 4]) < length (replicate 9 (0 :: byte)) \<longrightarrow> t = overlay (replicate 9 0) 0 (b64_encode [1, 2, 3, 4] @ [0]))"
  by (rule b64_ntop_correct) simp

text \<open>
  C10: the decoder accepts exactly the encodings.  Up to white space, \<open>b64_pton\<close> accepts the encodings of the
  byte strings that fit its target, and no others - a wrong padding or stray bits in the last
  digit are rejected -, and it stores the string and returns its length.  It never leaves its target; for
  a string that is not a multiple of three bytes it needs one byte of space more.
\<close>

theorem b64_pton_correct:
  assumes "0 \<notin> set inp" "length t < 2 ^ 31"
  shows "\<exists>t' r. b64_pton (inp @ 0 # rest) (Some t) = Some (Some t', r) \<and> length t' = length t \<and>
    (if \<exists>x. solid inp = b64_encode x \<and> length x + of_bool (length x mod 3 \<noteq> 0) \<le> length t
     then \<forall>x. solid inp = b64_encode x \<longrightarrow> r = int (length x) \<and> take (length x) t' = x \<and>
       drop (length x + 1) t' = drop (length x + 1) t
     else r = - 1)"
  using b64_pton_computes [OF assms] unfolding b64_fits_length .

theorem b64_pton_witness:
  "\<exists>t' r. b64_pton ([0x51, 0x20, 0x51, 0x3D, 0x3D] @ 0 # []) (Some [7, 7, 7]) = Some (Some t', r) \<and> length t' = length [7, 7, 7 :: byte] \<and>
    (if \<exists>x. solid [0x51, 0x20, 0x51, 0x3D, 0x3D] = b64_encode x \<and> length x + of_bool (length x mod 3 \<noteq> 0) \<le> length [7, 7, 7 :: byte]
     then \<forall>x. solid [0x51, 0x20, 0x51, 0x3D, 0x3D] = b64_encode x \<longrightarrow> r = int (length x) \<and> take (length x) t' = x \<and>
       drop (length x + 1) t' = drop (length x + 1) [7, 7, 7]
     else r = - 1)"
  by (rule b64_pton_correct) simp_all

text \<open>
  C23: decoding inverts encoding.  What \<open>b64_ntop\<close> writes into a large enough buffer, \<open>b64_pton\<close> turns back into the
  same bytes.
\<close>

theorem b64_roundtrip:
  assumes "length (b64_encode x) < length target" "length target \<le> 2 ^ 31" "length x < length t" "length t < 2 ^ 31"
  shows "\<exists>t1 t2. b64_ntop x (length x) target = Some (t1, int (length (b64_encode x))) \<and>
    b64_pton t1 (Some t) = Some (Some t2, int (length x)) \<and> take (length x) t2 = x"
proof -
  obtain t1 where t1: "b64_ntop x (length x) target = Some (t1, int (length (b64_encode x)))" "t1 = overlay target 0 (b64_encode x @ [0])"
    using b64_ntop_computes [OF assms(2), of x "[]"] assms(1) by auto
  have "t1 = b64_encode x @ 0 # drop (length (b64_encode x) + 1) target" by (simp add: t1(2) overlay_def)
  moreover have "length x + of_bool (length x mod 3 \<noteq> 0) \<le> length t" using assms(3) by simp
  moreover from this have fits: "\<exists>y. solid (b64_encode x) = b64_encode y \<and> b64_fits (b64_digits y) t"
    using b64_encode_chars [of x] unfolding b64_fits_length by blast
  ultimately obtain t2 where "b64_pton t1 (Some t) = Some (Some t2, int (length x))" "take (length x) t2 = x"
    using b64_pton_computes [of "b64_encode x" t "drop (length (b64_encode x) + 1) target"] assms(4) b64_encode_chars [of x]
    unfolding if_P [OF fits] by auto
  with t1(1) show ?thesis by blast
qed

theorem b64_roundtrip_witness:
  "\<exists>t1 t2. b64_ntop [1, 2, 3, 255] (length [1, 2, 3, 255 :: byte]) (replicate 9 0) = Some (t1, int (length (b64_encode [1, 2, 3, 255]))) \<and>
     b64_pton t1 (Some (replicate 5 0)) = Some (Some t2, int (length [1, 2, 3, 255 :: byte])) \<and> take (length [1, 2, 3, 255 :: byte]) t2 = [1, 2, 3, 255]"
  by (rule b64_roundtrip) (simp_all add: length_b64_encode)

end
