(* ===== verification/Inet_Addr.thy ===== *)
theory Inet_Addr
  imports Libc_Prelude
begin

text \<open>
  Addresses in presentation and network form: \<^verbatim>\<open>src/original/resolv/inet_pton.c\<close> and
  \<^verbatim>\<open>inet_ntop.c\<close>.

  A pointer that only moves forward over a string is the rest of the string; \<open>src == src_endp\<close>
  says that it is empty.  Local arrays are arguments, as they are uninitialised.  \<open>sprintf\<close> with
  \<open>%u\<close> and \<open>%x\<close> writes the digits of a number and a terminator.
\<close>

subsection \<open>Strings of the C library\<close>

function fmt_base :: "nat \<Rightarrow> nat \<Rightarrow> nat list" where
  "fmt_base b n = (if n < b \<or> b < 2 then [n] else fmt_base b (n div b) @ [n mod b])"
  by pat_completeness auto
termination
  by (relation "measure snd") (auto intro!: div_less_dividend)

declare fmt_base.simps [simp del]

definition digit_char :: "nat \<Rightarrow> byte" where
  "digit_char d = (if d < 10 then word_of_nat (48 + d) else word_of_nat (87 + d))"

definition fmt_u :: "nat \<Rightarrow> byte list" where
  "fmt_u n = map digit_char (fmt_base 10 n)"

definition fmt_x :: "nat \<Rightarrow> byte list" where
  "fmt_x n = map digit_char (fmt_base 16 n)"

text \<open>\<open>strcpy (dst + d, src)\<close>, and \<open>sprintf\<close> of a text \<open>s\<close> that is formatted already.\<close>

fun strcpy_to :: "byte list \<Rightarrow> nat \<Rightarrow> byte list \<Rightarrow> byte list option" where
  "strcpy_to dst d [] = None"
| "strcpy_to dst d (c # src) =
     do { dst \<leftarrow> wr dst d c; if c = 0 then Some dst else strcpy_to dst (d + 1) src }"

definition sprintf_to :: "byte list \<Rightarrow> nat \<Rightarrow> byte list \<Rightarrow> byte list option" where
  "sprintf_to dst d s = memcpy dst d (s @ [0]) 0 (length s + 1)"

fun strlen_of :: "byte list \<Rightarrow> nat option" where
  "strlen_of [] = None"
| "strlen_of (c # s) = (if c = 0 then Some 0 else do { n \<leftarrow> strlen_of s; Some (n + 1) })"

subsection \<open>From text to binary\<close>

definition is_dec :: "byte \<Rightarrow> bool" where
  "is_dec ch \<longleftrightarrow> 0x30 \<le> ch \<and> ch \<le> 0x39"

text \<open>The loop of \<open>inet_pton4\<close>; the inner \<open>None\<close> is \<open>return 0\<close>.\<close>

fun pton4_loop :: "byte list \<Rightarrow> byte list \<Rightarrow> nat \<Rightarrow> bool \<Rightarrow> nat \<Rightarrow> (byte list \<times> nat) option option" where
  "pton4_loop [] tmp tp saw_digit octets = Some (Some (tmp, octets))"
| "pton4_loop (ch # src) tmp tp saw_digit octets =
     (if is_dec ch
      then do { t \<leftarrow> rd tmp tp;
                let new = unat t * 10 + (unat ch - 48);
                if saw_digit \<and> t = 0 then Some None
                else if 255 < new then Some None
                else do { tmp \<leftarrow> wr tmp tp (word_of_nat new);
                          if \<not> saw_digit
                          then if 4 < octets + 1 then Some None else pton4_loop src tmp tp True (octets + 1)
                          else pton4_loop src tmp tp saw_digit octets } }
      else if ch = 0x2E \<and> saw_digit
      then if octets = 4 then Some None
           else do { tmp \<leftarrow> wr tmp (tp + 1) 0; pton4_loop src tmp (tp + 1) False octets }
      else Some None)"

declare pton4_loop.simps(2) [simp del]

text \<open>\<open>inet_pton4\<close> with output \<open>dst + d\<close>; the result is the new output and the value returned.\<close>

definition inet_pton4 :: "byte list \<Rightarrow> byte list \<Rightarrow> byte list \<Rightarrow> nat \<Rightarrow> (byte list \<times> bool) option" where
  "inet_pton4 tmp0 src dst d =
     do { tmp \<leftarrow> wr tmp0 0 0;
          r \<leftarrow> pton4_loop src tmp 0 False 0;
          case r of
            None \<Rightarrow> Some (dst, False)
          | Some (tmp, octets) \<Rightarrow>
              if octets < 4 then Some (dst, False)
              else do { dst \<leftarrow> memcpy dst d tmp 0 4; Some (dst, True) } }"

definition hex_digit_value :: "byte \<Rightarrow> int" where
  "hex_digit_value ch =
     (if 0x30 \<le> ch \<and> ch \<le> 0x39 then int (unat ch) - 48
      else if 0x61 \<le> ch \<and> ch \<le> 0x66 then int (unat ch) - 97 + 10
      else if 0x41 \<le> ch \<and> ch \<le> 0x46 then int (unat ch) - 65 + 10
      else - 1)"

text \<open>The local variables of \<open>inet_pton6\<close>; \<open>tp\<close> and \<open>colonp\<close> are offsets into \<open>tmp\<close>.\<close>

record pton6 =
  p_tmp :: "byte list"
  p_tp :: nat
  p_colonp :: "nat option"
  p_xdigits_seen :: nat
  p_val :: "32 word"

definition put_val :: "pton6 \<Rightarrow> pton6 option" where
  "put_val s =
     do { tmp \<leftarrow> wr (p_tmp s) (p_tp s) (ucast (drop_bit 8 (p_val s)));
          tmp \<leftarrow> wr tmp (p_tp s + 1) (ucast (p_val s));
          Some (s\<lparr>p_tmp := tmp, p_tp := p_tp s + 2\<rparr>) }"

fun pton6_loop :: "byte list \<Rightarrow> byte list \<Rightarrow> byte list \<Rightarrow> pton6 \<Rightarrow> pton6 option option" where
  "pton6_loop tmp4 [] curtok s = Some (Some s)"
| "pton6_loop tmp4 (ch # src) curtok s =
     (let digit = hex_digit_value ch in
      if 0 \<le> digit
      then if p_xdigits_seen s = 4 then Some None
           else let val = push_bit 4 (p_val s) OR word_of_int digit in
                if 0xFFFF < val then Some None
                else pton6_loop tmp4 src curtok (s\<lparr>p_val := val, p_xdigits_seen := p_xdigits_seen s + 1\<rparr>)
      else if ch = 0x3A
      then if p_xdigits_seen s = 0
           then if p_colonp s \<noteq> None then Some None
                else pton6_loop tmp4 src src (s\<lparr>p_colonp := Some (p_tp s)\<rparr>)
           else if src = [] then Some None
           else if 16 < p_tp s + 2 then Some None
           else do { s \<leftarrow> put_val s; pton6_loop tmp4 src src (s\<lparr>p_xdigits_seen := 0, p_val := 0\<rparr>) }
      else if ch = 0x2E \<and> p_tp s + 4 \<le> 16
      then do { (tmp, ok) \<leftarrow> inet_pton4 tmp4 curtok (p_tmp s) (p_tp s);
                if ok then Some (Some (s\<lparr>p_tmp := tmp, p_tp := p_tp s + 4, p_xdigits_seen := 0\<rparr>))
                else Some None }
      else Some None)"

declare pton6_loop.simps(2) [simp del]

text \<open>What follows the loop: the last group, the zeros for \<open>::\<close>, the copy to the output.\<close>

definition pton6_colon :: "pton6 \<Rightarrow> pton6 option option" where
  "pton6_colon s =
     (case p_colonp s of
        None \<Rightarrow> Some (Some s)
      | Some colonp \<Rightarrow>
          if p_tp s = 16 then Some None
          else do { let n = p_tp s - colonp;
                    tmp \<leftarrow> memcpy (p_tmp s) (16 - n) (p_tmp s) colonp n;
                    tmp \<leftarrow> memcpy tmp colonp (replicate (16 - n - colonp) 0) 0 (16 - n - colonp);
                    Some (Some (s\<lparr>p_tmp := tmp, p_tp := 16\<rparr>)) })"

definition pton6_finish :: "pton6 \<Rightarrow> pton6 option option" where
  "pton6_finish s =
     (if 0 < p_xdigits_seen s
      then if 16 < p_tp s + 2 then Some None
           else do { s \<leftarrow> put_val s; pton6_colon s }
      else pton6_colon s)"

definition inet_pton6 :: "byte list \<Rightarrow> byte list \<Rightarrow> byte list \<Rightarrow> (byte list \<times> bool) option" where
  "inet_pton6 tmp4 src dst =
     (case src of
        [] \<Rightarrow> Some (dst, False)
      | c # src' \<Rightarrow>
          if c = 0x3A \<and> (src' = [] \<or> hd src' \<noteq> 0x3A) then Some (dst, False)
          else do { let src = (if c = 0x3A then src' else src);
                    r \<leftarrow> pton6_loop tmp4 src src
                           \<lparr>p_tmp = replicate 16 0, p_tp = 0, p_colonp = None, p_xdigits_seen = 0, p_val = 0\<rparr>;
                    case r of
                      None \<Rightarrow> Some (dst, False)
                    | Some s \<Rightarrow>
                        do { r \<leftarrow> pton6_finish s;
                             case r of
                               None \<Rightarrow> Some (dst, False)
                             | Some s \<Rightarrow>
                                 if p_tp s \<noteq> 16 then Some (dst, False)
                                 else do { dst \<leftarrow> memcpy dst 0 (p_tmp s) 0 16; Some (dst, True) } } })"

definition AF_INET :: int where
  "AF_INET = 2"

definition AF_INET6 :: int where
  "AF_INET6 = 10"

definition inet_pton_length :: "byte list \<Rightarrow> int \<Rightarrow> byte list \<Rightarrow> nat \<Rightarrow> byte list \<Rightarrow> (byte list \<times> bool cret) option" where
  "inet_pton_length tmp4 af src srclen dst =
     (if length src < srclen then None
      else if af = AF_INET then do { (dst, r) \<leftarrow> inet_pton4 tmp4 (take srclen src) dst 0; Some (dst, Inr r) }
      else if af = AF_INET6 then do { (dst, r) \<leftarrow> inet_pton6 tmp4 (take srclen src) dst; Some (dst, Inr r) }
      else Some (dst, Inl EAFNOSUPPORT))"

definition inet_pton :: "byte list \<Rightarrow> int \<Rightarrow> byte list \<Rightarrow> byte list \<Rightarrow> (byte list \<times> bool cret) option" where
  "inet_pton tmp4 af src dst = do { n \<leftarrow> strlen_of src; inet_pton_length tmp4 af src n dst }"

subsection \<open>From binary to text\<close>

definition dotted :: "byte list \<Rightarrow> byte list" where
  "dotted a = fmt_u (unat (a ! 0)) @ [0x2E] @ fmt_u (unat (a ! 1)) @ [0x2E] @ fmt_u (unat (a ! 2)) @ [0x2E] @ fmt_u (unat (a ! 3))"

text \<open>The output is \<open>dst + d\<close>, of which \<open>siz\<close> bytes may be used.\<close>

definition inet_ntop4 :: "byte list \<Rightarrow> byte list \<Rightarrow> byte list \<Rightarrow> nat \<Rightarrow> nat \<Rightarrow> (byte list \<times> unit cret) option" where
  "inet_ntop4 tmp0 src dst d siz =
     do { _ \<leftarrow> rd src 3;
          tmp \<leftarrow> sprintf_to tmp0 0 (dotted src);
          if siz \<le> length (dotted src) then Some (dst, Inl ENOSPC)
          else do { dst \<leftarrow> strcpy_to dst d tmp; Some (dst, Inr ()) } }"

fun load_words :: "nat \<Rightarrow> nat \<Rightarrow> byte list \<Rightarrow> nat list \<Rightarrow> nat list option" where
  "load_words 0 i src words = Some words"
| "load_words (Suc k) i src words =
     do { a \<leftarrow> rd src i; b \<leftarrow> rd src (i + 1);
          words \<leftarrow> wr words (i div 2) (unat a * 256 + unat b);
          load_words k (i + 2) src words }"

text \<open>A run of zero words: \<open>base\<close> and \<open>len\<close>.\<close>

type_synonym run = "int \<times> int"

definition better :: "run \<Rightarrow> run \<Rightarrow> run" where
  "better best cur = (if fst best = - 1 \<or> snd best < snd cur then cur else best)"

fun run_loop :: "nat list \<Rightarrow> int \<Rightarrow> run \<Rightarrow> run \<Rightarrow> run \<times> run" where
  "run_loop [] i best cur = (best, cur)"
| "run_loop (w # ws) i best cur =
     (if w = 0
      then run_loop ws (i + 1) best (if fst cur = - 1 then (i, 1) else (fst cur, snd cur + 1))
      else if fst cur \<noteq> - 1 then run_loop ws (i + 1) (better best cur) (- 1, snd cur)
      else run_loop ws (i + 1) best cur)"

definition best_run :: "nat list \<Rightarrow> run" where
  "best_run words =
     (let (best, cur) = run_loop words 0 (- 1, 0) (- 1, 0);
          best = (if fst cur \<noteq> - 1 then better best cur else best)
      in if fst best \<noteq> - 1 \<and> snd best < 2 then (- 1, snd best) else best)"

definition putc :: "byte list \<Rightarrow> nat \<Rightarrow> byte \<Rightarrow> (byte list \<times> nat) option" where
  "putc tmp tp c = do { tmp \<leftarrow> wr tmp tp c; Some (tmp, tp + 1) }"

text \<open>The formatting loop; \<open>k\<close> words are left, \<open>src\<close> is the whole address.\<close>

fun ntop6_loop ::
  "nat \<Rightarrow> byte list \<Rightarrow> byte list \<Rightarrow> nat list \<Rightarrow> run \<Rightarrow> nat \<Rightarrow> byte list \<Rightarrow> nat \<Rightarrow> (byte list \<times> nat cret) option" where
  "ntop6_loop 0 tmp4 src words best i tmp tp = Some (tmp, Inr tp)"
| "ntop6_loop (Suc k) tmp4 src words best i tmp tp =
     (if fst best \<noteq> - 1 \<and> fst best \<le> int i \<and> int i < fst best + snd best
      then do { (tmp, tp) \<leftarrow> (if int i = fst best then putc tmp tp 0x3A else Some (tmp, tp));
                ntop6_loop k tmp4 src words best (i + 1) tmp tp }
      else do { (tmp, tp) \<leftarrow> (if i \<noteq> 0 then putc tmp tp 0x3A else Some (tmp, tp));
                w5 \<leftarrow> rd words 5;
                if i = 6 \<and> fst best = 0 \<and> (snd best = 6 \<or> snd best = 5 \<and> w5 = 0xFFFF)
                then do { (tmp, r) \<leftarrow> inet_ntop4 tmp4 (drop 12 src) tmp tp (46 - tp);
                          case r of
                            Inl e \<Rightarrow> Some (tmp, Inl e)
                          | Inr _ \<Rightarrow> do { n \<leftarrow> strlen_of (drop tp tmp); Some (tmp, Inr (tp + n)) } }
                else do { w \<leftarrow> rd words i;
                          tmp \<leftarrow> sprintf_to tmp tp (fmt_x w);
                          ntop6_loop k tmp4 src words best (i + 1) tmp (tp + length (fmt_x w)) } })"

declare ntop6_loop.simps(2) [simp del]

definition inet_ntop6 :: "byte list \<Rightarrow> byte list \<Rightarrow> byte list \<Rightarrow> byte list \<Rightarrow> nat \<Rightarrow> (byte list \<times> unit cret) option" where
  "inet_ntop6 tmp0 tmp4 src dst siz =
     do { words \<leftarrow> load_words 8 0 src (replicate 8 0);
          let best = best_run words;
          (tmp, r) \<leftarrow> ntop6_loop 8 tmp4 src words best 0 tmp0 0;
          case r of
            Inl e \<Rightarrow> Some (dst, Inl e)
          | Inr tp \<Rightarrow>
              do { (tmp, tp) \<leftarrow> (if fst best \<noteq> - 1 \<and> fst best + snd best = 8 then putc tmp tp 0x3A else Some (tmp, tp));
                   (tmp, tp) \<leftarrow> putc tmp tp 0;
                   if siz < tp then Some (dst, Inl ENOSPC)
                   else do { dst \<leftarrow> strcpy_to dst 0 tmp; Some (dst, Inr ()) } } }"

definition inet_ntop :: "byte list \<Rightarrow> byte list \<Rightarrow> int \<Rightarrow> byte list \<Rightarrow> byte list \<Rightarrow> nat \<Rightarrow> (byte list \<times> unit cret) option" where
  "inet_ntop tmp0 tmp4 af src dst siz =
     (if af = AF_INET then inet_ntop4 tmp4 src dst 0 siz
      else if af = AF_INET6 then inet_ntop6 tmp0 tmp4 src dst siz
      else Some (dst, Inl EAFNOSUPPORT))"

subsection \<open>Digits\<close>

lemma digit_char_dec:
  assumes "d < 10"
  shows "is_dec (digit_char d)" "unat (digit_char d) = 48 + d" "digit_char d \<noteq> 0"
proof -
  have "\<forall>d \<in> set [0..<10]. is_dec (digit_char d) \<and> unat (digit_char d) = 48 + d \<and> digit_char d \<noteq> 0" by code_simp
  with assms show "is_dec (digit_char d)" "unat (digit_char d) = 48 + d" "digit_char d \<noteq> 0" by auto
qed

lemma digit_char_hex:
  assumes "d < 16"
  shows "hex_digit_value (digit_char d) = int d" "digit_char d \<noteq> 0"
proof -
  have "\<forall>d \<in> set [0..<16]. hex_digit_value (digit_char d) = int d \<and> digit_char d \<noteq> 0" by code_simp
  with assms show "hex_digit_value (digit_char d) = int d" "digit_char d \<noteq> 0" by auto
qed

lemma fmt_base_bound: "2 \<le> b \<Longrightarrow> d \<in> set (fmt_base b n) \<Longrightarrow> d < b"
proof (induction b n rule: fmt_base.induct)
  case (1 b n)
  then show ?case unfolding fmt_base.simps [of b n] by (auto split: if_splits)
qed

lemma fmt_base_length: "2 \<le> b \<Longrightarrow> n < b ^ Suc k \<Longrightarrow> length (fmt_base b n) \<le> Suc k"
proof (induction k arbitrary: n)
  case 0
  then show ?case by (simp add: fmt_base.simps [of b n])
next
  case (Suc k)
  then have "n div b < b ^ Suc k" by (simp add: less_mult_imp_div_less mult.commute)
  with Suc show ?case by (subst fmt_base.simps) auto
qed

lemma fmt_no_zero: "0 \<notin> set (fmt_u n)" "0 \<notin> set (fmt_x n)"
  using digit_char_dec(3) digit_char_hex(2) fmt_base_bound [of 10 _ n] fmt_base_bound [of 16 _ n]
  by (force simp: fmt_u_def fmt_x_def)+

lemma fmt_nonempty [simp]: "fmt_u n \<noteq> []" "fmt_x n \<noteq> []"
  by (simp_all add: fmt_u_def fmt_x_def fmt_base.simps [of _ n])

lemma fmt_length: "n < 1000 \<Longrightarrow> length (fmt_u n) \<le> 3" "n < 65536 \<Longrightarrow> length (fmt_x n) \<le> 4"
  using fmt_base_length [of 10 n 2] fmt_base_length [of 16 n 3] by (simp_all add: fmt_u_def fmt_x_def)

subsection \<open>Dotted quads\<close>

lemma pton4_digit:
  assumes "d < 10" "tp < length tmp" "unat (tmp ! tp) * 10 + d \<le> 255" "saw \<Longrightarrow> tmp ! tp \<noteq> 0" "\<not> saw \<Longrightarrow> octets < 4"
  shows "pton4_loop (digit_char d # src) tmp tp saw octets =
    pton4_loop src (tmp[tp := word_of_nat (unat (tmp ! tp) * 10 + d)]) tp True (if saw then octets else octets + 1)"
  using assms digit_char_dec [OF assms(1)] by (cases saw) (auto simp: pton4_loop.simps(2) rd_in wr_in)

lemma pton4_number:
  assumes "n < 256" "tp < length tmp" "tmp ! tp = 0" "octets < 4"
  shows "pton4_loop (fmt_u n @ src) tmp tp False octets = pton4_loop src (tmp[tp := word_of_nat n]) tp True (octets + 1)"
proof -
  have small: "unat (word_of_nat k :: byte) = k" if "k < 256" for k using that by (rule word_of_nat_byte_eq)
  have nz: "(word_of_nat k :: byte) \<noteq> 0" if "0 < k" "k < 256" for k using small [OF that(2)] that(1) by auto
  consider "n < 10" | "10 \<le> n" "n < 100" | "100 \<le> n" by linarith
  then show ?thesis
  proof cases
    case 1
    with assms show ?thesis by (simp add: fmt_u_def fmt_base.simps [of 10 n] pton4_digit)
  next
    case 2
    then have "n div 10 < 10" by auto
    then have fmt: "fmt_u n = [digit_char (n div 10), digit_char (n mod 10)]"
      using 2 by (simp add: fmt_u_def fmt_base.simps [of 10 n] fmt_base.simps [of 10 "n div 10"])
    have d: "n div 10 < 10" "0 < n div 10" "n div 10 < 256" "n div 10 * 10 + n mod 10 = n" using 2 by auto
    have "pton4_loop (digit_char (n mod 10) # src) (tmp[tp := word_of_nat (n div 10)]) tp True (octets + 1) =
        pton4_loop src (tmp[tp := word_of_nat n]) tp True (octets + 1)"
      using pton4_digit [of "n mod 10" tp "tmp[tp := word_of_nat (n div 10)]" True] assms(1,2) d(4) small [OF d(3)] nz [OF d(2,3)]
      by simp
    then show ?thesis using assms 2 d by (simp add: fmt pton4_digit)
  next
    case 3
    have "n div 10 div 10 < 10" using assms(1) by auto
    then have fmt: "fmt_u n = [digit_char (n div 10 div 10), digit_char (n div 10 mod 10), digit_char (n mod 10)]"
      using 3 by (simp add: fmt_u_def fmt_base.simps [of 10 n] fmt_base.simps [of 10 "n div 10"]
        fmt_base.simps [of 10 "n div 10 div 10"] del: div_mult2_eq [symmetric])
    have d: "n div 10 div 10 < 10" "0 < n div 10 div 10" "n div 10 div 10 < 256" "n div 10 < 256" "0 < n div 10"
      "n div 10 div 10 * 10 + n div 10 mod 10 = n div 10" "n div 10 * 10 + n mod 10 = n" using 3 assms(1) by auto
    have "pton4_loop (digit_char (n div 10 mod 10) # digit_char (n mod 10) # src) (tmp[tp := word_of_nat (n div 10 div 10)]) tp True (octets + 1) =
        pton4_loop (digit_char (n mod 10) # src) (tmp[tp := word_of_nat (n div 10)]) tp True (octets + 1)"
      using pton4_digit [of "n div 10 mod 10" tp "tmp[tp := word_of_nat (n div 10 div 10)]" True] assms(2) d(4,6)
        small [OF d(3)] nz [OF d(2,3)] by simp
    moreover have "pton4_loop (digit_char (n mod 10) # src) (tmp[tp := word_of_nat (n div 10)]) tp True (octets + 1) =
        pton4_loop src (tmp[tp := word_of_nat n]) tp True (octets + 1)"
      using pton4_digit [of "n mod 10" tp "tmp[tp := word_of_nat (n div 10)]" True] assms(1,2) d(7) small [OF d(4)] nz [OF d(5,4)]
      by simp
    ultimately show ?thesis using assms d(1) by (simp add: fmt pton4_digit)
  qed
qed

lemma pton4_dot:
  assumes "octets < 4" "tp + 1 < length tmp"
  shows "pton4_loop (0x2E # src) tmp tp True octets = pton4_loop src (tmp[tp + 1 := 0]) (tp + 1) False octets"
  using assms by (simp add: pton4_loop.simps(2) is_dec_def wr_in)

lemma length_4: "length xs = 4 \<longleftrightarrow> (\<exists>a b c d. xs = [a, b, c, d])"
  by (auto simp: numeral_eq_Suc length_Suc_conv)

lemma pton4_dotted:
  assumes "length a = 4" "length tmp0 = 4"
  shows "pton4_loop (dotted a) (tmp0[0 := 0]) 0 False 0 = Some (Some (a, 4))"
proof -
  obtain a0 a1 a2 a3 t0 t1 t2 t3 where eq: "a = [a0, a1, a2, a3]" "tmp0 = [t0, t1, t2, t3]"
    using assms by (auto simp: length_4)
  have last: "pton4_loop (fmt_u n) tmp tp False octets = Some (Some (tmp[tp := word_of_nat n], octets + 1))"
    if "n < 256" "tp < length tmp" "tmp ! tp = 0" "octets < 4" for n tp tmp octets
    using pton4_number [OF that, of "[]"] by simp
  show ?thesis by (simp add: dotted_def eq pton4_number pton4_dot last)
qed

lemma inet_pton4_dotted:
  assumes "length a = 4" "length tmp0 = 4" "d + 4 \<le> length dst"
  shows "inet_pton4 tmp0 (dotted a) dst d = Some (overlay dst d a, True)"
  using assms pton4_dotted [OF assms(1,2)] by (simp add: inet_pton4_def wr_in memcpy_overlay)

text \<open>\<open>inet_pton4\<close> on any text: it stays in its local array, and writes the output on success only.\<close>

lemma pton4_loop_safe:
  assumes "length tmp = 4" "tp + of_bool saw = octets" "octets \<le> 4" "tp < 4"
  shows "\<exists>r. pton4_loop src tmp tp saw octets = Some r \<and> (\<forall>tmp' n. r = Some (tmp', n) \<longrightarrow> length tmp' = 4)"
  using assms
proof (induction src arbitrary: tmp tp saw octets)
  case (Cons ch src)
  show ?case
  proof (cases "is_dec ch")
    case True
    let ?tmp = "tmp[tp := word_of_nat (unat (tmp ! tp) * 10 + (unat ch - 48))]"
    have "\<exists>r. pton4_loop src ?tmp tp True (if saw then octets else octets + 1) = Some r \<and>
        (\<forall>tmp' n. r = Some (tmp', n) \<longrightarrow> length tmp' = 4)" using Cons.prems by (intro Cons.IH) auto
    with True Cons.prems show ?thesis by (auto simp: pton4_loop.simps(2) rd_in wr_in Let_def)
  next
    case False
    with Cons.IH [of "tmp[tp + 1 := 0]" "tp + 1" False octets] Cons.prems show ?thesis
      by (auto simp: pton4_loop.simps(2) wr_in)
  qed
qed simp

lemma inet_pton4_safe:
  assumes "length tmp0 = 4" "d + 4 \<le> length dst"
  shows "(\<exists>a. length a = 4 \<and> inet_pton4 tmp0 src dst d = Some (overlay dst d a, True)) \<or>
    inet_pton4 tmp0 src dst d = Some (dst, False)"
proof -
  obtain r where r: "pton4_loop src (tmp0[0 := 0]) 0 False 0 = Some r" "\<And>tmp' n. r = Some (tmp', n) \<Longrightarrow> length tmp' = 4"
    using pton4_loop_safe [of "tmp0[0 := 0]" 0 False 0 src] assms(1) by auto
  show ?thesis
    using r assms by (cases r) (auto simp: inet_pton4_def wr_in memcpy_overlay)
qed

subsection \<open>Groups of hexadecimal digits\<close>

lemma fmt_base_value: "2 \<le> b \<Longrightarrow> foldl (\<lambda>v d. v * b + d) 0 (fmt_base b n) = n"
proof (induction b n rule: fmt_base.induct)
  case (1 b n)
  then show ?case unfolding fmt_base.simps [of b n] by (auto simp: div_mult_mod_eq)
qed

lemma pton6_digit:
  assumes "d < 16" "p_xdigits_seen s < 4" "unat (p_val s) < 16 ^ p_xdigits_seen s"
  shows "pton6_loop tmp4 (digit_char d # src) curtok s =
      pton6_loop tmp4 src curtok (s\<lparr>p_val := word_of_nat (unat (p_val s) * 16 + d), p_xdigits_seen := p_xdigits_seen s + 1\<rparr>)"
    and "unat (word_of_nat (unat (p_val s) * 16 + d) :: 32 word) = unat (p_val s) * 16 + d"
    and "unat (p_val s) * 16 + d < 16 ^ (p_xdigits_seen s + 1)"
proof -
  define v where "v = unat (p_val s)"
  have pow: "(16 :: nat) ^ p_xdigits_seen s \<le> 16 ^ 3" using assms(2) by (intro power_increasing) auto
  have v: "v < 16 ^ p_xdigits_seen s" "v < 4096" using assms(3) pow by (auto simp: v_def)
  show "unat (p_val s) * 16 + d < 16 ^ (p_xdigits_seen s + 1)" using v assms(1) by (simp add: v_def)
  show u: "unat (word_of_nat (unat (p_val s) * 16 + d) :: 32 word) = unat (p_val s) * 16 + d"
    using v(2) assms(1) by (simp add: v_def [symmetric] unat_of_nat take_bit_eq_mod del: of_nat_add of_nat_mult)
  have disj: "push_bit 4 (p_val s) AND word_of_nat d = 0"
  proof (rule bit_word_eqI)
    fix n assume "n < LENGTH(32)"
    have "take_bit 4 d = d" using assms(1) by (simp add: take_bit_nat_eq_self)
    then have "bit d n \<Longrightarrow> n < 4" by (metis bit_take_bit_iff)
    then show "bit (push_bit 4 (p_val s) AND word_of_nat d) n = bit (0 :: 32 word) n"
      by (auto simp: bit_simps)
  qed
  have val: "push_bit 4 (p_val s) OR word_of_int (int d) = word_of_nat (v * 16 + d)"
    using disj word_plus_and_or [of "push_bit 4 (p_val s)" "word_of_nat d"] by (simp add: push_bit_eq_mult v_def)
  have "v * 16 + d \<le> 65535" using v(2) assms(1) by simp
  then have "\<not> 0xFFFF < (word_of_nat (v * 16 + d) :: 32 word)"
    using u by (simp add: word_less_nat_alt v_def del: of_nat_add of_nat_mult)
  then show "pton6_loop tmp4 (digit_char d # src) curtok s =
      pton6_loop tmp4 src curtok (s\<lparr>p_val := word_of_nat (unat (p_val s) * 16 + d), p_xdigits_seen := p_xdigits_seen s + 1\<rparr>)"
    using digit_char_hex(1) [OF assms(1)] assms(2) val
    by (simp add: pton6_loop.simps(2) v_def del: of_nat_add of_nat_mult)
qed

lemma pton6_digits:
  assumes "\<forall>d \<in> set ds. d < 16" "p_xdigits_seen s + length ds \<le> 4" "unat (p_val s) < 16 ^ p_xdigits_seen s"
  shows "pton6_loop tmp4 (map digit_char ds @ src) curtok s =
    pton6_loop tmp4 src curtok (s\<lparr>p_val := word_of_nat (foldl (\<lambda>v d. v * 16 + d) (unat (p_val s)) ds),
      p_xdigits_seen := p_xdigits_seen s + length ds\<rparr>)"
  using assms
proof (induction ds arbitrary: s)
  case (Cons d ds)
  then have d: "d < 16" "p_xdigits_seen s < 4" by auto
  note step = pton6_digit [OF d Cons.prems(3)]
  let ?s = "s\<lparr>p_val := word_of_nat (unat (p_val s) * 16 + d), p_xdigits_seen := p_xdigits_seen s + 1\<rparr>"
  have "pton6_loop tmp4 (map digit_char ds @ src) curtok ?s = pton6_loop tmp4 src curtok
      (?s\<lparr>p_val := word_of_nat (foldl (\<lambda>v d. v * 16 + d) (unat (p_val ?s)) ds), p_xdigits_seen := p_xdigits_seen ?s + length ds\<rparr>)"
    using Cons.prems step(2,3) by (intro Cons.IH) (auto simp del: of_nat_add of_nat_mult)
  then show ?case using step(1,2) by (simp del: of_nat_add of_nat_mult)
qed simp

text \<open>The state between two groups, when the bytes \<open>P\<close> have been stored.\<close>

definition between :: "byte list \<Rightarrow> nat option \<Rightarrow> pton6" where
  "between P c = \<lparr>p_tmp = P @ replicate (16 - length P) 0, p_tp = length P, p_colonp = c, p_xdigits_seen = 0, p_val = 0\<rparr>"

definition word_bytes :: "nat \<Rightarrow> byte list" where
  "word_bytes w = [word_of_nat (w div 256), word_of_nat (w mod 256)]"

definition bytes_of :: "nat list \<Rightarrow> byte list" where
  "bytes_of ws = concat (map word_bytes ws)"

lemma bytes_of_simps [simp]:
  "bytes_of [] = []"
  "bytes_of (w # ws) = word_bytes w @ bytes_of ws"
  "bytes_of (ws @ ws') = bytes_of ws @ bytes_of ws'"
  by (simp_all add: bytes_of_def)

lemma length_bytes [simp]: "length (word_bytes w) = 2" "length (bytes_of ws) = 2 * length ws"
  by (simp add: word_bytes_def) (induction ws, auto simp: word_bytes_def)

lemma put_val_eq:
  assumes "p_tp s = length P" "p_tmp s = P @ replicate (16 - length P) 0" "length P + 2 \<le> 16"
    and "p_val s = word_of_nat w" "w < 65536"
  shows "put_val s = Some (s\<lparr>p_tmp := (P @ word_bytes w) @ replicate (16 - length (P @ word_bytes w)) 0, p_tp := length P + 2\<rparr>)"
proof -
  have hi: "ucast (drop_bit 8 (word_of_nat w :: 32 word)) = (word_of_nat (w div 256) :: byte)"
    using assms(5) by (simp add: drop_bit_eq_div unsigned_of_nat unat_div word_unat_eq_iff unat_of_nat take_bit_eq_mod
      unat_word_ariths unsigned_ucast_eq)
  have lo: "ucast (word_of_nat w :: 32 word) = (word_of_nat (w mod 256) :: byte)"
    using assms(5) by (simp add: word_unat_eq_iff unat_of_nat take_bit_eq_mod unsigned_ucast_eq)
  define k where "k = 14 - length P"
  have "replicate (16 - length P) (0 :: byte) = 0 # 0 # replicate k 0" "16 - length (P @ word_bytes w) = k"
    using assms(3) by (auto simp: k_def numeral_eq_Suc Suc_diff_le replicate_Suc [symmetric] simp del: replicate_Suc)
  then show ?thesis
    using assms by (simp add: put_val_def hi lo wr_def word_bytes_def list_update_append)
qed

lemma pton6_hex:
  assumes "w < 65536"
  shows "pton6_loop tmp4 (fmt_x w @ src) curtok (between P c) =
    pton6_loop tmp4 src curtok ((between P c)\<lparr>p_val := word_of_nat w, p_xdigits_seen := length (fmt_x w)\<rparr>)"
  using pton6_digits [of "fmt_base 16 w" "between P c" tmp4 src curtok] fmt_length(2) [OF assms]
    fmt_base_bound [of 16] fmt_base_value [of 16 w]
  by (auto simp: fmt_x_def between_def)

text \<open>Words, each followed by a colon; words separated by colons.\<close>

definition groups :: "nat list \<Rightarrow> byte list" where
  "groups ws = concat (map (\<lambda>w. fmt_x w @ [0x3A]) ws)"

fun joined :: "nat list \<Rightarrow> byte list" where
  "joined [] = []"
| "joined [w] = fmt_x w"
| "joined (w # ws) = fmt_x w @ 0x3A # joined ws"

lemma groups_simps [simp]:
  "groups [] = []" "groups (w # ws) = fmt_x w @ 0x3A # groups ws" "groups (ws @ ws') = groups ws @ groups ws'"
  by (simp_all add: groups_def)

lemma joined_snoc: "joined (ws @ [w]) = groups ws @ fmt_x w"
  by (induction ws rule: joined.induct) auto

lemma pton6_colon_char:
  assumes "p_xdigits_seen s \<noteq> 0" "src \<noteq> []" "p_tp s + 2 \<le> 16"
  shows "pton6_loop tmp4 (0x3A # src) curtok s =
    do { s \<leftarrow> put_val s; pton6_loop tmp4 src src (s\<lparr>p_xdigits_seen := 0, p_val := 0\<rparr>) }"
  using assms by (simp add: pton6_loop.simps(2) hex_digit_value_def Let_def)

lemma pton6_group:
  assumes "w < 65536" "length P + 2 \<le> 16" "src \<noteq> []"
  shows "pton6_loop tmp4 (fmt_x w @ 0x3A # src) curtok (between P c) = pton6_loop tmp4 src src (between (P @ word_bytes w) c)"
proof -
  let ?s = "(between P c)\<lparr>p_val := word_of_nat w, p_xdigits_seen := length (fmt_x w)\<rparr>"
  have "put_val ?s = Some (?s\<lparr>p_tmp := (P @ word_bytes w) @ replicate (16 - length (P @ word_bytes w)) 0, p_tp := length P + 2\<rparr>)"
    using assms by (intro put_val_eq) (auto simp: between_def)
  moreover have "pton6_loop tmp4 (0x3A # src) curtok ?s =
      do { s \<leftarrow> put_val ?s; pton6_loop tmp4 src src (s\<lparr>p_xdigits_seen := 0, p_val := 0\<rparr>) }"
    using assms by (intro pton6_colon_char) (auto simp: between_def)
  ultimately show ?thesis
    unfolding pton6_hex [OF assms(1)] by (simp add: between_def)
qed

lemma pton6_groups:
  assumes "\<forall>w \<in> set ws. w < 65536" "length P + 2 * length ws \<le> 16" "src \<noteq> []"
  shows "pton6_loop tmp4 (groups ws @ src) curtok (between P c) =
    pton6_loop tmp4 src (if ws = [] then curtok else src) (between (P @ bytes_of ws) c)"
  using assms
proof (induction ws arbitrary: P curtok)
  case (Cons w ws)
  have "pton6_loop tmp4 (groups (w # ws) @ src) curtok (between P c) =
      pton6_loop tmp4 (groups ws @ src) (groups ws @ src) (between (P @ word_bytes w) c)"
    using Cons.prems by (simp add: pton6_group)
  with Cons.IH [of "P @ word_bytes w" "groups ws @ src"] Cons.prems show ?case by simp
qed simp

text \<open>The rest of the function behind the leading colons: the loop and what follows it.\<close>

definition pton6_run :: "byte list \<Rightarrow> byte list \<Rightarrow> byte list \<Rightarrow> pton6 \<Rightarrow> pton6 option option" where
  "pton6_run tmp4 src curtok s =
     do { r \<leftarrow> pton6_loop tmp4 src curtok s; case r of None \<Rightarrow> Some None | Some s \<Rightarrow> pton6_finish s }"

definition stored :: "byte list \<Rightarrow> nat option \<Rightarrow> pton6 \<Rightarrow> bool" where
  "stored P c s \<longleftrightarrow> p_tmp s = P @ replicate (16 - length P) 0 \<and> p_tp s = length P \<and> p_colonp s = c"

lemma pton6_run_joined:
  assumes "\<forall>w \<in> set ws. w < 65536" "length P + 2 * length ws \<le> 16"
  shows "\<exists>s. pton6_run tmp4 (joined ws) curtok (between P c) = pton6_colon s \<and> stored (P @ bytes_of ws) c s"
proof (cases ws rule: rev_cases)
  case Nil
  then show ?thesis
    by (intro exI [of _ "between P c"]) (auto simp: pton6_run_def pton6_finish_def between_def stored_def)
next
  case (snoc ws' w)
  let ?P = "P @ bytes_of ws'"
  let ?s = "(between ?P c)\<lparr>p_val := word_of_nat w, p_xdigits_seen := length (fmt_x w)\<rparr>"
  let ?t = "?s\<lparr>p_tmp := (?P @ word_bytes w) @ replicate (16 - length (?P @ word_bytes w)) 0, p_tp := length ?P + 2\<rparr>"
  have loop: "pton6_loop tmp4 (joined ws) curtok (between P c) = Some (Some ?s)"
    using pton6_groups [of ws' P "fmt_x w" tmp4 curtok c] pton6_hex [of w tmp4 "[]" _ ?P c] assms
    by (simp add: snoc joined_snoc)
  have "put_val ?s = Some ?t" using assms by (intro put_val_eq) (auto simp: snoc between_def)
  moreover have "0 < p_xdigits_seen ?s" "\<not> 16 < p_tp ?s + 2" using assms by (auto simp: snoc between_def)
  ultimately have "pton6_finish ?s = pton6_colon ?t" unfolding pton6_finish_def by simp
  then have "pton6_run tmp4 (joined ws) curtok (between P c) = pton6_colon ?t"
    unfolding pton6_run_def loop by simp
  moreover have "stored (P @ bytes_of ws) c ?t" by (simp add: stored_def snoc between_def)
  ultimately show ?thesis by blast
qed

lemma pton6_run_dotted:
  assumes "length a = 4" "length tmp4 = 4" "length P + 4 \<le> 16"
  shows "\<exists>s. pton6_run tmp4 (dotted a) (dotted a) (between P c) = pton6_colon s \<and> stored (P @ a) c s"
proof -
  let ?ds = "fmt_base 10 (unat (a ! 0))"
  obtain src where src: "dotted a = fmt_u (unat (a ! 0)) @ 0x2E # src" by (auto simp: dotted_def)
  let ?s = "(between P c)\<lparr>p_val := word_of_nat (foldl (\<lambda>v d. v * 16 + d) 0 ?ds), p_xdigits_seen := length ?ds\<rparr>"
  have "\<forall>d \<in> set ?ds. d < 16" using fmt_base_bound [of 10 _ "unat (a ! 0)"] by fastforce
  moreover have "length ?ds \<le> 3" using fmt_base_length [of 10 "unat (a ! 0)" 2] unat_byte_less [of "a ! 0"] by simp
  ultimately have "pton6_loop tmp4 (dotted a) (dotted a) (between P c) = pton6_loop tmp4 (0x2E # src) (dotted a) ?s"
    using pton6_digits [of ?ds "between P c" tmp4 "0x2E # src" "dotted a"] src by (simp add: fmt_u_def between_def)
  also have "\<dots> = Some (Some (?s\<lparr>p_tmp := overlay (p_tmp ?s) (length P) a, p_tp := length P + 4, p_xdigits_seen := 0\<rparr>))"
    using inet_pton4_dotted [OF assms(1,2), of "length P" "p_tmp ?s"] assms(3)
    by (simp add: pton6_loop.simps(2) hex_digit_value_def between_def)
  finally have loop: "pton6_loop tmp4 (dotted a) (dotted a) (between P c) =
      Some (Some (?s\<lparr>p_tmp := overlay (p_tmp ?s) (length P) a, p_tp := length P + 4, p_xdigits_seen := 0\<rparr>))" .
  show ?thesis
    unfolding pton6_run_def loop using assms
    by (intro exI [of _ "?s\<lparr>p_tmp := overlay (p_tmp ?s) (length P) a, p_tp := length P + 4, p_xdigits_seen := 0\<rparr>"])
      (auto simp: pton6_finish_def stored_def between_def overlay_def)
qed

lemma pton6_colon_None: "p_colonp s = None \<Longrightarrow> pton6_colon s = Some (Some s)"
  by (simp add: pton6_colon_def)

lemma pton6_colon_Some:
  assumes "stored (P @ S) (Some (length P)) s" "length P + length S < 16"
  shows "\<exists>s'. pton6_colon s = Some (Some s') \<and> p_tp s' = 16 \<and> p_tmp s' = P @ replicate (16 - (length P + length S)) 0 @ S"
proof -
  define k where "k = 16 - (length P + length S)"
  have k: "length P + length S + k = 16" "length P + length S \<noteq> 16" using assms(2) by (auto simp: k_def)
  have tmp: "p_tmp s = P @ S @ replicate k 0" "p_tp s = length P + length S" "p_colonp s = Some (length P)"
    using assms(1) by (auto simp: stored_def k_def)
  have len: "length P + length S - length P = length S" "16 - length S = length P + k" "length P + k - length P = k"
    using k by auto
  define half where "half = take (length P + k) (P @ S @ replicate k 0) @ S"
  have move: "memcpy (P @ S @ replicate k 0) (length P + k) (P @ S @ replicate k 0) (length P) (length S) = Some half"
    using k by (simp add: memcpy_def half_def)
  have fill: "memcpy half (length P) (replicate k 0) 0 k = Some (P @ replicate k 0 @ S)"
    using k by (simp add: memcpy_def half_def)
  have "pton6_colon s = Some (Some (s\<lparr>p_tmp := P @ replicate k 0 @ S, p_tp := 16\<rparr>))"
    unfolding pton6_colon_def tmp option.case if_not_P [OF k(2)] Let_def len move by (simp add: fill)
  then show ?thesis by (simp add: k_def)
qed

subsection \<open>The forms of an address\<close>

lemma inet_pton6_run:
  assumes "src = (if \<exists>rest. body = 0x3A # rest then 0x3A # body else body)" "body \<noteq> []"
    and "pton6_run tmp4 body body (between [] None) = Some (Some s)" "p_tp s = 16" "p_tmp s = a" "length a = 16" "16 \<le> length dst"
  shows "inet_pton6 tmp4 src dst = Some (overlay dst 0 a, True)"
proof -
  obtain c rest where body: "body = c # rest" using assms(2) by (cases body) auto
  obtain s' where s': "pton6_loop tmp4 body body (between [] None) = Some (Some s')" "pton6_finish s' = Some (Some s)"
    using assms(3) by (auto simp: pton6_run_def split: bind_splits option.splits)
  have init: "between [] None = \<lparr>p_tmp = replicate 16 0, p_tp = 0, p_colonp = None, p_xdigits_seen = 0, p_val = 0\<rparr>"
    by (simp only: between_def append_Nil list.size minus_nat.diff_0)
  show ?thesis
    using assms(1,4-7) s' unfolding inet_pton6_def init [symmetric]
    by (cases "c = 0x3A") (auto simp: body memcpy_overlay)
qed

lemma fmt_x_no_colon: "\<exists>d ds. fmt_x w = d # ds \<and> d \<noteq> 0x3A"
proof -
  have "fmt_base 16 w \<noteq> []" by (simp add: fmt_base.simps [of 16 w])
  then obtain d ds where d: "fmt_base 16 w = d # ds" by (cases "fmt_base 16 w") auto
  then have "hex_digit_value (digit_char d) = int d" using digit_char_hex(1) fmt_base_bound [of 16 d w] by simp
  then have "digit_char d \<noteq> 0x3A" by (auto simp: hex_digit_value_def)
  with d show ?thesis by (simp add: fmt_x_def)
qed

lemma inet_pton6_full:
  assumes "\<forall>w \<in> set ws. w < 65536" "length ws = 8" "16 \<le> length dst"
  shows "inet_pton6 tmp4 (joined ws) dst = Some (overlay dst 0 (bytes_of ws), True)"
proof -
  obtain s where s: "pton6_run tmp4 (joined ws) (joined ws) (between [] None) = pton6_colon s" "stored (bytes_of ws) None s"
    using pton6_run_joined [of ws "[]" tmp4 "joined ws" None] assms by auto
  obtain w ws' where ws: "ws = w # ws'" using assms(2) by (cases ws) auto
  have "\<exists>d ds. joined ws = d # ds \<and> d \<noteq> 0x3A" using fmt_x_no_colon [of w] unfolding ws by (cases ws') auto
  then have "joined ws = (if \<exists>rest. joined ws = 0x3A # rest then 0x3A # joined ws else joined ws)" "joined ws \<noteq> []" by auto
  then show ?thesis
    using s assms pton6_colon_None [of s] by (intro inet_pton6_run [of _ "joined ws" tmp4 s]) (auto simp: stored_def)
qed

text \<open>
  \<open>ps\<close> are the words before the double colon and \<open>body\<close> is what follows it.  Without \<open>ps\<close> the
  text starts with the double colon, whose first character is skipped before the loop.
\<close>

lemma inet_pton6_compressed:
  assumes "\<forall>w \<in> set ps. w < 65536" "2 * length ps \<le> 16" "2 * length ps + length S < 16" "16 \<le> length dst"
    and "pton6_run tmp4 body body (between (bytes_of ps) (Some (2 * length ps))) = pton6_colon s"
    and "stored (bytes_of ps @ S) (Some (2 * length ps)) s"
  shows "inet_pton6 tmp4 ((if ps = [] then [0x3A] else []) @ groups ps @ 0x3A # body) dst =
    Some (overlay dst 0 (bytes_of ps @ replicate (16 - (2 * length ps + length S)) 0 @ S), True)"
proof -
  let ?body = "groups ps @ 0x3A # body"
  obtain s' where s': "pton6_colon s = Some (Some s')" "p_tp s' = 16"
    "p_tmp s' = bytes_of ps @ replicate (16 - (2 * length ps + length S)) 0 @ S"
    using pton6_colon_Some [of "bytes_of ps" S s] assms(3,6) by auto
  have colon: "pton6_loop tmp4 (0x3A # body) cur (between (bytes_of ps) None) =
      pton6_loop tmp4 body body (between (bytes_of ps) (Some (2 * length ps)))" for cur
    by (simp add: pton6_loop.simps(2) hex_digit_value_def between_def)
  have "pton6_loop tmp4 ?body ?body (between [] None) =
      pton6_loop tmp4 body body (between (bytes_of ps) (Some (2 * length ps)))"
    using pton6_groups [of ps "[]" "0x3A # body" tmp4 ?body None] assms(1,2) by (simp add: colon)
  then have run: "pton6_run tmp4 ?body ?body (between [] None) = Some (Some s')"
    using assms(5) s'(1) by (simp add: pton6_run_def)
  have starts: "(\<exists>rest. ?body = 0x3A # rest) \<longleftrightarrow> ps = []"
  proof (cases ps)
    case (Cons w ps')
    then show ?thesis using fmt_x_no_colon [of w] by auto
  qed simp
  show ?thesis
    using run s' assms(3,4) starts by (intro inet_pton6_run [of _ ?body tmp4 s']) auto
qed

subsection \<open>The run of zero words\<close>

definition zeros :: "nat list \<Rightarrow> int \<Rightarrow> int \<Rightarrow> bool" where
  "zeros ws b l \<longleftrightarrow> 0 \<le> b \<and> 0 \<le> l \<and> b + l \<le> int (length ws) \<and> (\<forall>i. b \<le> i \<and> i < b + l \<longrightarrow> ws ! nat i = 0)"

text \<open>After the words \<open>ws\<close>: \<open>cur\<close> is the run at the end, and \<open>best\<close> and \<open>cur\<close> bound every run.\<close>

definition run_len :: "run \<Rightarrow> int" where
  "run_len r = (if fst r = - 1 then 0 else snd r)"

definition runs_ok :: "nat list \<Rightarrow> run \<Rightarrow> run \<Rightarrow> bool" where
  "runs_ok ws best cur \<longleftrightarrow>
     (fst best \<noteq> - 1 \<longrightarrow> zeros ws (fst best) (snd best)) \<and>
     (fst cur \<noteq> - 1 \<longrightarrow> zeros ws (fst cur) (snd cur) \<and> fst cur + snd cur = int (length ws)) \<and>
     (\<forall>b l. zeros ws b l \<longrightarrow> l \<le> max (run_len best) (run_len cur)) \<and>
     (\<forall>b l. zeros ws b l \<and> b + l = int (length ws) \<longrightarrow> l \<le> run_len cur)"

lemma zeros_snoc_end:
  "b + l = int (length ws) + 1 \<Longrightarrow> 0 < l \<Longrightarrow> zeros (ws @ [w]) b l \<longleftrightarrow> w = 0 \<and> zeros ws b (l - 1)"
proof -
  assume end_: "b + l = int (length ws) + 1" "0 < l"
  have split: "(\<forall>i. b \<le> i \<and> i < b + l \<longrightarrow> (ws @ [w]) ! nat i = 0) \<longleftrightarrow>
      w = 0 \<and> (\<forall>i. b \<le> i \<and> i < b + (l - 1) \<longrightarrow> ws ! nat i = 0)" if "0 \<le> b"
  proof -
    have "i < b + l \<longleftrightarrow> i < b + (l - 1) \<or> i = int (length ws)" for i using end_ by linarith
    moreover have "b \<le> int (length ws)" using end_ by linarith
    moreover have "(ws @ [w]) ! nat i = ws ! nat i" if "b \<le> i" "i < b + (l - 1)" for i
      using that \<open>0 \<le> b\<close> end_ by (simp add: nth_append nat_less_iff)
    ultimately show ?thesis by (smt (verit) nat_int nth_append_length)
  qed
  show ?thesis
    unfolding zeros_def using split end_ by (cases "0 \<le> b") auto
qed

lemma zeros_snoc_inside:
  "b + l \<le> int (length ws) \<Longrightarrow> zeros (ws @ [w]) b l \<longleftrightarrow> zeros ws b l"
  by (auto simp: zeros_def nth_append nat_less_iff)

lemma zeros_snoc_cases:
  assumes "zeros (ws @ [w]) b l"
  obtains "zeros ws b l" | "l = 0" "b = int (length ws) + 1" | "0 < l" "b + l = int (length ws) + 1" "w = 0" "zeros ws b (l - 1)"
proof -
  have "b + l \<le> int (length ws) + 1" "0 \<le> l" using assms by (auto simp: zeros_def)
  then consider "b + l \<le> int (length ws)" | "l = 0" "b = int (length ws) + 1" | "0 < l" "b + l = int (length ws) + 1" by linarith
  then show ?thesis using assms that zeros_snoc_end [of b l ws w] zeros_snoc_inside [of b l ws w] by cases auto
qed

lemma run_len_nonneg: "runs_ok ws best cur \<Longrightarrow> 0 \<le> run_len best \<and> 0 \<le> run_len cur"
  by (auto simp: runs_ok_def run_len_def zeros_def)

lemma runs_ok_zero:
  assumes "runs_ok ws best cur"
  shows "runs_ok (ws @ [0]) best (if fst cur = - 1 then (int (length ws), 1) else (fst cur, snd cur + 1))" (is "runs_ok _ _ ?cur")
proof -
  note ok = assms [unfolded runs_ok_def] run_len_nonneg [OF assms]
  have len: "run_len ?cur = run_len cur + 1" "fst ?cur \<noteq> - 1" "fst ?cur + snd ?cur = int (length ws) + 1"
    using ok by (auto simp: run_len_def zeros_def)
  have cur: "zeros (ws @ [0]) (fst ?cur) (snd ?cur)"
    using ok zeros_snoc_end [of "fst ?cur" "snd ?cur" ws 0] len(3) by (auto simp: zeros_def split: if_splits)
  have best: "zeros (ws @ [0]) (fst best) (snd best)" if "fst best \<noteq> - 1"
    using ok that zeros_snoc_inside [of "fst best" "snd best" ws 0] by (auto simp: zeros_def)
  have at_end: "l \<le> run_len cur + 1" if "zeros (ws @ [0]) b l" "b + l = int (length ws) + 1" for b l
    using that(1)
  proof (cases rule: zeros_snoc_cases)
    case 1
    then show ?thesis using that(2) by (auto simp: zeros_def)
  next
    case 3
    then have "b + (l - 1) = int (length ws)" by simp
    with 3(4) ok(1) have "l - 1 \<le> run_len cur" by blast
    then show ?thesis by simp
  qed (use ok(2) in auto)
  have all: "l \<le> max (run_len best) (run_len cur + 1)" if "zeros (ws @ [0]) b l" for b l
    using that
  proof (cases rule: zeros_snoc_cases)
    case 1
    then have "l \<le> max (run_len best) (run_len cur)" using ok by blast
    then show ?thesis by simp
  next
    case 3
    then show ?thesis using at_end [OF that] by simp
  qed (use ok in auto)
  show ?thesis
    unfolding runs_ok_def len(1) using cur best at_end all len(2,3) by auto
qed

lemma runs_ok_nonzero:
  assumes "runs_ok ws best cur" "w \<noteq> 0"
  shows "runs_ok (ws @ [w]) (if fst cur \<noteq> - 1 then better best cur else best) (- 1, snd cur)" (is "runs_ok _ ?best _")
proof -
  note ok = assms(1) [unfolded runs_ok_def] run_len_nonneg [OF assms(1)]
  have len: "run_len ?best = max (run_len best) (run_len cur)" using ok by (auto simp: run_len_def better_def)
  have best: "zeros (ws @ [w]) (fst ?best) (snd ?best)" if "fst ?best \<noteq> - 1"
  proof -
    have "zeros ws (fst ?best) (snd ?best)" using ok that by (auto simp: better_def split: if_splits)
    then show ?thesis by (subst zeros_snoc_inside) (auto simp: zeros_def)
  qed
  have all: "l \<le> max (run_len best) (run_len cur)" if "zeros (ws @ [w]) b l" for b l
    using that
  proof (cases rule: zeros_snoc_cases)
    case 1
    then show ?thesis using ok by blast
  qed (use ok assms(2) in auto)
  have at_end: "l \<le> 0" if "zeros (ws @ [w]) b l" "b + l = int (length ws) + 1" for b l
    using that(1)
  proof (cases rule: zeros_snoc_cases)
    case 1
    then show ?thesis using that(2) by (auto simp: zeros_def)
  qed (use assms(2) in auto)
  show ?thesis
    unfolding runs_ok_def len using best all at_end by (auto simp: run_len_def [of "(- 1, snd cur)"] max.coboundedI1)
qed

lemma run_loop_ok:
  "runs_ok pre best cur \<Longrightarrow> run_loop ws (int (length pre)) best cur = (best', cur') \<Longrightarrow> runs_ok (pre @ ws) best' cur'"
proof (induction ws arbitrary: pre best cur)
  case (Cons w ws)
  let ?pre = "pre @ [w]"
  have i: "int (length pre) + 1 = int (length ?pre)" by simp
  show ?case
  proof (cases "w = 0")
    case True
    then have "run_loop (w # ws) (int (length pre)) best cur = run_loop ws (int (length ?pre)) best
        (if fst cur = - 1 then (int (length pre), 1) else (fst cur, snd cur + 1))" by (simp add: add.commute)
    with Cons.IH [OF runs_ok_zero [OF Cons.prems(1), folded True]] Cons.prems(2) True show ?thesis by simp
  next
    case False
    note ok = runs_ok_nonzero [OF Cons.prems(1) False]
    have "run_loop (w # ws) (int (length pre)) best cur =
        run_loop ws (int (length ?pre)) (if fst cur \<noteq> - 1 then better best cur else best) (- 1, snd cur)"
      using False by (cases cur) (auto simp: add.commute)
    with Cons.IH [OF ok] Cons.prems(2) show ?thesis by simp
  qed
qed simp

text \<open>The compressed run: a longest run of at least two zero words, if there is one.\<close>

lemma best_run_correct:
  assumes "best_run ws = (b, l)"
  shows "if b = - 1 then \<forall>b' l'. zeros ws b' l' \<longrightarrow> l' < 2
    else zeros ws b l \<and> 2 \<le> l \<and> (\<forall>b' l'. zeros ws b' l' \<longrightarrow> l' \<le> l)"
proof -
  obtain best cur where loop: "run_loop ws 0 (- 1, 0) (- 1, 0) = (best, cur)" by (rule prod.exhaust)
  have "runs_ok [] (- 1, 0) (- 1, 0)" by (auto simp: runs_ok_def zeros_def run_len_def)
  from run_loop_ok [OF this, of ws] loop have ok: "runs_ok ws best cur" by simp
  define r where "r = (if fst cur \<noteq> - 1 then better best cur else best)"
  have r: "run_len r = max (run_len best) (run_len cur)" "fst r \<noteq> - 1 \<Longrightarrow> zeros ws (fst r) (snd r)"
    using ok run_len_nonneg [OF ok] by (auto simp: r_def run_len_def better_def runs_ok_def)
  have bound: "l' \<le> run_len r" if "zeros ws b' l'" for b' l' using ok that unfolding runs_ok_def r(1) by blast
  have bl: "(b, l) = (if fst r \<noteq> - 1 \<and> snd r < 2 then (- 1, snd r) else r)"
    using assms unfolding best_run_def loop Let_def prod.case r_def [symmetric] by simp
  show ?thesis
  proof (cases "fst r = - 1")
    case True
    then have "b = - 1" "run_len r = 0" using bl by (auto simp: run_len_def)
    with bound show ?thesis by force
  next
    case False
    then have "run_len r = snd r" "0 \<le> fst r" using r(2) by (auto simp: run_len_def zeros_def)
    with bl False r(2) bound show ?thesis by (cases "snd r < 2") force+
  qed
qed

subsection \<open>The text of an address\<close>

lemma strcpy_to_correct:
  assumes "0 \<notin> set t" "d + length t + 1 \<le> length dst"
  shows "strcpy_to dst d (t @ 0 # rest) = Some (overlay dst d (t @ [0]))"
  using assms
proof (induction t arbitrary: dst d)
  case Nil
  then show ?case by (simp add: wr_overlay)
next
  case (Cons c t)
  have "strcpy_to (overlay dst d [c]) (d + 1) (t @ 0 # rest) = Some (overlay (overlay dst d [c]) (d + 1) (t @ [0]))"
    using Cons.prems by (intro Cons.IH) auto
  also have "overlay (overlay dst d [c]) (d + 1) (t @ [0]) = overlay dst d (c # t @ [0])"
    using overlay_overlay [of d "[c]" "t @ [0]" dst] Cons.prems by simp
  finally show ?case using Cons.prems by (simp add: wr_overlay)
qed

lemma strlen_of_correct: "0 \<notin> set t \<Longrightarrow> strlen_of (t @ 0 # rest) = Some (length t)"
  by (induction t) auto

lemma sprintf_to_correct:
  "d + length t + 1 \<le> length dst \<Longrightarrow> sprintf_to dst d t = Some (overlay dst d (t @ [0]))"
  by (simp add: sprintf_to_def memcpy_overlay)

lemma dotted_facts:
  "0 \<notin> set (dotted a)" "length (dotted a) \<le> 15"
proof -
  show "0 \<notin> set (dotted a)" using fmt_no_zero(1) by (auto simp: dotted_def)
  have "length (fmt_u (unat x)) \<le> 3" for x :: byte using fmt_length(1) [of "unat x"] unat_byte_less [of x] by linarith
  from add_mono [OF add_mono [OF this [of "a ! 0"] this [of "a ! 1"]] add_mono [OF this [of "a ! 2"] this [of "a ! 3"]]]
  show "length (dotted a) \<le> 15" by (simp add: dotted_def)
qed

lemma inet_ntop4_correct:
  assumes "length tmp0 = 16" "length a = 4" "d + siz \<le> length dst"
  shows "inet_ntop4 tmp0 a dst d siz =
    Some (if length (dotted a) < siz then (overlay dst d (dotted a @ [0]), Inr ()) else (dst, Inl ENOSPC))"
proof -
  have "overlay tmp0 0 (dotted a @ [0]) = dotted a @ 0 # drop (length (dotted a) + 1) tmp0" by (simp add: overlay_def)
  with dotted_facts [of a] assms show ?thesis
    by (auto simp: inet_ntop4_def rd_in sprintf_to_correct strcpy_to_correct)
qed

text \<open>What the loop writes for word \<open>i\<close>.\<close>

definition in_run :: "run \<Rightarrow> nat \<Rightarrow> bool" where
  "in_run best i \<longleftrightarrow> fst best \<noteq> - 1 \<and> fst best \<le> int i \<and> int i < fst best + snd best"

definition piece :: "nat list \<Rightarrow> run \<Rightarrow> nat \<Rightarrow> byte list" where
  "piece words best i =
     (if in_run best i then if int i = fst best then [0x3A] else []
      else (if i \<noteq> 0 then [0x3A] else []) @ fmt_x (words ! i))"

definition embedded :: "nat list \<Rightarrow> run \<Rightarrow> bool" where
  "embedded words best \<longleftrightarrow> fst best = 0 \<and> (snd best = 6 \<or> snd best = 5 \<and> words ! 5 = 0xFFFF)"

text \<open>\<open>wrote tmp tp out tmp'\<close>: from \<open>tmp\<close> to \<open>tmp'\<close>, \<open>out\<close> was written at \<open>tp\<close>, and perhaps a terminator behind it.\<close>

definition wrote :: "byte list \<Rightarrow> nat \<Rightarrow> byte list \<Rightarrow> byte list \<Rightarrow> bool" where
  "wrote tmp tp out tmp' \<longleftrightarrow> length tmp' = length tmp \<and> take (tp + length out) tmp' = take tp tmp @ out"

lemma wrote_trans:
  assumes "wrote tmp tp out tmp1" "wrote tmp1 (tp + length out) out' tmp2"
  shows "wrote tmp tp (out @ out') tmp2"
  using assms by (simp add: wrote_def add.assoc)

lemma wrote_overlay:
  assumes "tp + length (out @ rest) \<le> length tmp"
  shows "wrote tmp tp out (overlay tmp tp (out @ rest))"
  using assms by (simp add: wrote_def overlay_def)

lemma wrote_Nil [simp]: "wrote tmp tp [] tmp"
  by (simp add: wrote_def)

lemma putc_wrote:
  assumes "tp < length tmp"
  shows "\<exists>tmp'. putc tmp tp c = Some (tmp', tp + 1) \<and> wrote tmp tp [c] tmp'"
  using assms wrote_overlay [of tp "[c]" "[]" tmp] by (simp add: putc_def wr_overlay)

lemma putc_if_wrote:
  assumes "tp + length (if b then [c] else []) \<le> length tmp"
  shows "\<exists>tmp'. (if b then putc tmp tp c else Some (tmp, tp)) = Some (tmp', tp + length (if b then [c] else [])) \<and>
    wrote tmp tp (if b then [c] else []) tmp'"
  using assms putc_wrote [of tp tmp c] by (cases b) auto

lemma ntop6_loop_word:
  assumes "\<not> (i = 6 \<and> embedded words best)" "length words = 8" "i < 8" "length tmp = 46" "tp + length (piece words best i) < 46"
  shows "\<exists>tmp'. wrote tmp tp (piece words best i) tmp' \<and>
    ntop6_loop (Suc k) tmp4 src words best i tmp tp =
      ntop6_loop k tmp4 src words best (i + 1) tmp' (tp + length (piece words best i))"
proof (cases "in_run best i")
  case True
  then obtain tmp' where "(if int i = fst best then putc tmp tp 0x3A else Some (tmp, tp)) =
      Some (tmp', tp + length (piece words best i))" "wrote tmp tp (piece words best i) tmp'"
    using putc_if_wrote [of tp "int i = fst best" "0x3A" tmp] assms(4,5) by (auto simp: piece_def)
  with True show ?thesis by (auto simp: ntop6_loop.simps(2) in_run_def)
next
  case False
  let ?c = "if i \<noteq> 0 then [0x3A] else [] :: byte list" and ?x = "fmt_x (words ! i)"
  have piece: "piece words best i = ?c @ ?x" using False by (simp add: piece_def)
  obtain tmp1 where 1: "(if i \<noteq> 0 then putc tmp tp 0x3A else Some (tmp, tp)) = Some (tmp1, tp + length ?c)" "wrote tmp tp ?c tmp1"
    using putc_if_wrote [of tp "i \<noteq> 0" "0x3A" tmp] assms(4,5) unfolding piece by auto
  let ?tmp2 = "overlay tmp1 (tp + length ?c) (?x @ [0])"
  have len: "length tmp1 = 46" "tp + length ?c + length ?x + 1 \<le> 46" using 1(2) assms(4,5) unfolding piece by (auto simp: wrote_def)
  have "wrote tmp tp (piece words best i) ?tmp2"
    unfolding piece using len by (intro wrote_trans [OF 1(2)] wrote_overlay) simp
  moreover have "ntop6_loop (Suc k) tmp4 src words best i tmp tp =
      ntop6_loop k tmp4 src words best (i + 1) ?tmp2 (tp + length (piece words best i))"
    using False assms(1-3) len sprintf_to_correct [of "tp + length ?c" ?x tmp1]
    unfolding ntop6_loop.simps in_run_def [symmetric] 1(1) piece
    by (cases "i = 6") (auto simp: embedded_def rd_in add.assoc)
  ultimately show ?thesis by blast
qed

lemma ntop6_loop_words:
  assumes "embedded words best \<Longrightarrow> i + k \<le> 6" "length words = 8" "i + k \<le> 8" "length tmp = 46"
    and "tp + length (concat (map (piece words best) [i..<i + k])) < 46"
  shows "\<exists>tmp'. wrote tmp tp (concat (map (piece words best) [i..<i + k])) tmp' \<and>
    ntop6_loop (k + m) tmp4 src words best i tmp tp =
      ntop6_loop m tmp4 src words best (i + k) tmp' (tp + length (concat (map (piece words best) [i..<i + k])))"
  using assms
proof (induction k arbitrary: i tmp tp)
  case 0
  then show ?case by (auto intro!: exI [of _ tmp])
next
  case (Suc k)
  let ?p = "piece words best i" and ?rest = "concat (map (piece words best) [i + 1..<i + 1 + k])"
  have split: "concat (map (piece words best) [i..<i + Suc k]) = ?p @ ?rest"
    by (simp add: upt_conv_Cons del: upt_Suc)
  have len: "tp + length ?p + length ?rest < 46" using Suc.prems(5) unfolding split by simp
  have here: "\<not> (i = 6 \<and> embedded words best)" "i < 8" "tp + length ?p < 46" using Suc.prems(1,3) len by auto
  obtain tmp1 where 1: "wrote tmp tp ?p tmp1" "ntop6_loop (Suc (k + m)) tmp4 src words best i tmp tp =
      ntop6_loop (k + m) tmp4 src words best (i + 1) tmp1 (tp + length ?p)"
    using ntop6_loop_word [OF here(1) Suc.prems(2) here(2) Suc.prems(4) here(3)] by blast
  then obtain tmp' where 2: "wrote tmp1 (tp + length ?p) ?rest tmp'" "ntop6_loop (k + m) tmp4 src words best (i + 1) tmp1 (tp + length ?p) =
      ntop6_loop m tmp4 src words best (i + 1 + k) tmp' (tp + length ?p + length ?rest)"
    using Suc.IH [of "i + 1" tmp1 "tp + length ?p"] Suc.prems(1-4) len by (auto simp: wrote_def)
  from wrote_trans [OF 1(1) 2(1)] show ?case
    unfolding split using 1(2) 2(2) by (intro exI [of _ tmp'] conjI) (simp_all only: add_Suc add_Suc_right length_append add.assoc One_nat_def add_0)
qed

lemma ntop6_loop_embedded:
  assumes "embedded words best" "length words = 8" "length src = 16" "length tmp = 46" "length tmp4 = 16" "tp + length (dotted (drop 12 src)) + 2 \<le> 46"
  shows "\<exists>tmp'. wrote tmp tp (0x3A # dotted (drop 12 src)) tmp' \<and>
    ntop6_loop (Suc k) tmp4 src words best 6 tmp tp = Some (tmp', Inr (tp + 1 + length (dotted (drop 12 src))))"
proof -
  let ?a = "drop 12 src"
  obtain tmp1 where 1: "putc tmp tp 0x3A = Some (tmp1, tp + 1)" "wrote tmp tp [0x3A] tmp1"
    using putc_wrote [of tp tmp "0x3A"] assms(4,6) by auto
  then have len: "length tmp1 = 46" using assms(4) by (simp add: wrote_def)
  let ?tmp2 = "overlay tmp1 (tp + 1) (dotted ?a @ [0])"
  have "drop (tp + 1) ?tmp2 = dotted ?a @ 0 # drop (length (dotted ?a) + 1) (drop (tp + 1) tmp1)"
    using assms(6) len by (simp add: overlay_def add.commute)
  then have strlen: "strlen_of (drop (tp + 1) ?tmp2) = Some (length (dotted ?a))"
    using dotted_facts(1) [of ?a] by (simp add: strlen_of_correct)
  have ntop4: "inet_ntop4 tmp4 ?a tmp1 (tp + 1) (46 - (tp + 1)) = Some (?tmp2, Inr ())"
    using inet_ntop4_correct [of tmp4 ?a "tp + 1" "46 - (tp + 1)" tmp1] assms(3,5,6) len by simp
  have outside: "\<not> in_run best 6" using assms(1) by (auto simp: in_run_def embedded_def)
  have "wrote tmp tp (0x3A # dotted ?a) ?tmp2"
    using wrote_trans [OF 1(2), of "dotted ?a" ?tmp2] wrote_overlay [of "tp + 1" "dotted ?a" "[0]" tmp1] len assms(6) by simp
  moreover have "ntop6_loop (Suc k) tmp4 src words best 6 tmp tp = Some (?tmp2, Inr (tp + 1 + length (dotted ?a)))"
    using outside 1(1) ntop4 strlen assms(1,2) by (simp add: ntop6_loop.simps(2) in_run_def embedded_def rd_in)
  ultimately show ?thesis by blast
qed

text \<open>The words of an address.\<close>

definition words_of :: "byte list \<Rightarrow> nat list" where
  "words_of a = map (\<lambda>i. unat (a ! (2 * i)) * 256 + unat (a ! (2 * i + 1))) [0..<8]"

lemma load_words_correct:
  assumes "length src = 2 * (i + k)" "length words = i + k"
  shows "load_words k (2 * i) src words =
    Some (take i words @ map (\<lambda>j. unat (src ! (2 * j)) * 256 + unat (src ! (2 * j + 1))) [i..<i + k])"
  using assms
proof (induction k arbitrary: i words)
  case (Suc k)
  let ?w = "unat (src ! (2 * i)) * 256 + unat (src ! (2 * i + 1))"
  have "load_words (Suc k) (2 * i) src words = load_words k (2 * (i + 1)) src (words[i := ?w])"
    using Suc.prems by (simp add: rd_in wr_in)
  with Suc.IH [of "i + 1" "words[i := ?w]"] Suc.prems show ?case
    by (simp add: upt_conv_Cons del: upt_Suc)
qed simp

lemma words_of_facts:
  assumes "length a = 16"
  shows "length (words_of a) = 8" "\<forall>w \<in> set (words_of a). w < 65536" "bytes_of (words_of a) = a"
proof -
  show "length (words_of a) = 8" by (simp add: words_of_def)
  show "\<forall>w \<in> set (words_of a). w < 65536"
  proof
    fix w assume "w \<in> set (words_of a)"
    then obtain x y :: byte where "w = unat x * 256 + unat y" by (auto simp: words_of_def)
    then show "w < 65536" using unat_byte_less [of x] unat_byte_less [of y] by linarith
  qed
  have w: "word_bytes (unat x * 256 + unat y) = [x, y]" for x y :: byte
    by (simp add: word_bytes_def)
  have idx: "[0..<8] = [0, 1, 2, 3, 4, 5, 6, 7 :: nat]" by (simp add: upt_rec)
  have "length a = Suc (Suc (Suc (Suc (Suc (Suc (Suc (Suc (Suc (Suc (Suc (Suc (Suc (Suc (Suc (Suc 0)))))))))))))))"
    using assms by simp
  then obtain a0 a1 a2 a3 a4 a5 a6 a7 a8 a9 b0 b1 b2 b3 b4 b5 where
    "a = [a0, a1, a2, a3, a4, a5, a6, a7, a8, a9, b0, b1, b2, b3, b4, b5]"
    unfolding length_Suc_conv length_0_conv by blast
  then show "bytes_of (words_of a) = a" by (simp add: words_of_def idx w)
qed

lemma zero_words_embedded:
  assumes "length a = 16" "length (words_of a) = 8"
  shows "bytes_of (drop 6 (words_of a)) = drop 12 a"
proof -
  have "drop 12 (bytes_of (take 6 (words_of a) @ drop 6 (words_of a))) = bytes_of (drop 6 (words_of a))"
    using assms(2) unfolding bytes_of_simps by simp
  then show ?thesis using words_of_facts(3) [OF assms(1)] by simp
qed

subsection \<open>The text the loop writes\<close>

lemma piece_length: "words ! i < 65536 \<Longrightarrow> length (piece words best i) \<le> 5"
  using fmt_length(2) [of "words ! i"] by (auto simp: piece_def)

lemma concat_pieces_length:
  "(\<forall>i \<in> set is. words ! i < 65536) \<Longrightarrow> length (concat (map (piece words best) is)) \<le> 5 * length is"
  by (induction "is") (auto intro: order_trans [OF add_mono [OF piece_length]])

lemma pieces_before:
  assumes "\<forall>i < n. \<not> in_run best i" "n \<le> length words"
  shows "concat (map (piece words best) [0..<n]) = joined (take n words)"
  using assms
proof (induction n)
  case (Suc n)
  have "concat (map (piece words best) [0..<Suc n]) = joined (take n words) @ (if n \<noteq> 0 then [0x3A] else []) @ fmt_x (words ! n)"
    using Suc by (simp add: piece_def [of words best n])
  also have "\<dots> = joined (take (Suc n) words)"
  proof (cases n)
    case 0
    with Suc.prems(2) show ?thesis by (cases words) auto
  next
    case (Suc m)
    then have "take n words = take m words @ [words ! m]" "take (Suc n) words = take n words @ [words ! n]"
      using Suc.prems(2) by (simp_all add: take_Suc_conv_app_nth)
    then show ?thesis using Suc joined_snoc [of "take m words @ [words ! m]" "words ! n"]
      by (simp add: joined_snoc)
  qed
  finally show ?case .
qed simp

lemma joined_colon: "ws \<noteq> [] \<Longrightarrow> joined ws @ [0x3A] = groups ws"
  by (cases ws rule: rev_cases) (auto simp: joined_snoc)

lemma pieces_run:
  assumes "\<forall>i \<in> set [b..<b + l]. in_run best i" "fst best = int b" "0 < l"
  shows "concat (map (piece words best) [b..<b + l]) = [0x3A]"
proof -
  have rest: "concat (map (piece words best) is) = []" if "\<forall>i \<in> set is. in_run best i \<and> i \<noteq> b" for "is"
    using that assms(2) by (induction "is") (auto simp: piece_def)
  show ?thesis
    using assms rest [of "[Suc b..<b + l]"] by (auto simp: upt_conv_Cons piece_def)
qed

lemma pieces_after:
  assumes "\<forall>i \<in> set [n..<length words]. \<not> in_run best i" "0 < n"
  shows "concat (map (piece words best) [n..<length words]) = concat (map (\<lambda>w. 0x3A # fmt_x w) (drop n words))"
proof -
  have "drop n words = map ((!) words) [n..<length words]" by (rule nth_equalityI) auto
  moreover have "map (piece words best) [n..<length words] = map (\<lambda>i. 0x3A # fmt_x (words ! i)) [n..<length words]"
    using assms by (intro map_cong) (auto simp: piece_def)
  ultimately show ?thesis by (simp only: map_map comp_def)
qed

lemma colon_joined: "concat (map (\<lambda>w. 0x3A # fmt_x w) ws) @ (if ws = [] then [0x3A] else []) = 0x3A # joined ws"
proof (cases ws)
  case (Cons w ws')
  have "concat (map (\<lambda>w. 0x3A # fmt_x w) (w # ws')) = 0x3A # joined (w # ws')"
    by (induction ws' arbitrary: w) auto
  with Cons show ?thesis by simp
qed simp

definition text6 :: "byte list \<Rightarrow> byte list" where
  "text6 a =
     (let ws = words_of a; b = fst (best_run ws); l = snd (best_run ws) in
      if b = - 1 then joined ws
      else if embedded ws (b, l) then [0x3A, 0x3A] @ groups (if l = 6 then [] else [0xFFFF]) @ dotted (drop 12 a)
      else (if b = 0 then [0x3A] else []) @ groups (take (nat b) ws) @ 0x3A # joined (drop (nat (b + l)) ws))"

lemma best_run_nat:
  assumes "best_run ws = best" "fst best \<noteq> - 1"
  obtains b l where "best = (int b, int l)" "2 \<le> l" "b + l \<le> length ws" "\<And>i. in_run best i \<longleftrightarrow> b \<le> i \<and> i < b + l"
    "\<And>i. b \<le> i \<Longrightarrow> i < b + l \<Longrightarrow> ws ! i = 0"
proof -
  have z: "zeros ws (fst best) (snd best)" "2 \<le> snd best"
    using best_run_correct [of ws "fst best" "snd best"] assms by auto
  then have pos: "0 \<le> fst best" "0 \<le> snd best" by (auto simp: zeros_def)
  show ?thesis
  proof (rule that [of "nat (fst best)" "nat (snd best)"])
    show "best = (int (nat (fst best)), int (nat (snd best)))" using pos by (cases best) simp
    show "2 \<le> nat (snd best)" "nat (fst best) + nat (snd best) \<le> length ws" using z pos by (auto simp: zeros_def)
    show "in_run best i \<longleftrightarrow> nat (fst best) \<le> i \<and> i < nat (fst best) + nat (snd best)" for i
      using pos assms(2) by (auto simp: in_run_def)
    show "ws ! i = 0" if "nat (fst best) \<le> i" "i < nat (fst best) + nat (snd best)" for i
    proof -
      have "fst best \<le> int i \<and> int i < fst best + snd best" using that pos by auto
      then have "ws ! nat (int i) = 0" using z(1) unfolding zeros_def by blast
      then show ?thesis by simp
    qed
  qed
qed

lemma upt_split: "i \<le> j \<Longrightarrow> j \<le> k \<Longrightarrow> [i..<k] = [i..<j] @ [j..<k]"
  by (metis le_add_diff_inverse upt_add_eq_append)

lemma pieces_text6:
  assumes "length a = 16" "best = best_run (words_of a)" "\<not> embedded (words_of a) best"
  shows "concat (map (piece (words_of a) best) [0..<8]) @ (if fst best \<noteq> - 1 \<and> fst best + snd best = 8 then [0x3A] else []) = text6 a"
proof -
  let ?ws = "words_of a"
  note ws = words_of_facts [OF assms(1)]
  show ?thesis
  proof (cases "fst best = - 1")
    case True
    then have "\<forall>i < 8. \<not> in_run best i" by (simp add: in_run_def)
    with pieces_before [of 8 best ?ws] ws(1) True assms(2) show ?thesis by (simp add: text6_def)
  next
    case False
    obtain b l where bl: "best = (int b, int l)" "2 \<le> l" "b + l \<le> length ?ws" "\<And>i. in_run best i \<longleftrightarrow> b \<le> i \<and> i < b + l"
      using best_run_nat [OF assms(2) [symmetric] False] by metis
    let ?ss = "drop (b + l) ?ws"
    have ne: "?ws \<noteq> []" using ws(1) by auto
    have "[0..<8] = [0..<b] @ [b..<b + l] @ [b + l..<8]"
      using bl(3) ws(1) upt_split [of 0 b 8] upt_split [of b "b + l" 8] by simp
    then have "concat (map (piece ?ws best) [0..<8]) =
        joined (take b ?ws) @ [0x3A] @ concat (map (\<lambda>w. 0x3A # fmt_x w) ?ss)"
      using pieces_before [of b best ?ws] pieces_run [of b l best ?ws] pieces_after [of "b + l" ?ws best] bl ws(1) by simp
    moreover have "joined (take b ?ws) @ [0x3A] = (if b = 0 then [0x3A] else []) @ groups (take b ?ws)"
      using joined_colon [of "take b ?ws"] ne by auto
    moreover have "fst best + snd best = 8 \<longleftrightarrow> ?ss = []" using bl(1,3) ws(1) by auto
    moreover have "text6 a = (if b = 0 then [0x3A] else []) @ groups (take b ?ws) @ 0x3A # joined ?ss"
      using assms(2,3) False bl(1) by (simp add: text6_def Let_def assms(2) [symmetric] nat_int_add)
    ultimately show ?thesis using colon_joined [of ?ss] False by simp
  qed
qed

lemma pieces_embedded:
  assumes "length a = 16" "best = best_run (words_of a)" "embedded (words_of a) best"
  shows "concat (map (piece (words_of a) best) [0..<6]) @ 0x3A # dotted (drop 12 a) = text6 a"
    and "length (concat (map (piece (words_of a) best) [0..<6])) \<le> 6"
proof -
  let ?ws = "words_of a"
  have l: "best = (0, 6) \<or> best = (0, 5) \<and> ?ws ! 5 = 0xFFFF" using assms(3) by (cases best) (auto simp: embedded_def)
  have idx: "[0..<6] = [0, 1, 2, 3, 4, 5 :: nat]" by (simp add: upt_rec)
  have form: "text6 a = [0x3A, 0x3A] @ groups (if snd best = 6 then [] else [0xFFFF]) @ dotted (drop 12 a)"
    using assms(2,3) l by (auto simp: text6_def Let_def)
  have five: "length (fmt_x 0xFFFF) \<le> 4" by (simp add: fmt_length)
  from l show "concat (map (piece ?ws best) [0..<6]) @ 0x3A # dotted (drop 12 a) = text6 a"
    unfolding form by (auto simp: idx piece_def in_run_def)
  from l show "length (concat (map (piece ?ws best) [0..<6])) \<le> 6"
    using five by (auto simp: idx piece_def in_run_def)
qed

lemma text6_facts:
  assumes "length a = 16"
  shows "0 \<notin> set (text6 a)"
proof -
  have groups: "0 \<notin> set (groups ws)" for ws using fmt_no_zero(2) by (induction ws) auto
  have "0 \<notin> set (joined ws)" for ws using fmt_no_zero(2) groups by (cases ws rule: rev_cases) (auto simp: joined_snoc)
  with groups dotted_facts(1) show ?thesis by (auto simp: text6_def Let_def)
qed

lemma ntop6_loop_text:
  assumes "length a = 16" "length tmp0 = 46" "length tmp4 = 16" "best = best_run (words_of a)"
  shows "\<exists>tmp1 out. ntop6_loop 8 tmp4 a (words_of a) best 0 tmp0 0 = Some (tmp1, Inr (length out)) \<and> wrote tmp0 0 out tmp1 \<and>
    out @ (if fst best \<noteq> - 1 \<and> fst best + snd best = 8 then [0x3A] else []) = text6 a \<and> length out \<le> 40"
    (is "\<exists>tmp1 out. _ \<and> _ \<and> out @ ?tail = _ \<and> _")
proof -
  let ?ws = "words_of a"
  note ws = words_of_facts [OF assms(1)] and best_def = assms(4)
  have small: "\<forall>i \<in> set [0..<8]. ?ws ! i < 65536" using ws(1,2) by simp
  show ?thesis
  proof (cases "embedded ?ws best")
    case False
    let ?out = "concat (map (piece ?ws best) [0..<0 + 8])"
    have len: "length ?out \<le> 40" using concat_pieces_length [of "[0..<8]" ?ws best] small by simp
    then obtain tmp1 where "wrote tmp0 0 ?out tmp1" "ntop6_loop 8 tmp4 a ?ws best 0 tmp0 0 = Some (tmp1, Inr (length ?out))"
      using ntop6_loop_words [of ?ws best 0 8 tmp0 0 0 tmp4 a] False ws(1) assms(2) by auto
    with len pieces_text6 [OF assms(1) best_def False] show ?thesis by auto
  next
    case True
    let ?out = "concat (map (piece ?ws best) [0..<0 + 6])"
    note emb = pieces_embedded [OF assms(1) best_def True]
    obtain tmp1 where 1: "wrote tmp0 0 ?out tmp1"
      "ntop6_loop (6 + 2) tmp4 a ?ws best 0 tmp0 0 = ntop6_loop 2 tmp4 a ?ws best 6 tmp1 (length ?out)"
      using ntop6_loop_words [of ?ws best 0 6 tmp0 0 2 tmp4 a] emb(2) ws(1) assms(2) by auto
    have len: "length tmp1 = 46" using 1(1) assms(2) by (simp add: wrote_def)
    obtain tmp2 where 2: "wrote tmp1 (length ?out) (0x3A # dotted (drop 12 a)) tmp2"
      "ntop6_loop (Suc 1) tmp4 a ?ws best 6 tmp1 (length ?out) = Some (tmp2, Inr (length ?out + 1 + length (dotted (drop 12 a))))"
      using ntop6_loop_embedded [OF True ws(1) assms(1) len assms(3), of "length ?out" 1] emb(2) dotted_facts(2) [of "drop 12 a"] by auto
    have "?tail = []" using True by (auto simp: embedded_def)
    moreover have "wrote tmp0 0 (text6 a) tmp2" using wrote_trans [OF 1(1), of "0x3A # dotted (drop 12 a)" tmp2] 2(1) emb(1) by simp
    moreover have "length (text6 a) = length ?out + 1 + length (dotted (drop 12 a))" unfolding emb(1) [symmetric] by simp
    moreover have "length (text6 a) \<le> 40" using calculation(3) emb(2) dotted_facts(2) [of "drop 12 a"] by simp
    ultimately show ?thesis using 1(2) 2(2) by (intro exI [of _ tmp2] exI [of _ "text6 a"]) (simp add: numeral_2_eq_2)
  qed
qed

lemma inet_ntop6_correct:
  assumes "length a = 16" "length tmp0 = 46" "length tmp4 = 16" "siz \<le> length dst"
  shows "inet_ntop6 tmp0 tmp4 a dst siz =
    Some (if length (text6 a) < siz then (overlay dst 0 (text6 a @ [0]), Inr ()) else (dst, Inl ENOSPC))"
    and "length (text6 a) \<le> 45"
proof -
  let ?ws = "words_of a"
  define best where "best = best_run ?ws"
  let ?tail = "if fst best \<noteq> - 1 \<and> fst best + snd best = 8 then [0x3A] else [] :: byte list"
  have words: "load_words 8 0 a (replicate 8 0) = Some ?ws"
    using load_words_correct [of a 0 8 "replicate 8 0"] assms(1) by (simp add: words_of_def)
  obtain tmp1 out where loop: "ntop6_loop 8 tmp4 a ?ws best 0 tmp0 0 = Some (tmp1, Inr (length out))"
    "wrote tmp0 0 out tmp1" "out @ ?tail = text6 a" "length out \<le> 40"
    using ntop6_loop_text [OF assms(1-3) best_def] by blast
  have len1: "length tmp1 = 46" using loop(2) assms(2) by (simp add: wrote_def)
  have tail: "length (text6 a) = length out + length ?tail" "length ?tail \<le> 1" unfolding loop(3) [symmetric] by auto
  show "length (text6 a) \<le> 45" using tail loop(4) by simp
  obtain tmp2 where 2: "(if fst best \<noteq> - 1 \<and> fst best + snd best = 8 then putc tmp1 (length out) 0x3A else Some (tmp1, length out)) =
      Some (tmp2, length (text6 a))" "wrote tmp1 (length out) ?tail tmp2"
    using putc_if_wrote [of "length out" "fst best \<noteq> - 1 \<and> fst best + snd best = 8" "0x3A" tmp1] len1 loop(4) tail by auto
  have w2: "wrote tmp0 0 (text6 a) tmp2" using wrote_trans [OF loop(2), of ?tail tmp2] 2(2) loop(3) by simp
  have len2: "length tmp2 = 46" using w2 assms(2) by (simp add: wrote_def)
  obtain tmp3 where 3: "putc tmp2 (length (text6 a)) 0 = Some (tmp3, length (text6 a) + 1)" "wrote tmp2 (length (text6 a)) [0] tmp3"
    using putc_wrote [of "length (text6 a)" tmp2 0] len2 tail loop(4) by auto
  have "wrote tmp0 0 (text6 a @ [0]) tmp3" using wrote_trans [OF w2, of "[0]" tmp3] 3(2) by simp
  then obtain rest where "tmp3 = text6 a @ 0 # rest"
    by (auto simp: wrote_def) (metis append_Cons append_Nil append_assoc append_take_drop_id)
  then have copy: "length (text6 a) < siz \<Longrightarrow> strcpy_to dst 0 tmp3 = Some (overlay dst 0 (text6 a @ [0]))"
    using strcpy_to_correct [OF text6_facts [OF assms(1)], of 0 dst rest] assms(4) by simp
  show "inet_ntop6 tmp0 tmp4 a dst siz =
    Some (if length (text6 a) < siz then (overlay dst 0 (text6 a @ [0]), Inr ()) else (dst, Inl ENOSPC))"
    using copy unfolding inet_ntop6_def words bind.bind_lunit Let_def best_def [symmetric] loop(1) prod.case sum.case 2(1) 3(1)
    by simp
qed

subsection \<open>Reading the text back\<close>

lemma bytes_of_zeros: "bytes_of (replicate n 0) = replicate (2 * n) 0"
  by (induction n) (auto simp: word_bytes_def)

lemma run_split:
  assumes "length ws = 8" "b + l \<le> 8" "\<And>i. b \<le> i \<Longrightarrow> i < b + l \<Longrightarrow> ws ! i = (0 :: nat)"
  shows "ws = take b ws @ replicate l 0 @ drop (b + l) ws"
proof -
  have "take l (drop b ws) = replicate l 0" using assms by (intro nth_equalityI) auto
  then show ?thesis by (metis append_take_drop_id drop_drop add.commute)
qed

lemma inet_pton6_embedded:
  assumes "\<forall>w \<in> set gs. w < 65536" "length gs < 6" "length d = 4" "length tmp4 = 4" "16 \<le> length dst"
  shows "inet_pton6 tmp4 ([0x3A, 0x3A] @ groups gs @ dotted d) dst =
    Some (overlay dst 0 (replicate (12 - 2 * length gs) 0 @ bytes_of gs @ d), True)"
proof -
  let ?body = "groups gs @ dotted d"
  have "dotted d \<noteq> []" by (simp add: dotted_def)
  then have run: "pton6_run tmp4 ?body ?body (between [] (Some 0)) =
      pton6_run tmp4 (dotted d) (dotted d) (between (bytes_of gs) (Some 0))"
    using pton6_groups [of gs "[]" "dotted d" tmp4 ?body "Some 0"] assms(1,2) by (auto simp: pton6_run_def)
  obtain s where s: "pton6_run tmp4 (dotted d) (dotted d) (between (bytes_of gs) (Some 0)) = pton6_colon s"
    "stored (bytes_of gs @ d) (Some 0) s"
    using pton6_run_dotted [OF assms(3,4), of "bytes_of gs" "Some 0"] assms(2) by auto
  show ?thesis
    using inet_pton6_compressed [of "[]" "bytes_of gs @ d" dst tmp4 ?body s] s run assms by simp
qed

text \<open>An address with an embedded dotted quad: five or six zero words before it.\<close>

lemma embedded_bytes:
  assumes "length a = 16" "embedded (words_of a) (0, int l)" "\<And>i. i < l \<Longrightarrow> words_of a ! i = 0"
  shows "a = replicate (12 - 2 * length (if l = 6 then [] else [0xFFFF :: nat])) 0 @ bytes_of (if l = 6 then [] else [0xFFFF]) @ drop 12 a"
proof -
  let ?ws = "words_of a" and ?gs = "if l = 6 then [] else [0xFFFF :: nat]"
  note ws = words_of_facts [OF assms(1)]
  have l: "l = 6 \<or> l = 5 \<and> ?ws ! 5 = 0xFFFF" using assms(2) by (auto simp: embedded_def)
  have "take 6 ?ws = replicate l 0 @ ?gs"
  proof (rule nth_equalityI)
    show "length (take 6 ?ws) = length (replicate l 0 @ ?gs)" using ws(1) l by auto
    show "take 6 ?ws ! i = (replicate l 0 @ ?gs) ! i" if "i < length (take 6 ?ws)" for i
    proof (cases "i < l")
      case False
      then have "i = 5" "l = 5" using that l ws(1) by auto
      then show ?thesis using l by (simp add: nth_append)
    qed (use that assms(3) ws(1) in \<open>simp add: nth_append\<close>)
  qed
  then have "a = bytes_of (replicate l 0 @ ?gs) @ drop 12 a"
    using zero_words_embedded [OF assms(1) ws(1)] ws(3) by (metis append_take_drop_id bytes_of_simps(3))
  moreover have "2 * l = 12 - 2 * length ?gs" using l by auto
  ultimately show ?thesis by (simp add: bytes_of_zeros)
qed

lemma inet_pton6_text6:
  assumes "length a = 16" "length tmp4 = 4" "16 \<le> length dst"
  shows "inet_pton6 tmp4 (text6 a) dst = Some (overlay dst 0 a, True)"
proof -
  let ?ws = "words_of a"
  define best where "best = best_run ?ws"
  note ws = words_of_facts [OF assms(1)]
  show ?thesis
  proof (cases "fst best = - 1")
    case True
    with inet_pton6_full [OF ws(2,1) assms(3)] ws(3) show ?thesis by (simp add: text6_def best_def)
  next
    case False
    obtain b l where bl: "best = (int b, int l)" "2 \<le> l" "b + l \<le> 8" "\<And>i. b \<le> i \<Longrightarrow> i < b + l \<Longrightarrow> ?ws ! i = 0"
      using best_run_nat [OF best_def [symmetric] False] ws(1) by metis
    note split = run_split [OF ws(1) bl(3,4)]
    have upper: "\<forall>w \<in> set (take b ?ws). w < 65536" "\<forall>w \<in> set (drop (b + l) ?ws). w < 65536"
      using ws(2) set_take_subset set_drop_subset by fastforce+
    show ?thesis
    proof (cases "embedded ?ws best")
      case emb: True
      have b: "b = 0" using emb bl(1) by (auto simp: embedded_def)
      have "text6 a = [0x3A, 0x3A] @ groups (if l = 6 then [] else [0xFFFF]) @ dotted (drop 12 a)"
        using emb False bl(1) by (simp add: text6_def best_def [symmetric] Let_def)
      moreover have "inet_pton6 tmp4 ([0x3A, 0x3A] @ groups (if l = 6 then [] else [0xFFFF]) @ dotted (drop 12 a)) dst =
          Some (overlay dst 0 a, True)"
        using inet_pton6_embedded [of "if l = 6 then [] else [0xFFFF]" "drop 12 a" tmp4 dst]
          embedded_bytes [OF assms(1), of l] emb bl(1,4) b assms by auto
      ultimately show ?thesis by simp
    next
      case emb: False
      let ?ps = "take b ?ws" and ?ss = "drop (b + l) ?ws"
      have len: "length ?ps = b" "length ?ss = 8 - (b + l)" using ws(1) bl(3) by auto
      obtain s where s: "pton6_run tmp4 (joined ?ss) (joined ?ss) (between (bytes_of ?ps) (Some (2 * length ?ps))) = pton6_colon s"
        "stored (bytes_of ?ps @ bytes_of ?ss) (Some (2 * length ?ps)) s"
        using pton6_run_joined [OF upper(2), of "bytes_of ?ps"] len bl(2,3) by fastforce
      have "text6 a = (if ?ps = [] then [0x3A] else []) @ groups ?ps @ 0x3A # joined ?ss"
        using emb False bl(1) ws(1) by (auto simp: text6_def best_def [symmetric] Let_def nat_int_add)
      moreover have "bytes_of ?ps @ replicate (16 - (2 * length ?ps + length (bytes_of ?ss))) 0 @ bytes_of ?ss = a"
      proof -
        have "16 - (2 * length ?ps + length (bytes_of ?ss)) = 2 * l" using len bl(3) by simp
        then show ?thesis using arg_cong [OF split, of bytes_of] ws(3) by (simp add: bytes_of_zeros)
      qed
      ultimately show ?thesis
        using inet_pton6_compressed [OF upper(1) _ _ assms(3) s] len bl(2,3) by simp
    qed
  qed
qed

subsection \<open>Any text\<close>

definition pton6_ok :: "pton6 \<Rightarrow> bool" where
  "pton6_ok s \<longleftrightarrow> length (p_tmp s) = 16 \<and> p_tp s \<le> 16 \<and> (\<forall>c. p_colonp s = Some c \<longrightarrow> c \<le> p_tp s)"

lemma put_val_ok:
  assumes "pton6_ok s" "p_tp s + 2 \<le> 16"
  shows "\<exists>s'. put_val s = Some s' \<and> pton6_ok s'"
  using assms by (auto simp: put_val_def pton6_ok_def wr_in intro: le_SucI)

lemma pton6_loop_ok:
  assumes "pton6_ok s" "length tmp4 = 4"
  shows "\<exists>r. pton6_loop tmp4 src curtok s = Some r \<and> (\<forall>s'. r = Some s' \<longrightarrow> pton6_ok s')"
  using assms(1)
proof (induction src arbitrary: curtok s)
  case (Cons ch src)
  have keep: "pton6_ok (s\<lparr>p_val := v, p_xdigits_seen := x\<rparr>)" "pton6_ok (s\<lparr>p_xdigits_seen := x, p_val := v\<rparr>)"
    "pton6_ok (s\<lparr>p_colonp := Some (p_tp s)\<rparr>)" if "pton6_ok s" for v x s using that by (simp_all add: pton6_ok_def)
  consider "0 \<le> hex_digit_value ch" | "hex_digit_value ch < 0" "ch = 0x3A" | "hex_digit_value ch < 0" "ch \<noteq> 0x3A" by linarith
  then show ?case
  proof cases
    case 1
    with Cons.IH [OF keep(1) [OF Cons.prems]] show ?thesis by (auto simp: pton6_loop.simps(2) Let_def)
  next
    case 2
    show ?thesis
    proof (cases "p_xdigits_seen s = 0")
      case True
      with 2 Cons.IH [OF keep(3) [OF Cons.prems]] show ?thesis by (auto simp: pton6_loop.simps(2) Let_def)
    next
      case False
      show ?thesis
      proof (cases "p_tp s + 2 \<le> 16")
        case room: True
        obtain s' where s': "put_val s = Some s'" "pton6_ok s'" using put_val_ok [OF Cons.prems room] by blast
        with 2 False Cons.IH [OF keep(2) [OF s'(2)]] show ?thesis by (auto simp: pton6_loop.simps(2) Let_def)
      qed (use 2 False in \<open>auto simp: pton6_loop.simps(2) Let_def\<close>)
    qed
  next
    case 3
    show ?thesis
    proof (cases "ch = 0x2E \<and> p_tp s + 4 \<le> 16")
      case True
      then have "p_tp s + 4 \<le> length (p_tmp s)" using Cons.prems by (simp add: pton6_ok_def)
      from inet_pton4_safe [OF assms(2) this, of curtok] True 3 Cons.prems show ?thesis
        by (auto simp: pton6_loop.simps(2) Let_def pton6_ok_def)
    qed (use 3 in \<open>auto simp: pton6_loop.simps(2) Let_def\<close>)
  qed
qed simp

lemma pton6_colon_ok:
  assumes "pton6_ok s"
  shows "\<exists>r. pton6_colon s = Some r \<and> (\<forall>s'. r = Some s' \<longrightarrow> length (p_tmp s') = 16)"
proof (cases "p_colonp s")
  case None
  with assms show ?thesis by (simp add: pton6_colon_def pton6_ok_def)
next
  case (Some c)
  define n where "n = p_tp s - c"
  have n: "n \<le> 16" "c + n \<le> 16" "c \<le> 16 - n" "c + (16 - n - c) \<le> 16" using assms Some by (auto simp: pton6_ok_def n_def)
  then have "\<exists>tmp. memcpy (p_tmp s) (16 - n) (p_tmp s) c n = Some tmp \<and> length tmp = 16"
    using assms by (auto simp: memcpy_def pton6_ok_def)
  then obtain tmp where tmp: "memcpy (p_tmp s) (16 - n) (p_tmp s) c n = Some tmp" "length tmp = 16" by blast
  then obtain tmp' where "memcpy tmp c (replicate (16 - n - c) 0) 0 (16 - n - c) = Some tmp'" "length tmp' = 16"
    using n(4) by (auto simp: memcpy_def)
  with tmp Some show ?thesis by (simp add: pton6_colon_def n_def [symmetric] Let_def)
qed

lemma inet_pton6_safe:
  assumes "length tmp4 = 4" "16 \<le> length dst"
  shows "(\<exists>a. length a = 16 \<and> inet_pton6 tmp4 src dst = Some (overlay dst 0 a, True)) \<or>
    inet_pton6 tmp4 src dst = Some (dst, False)"
proof (cases src)
  case Nil
  then show ?thesis by (simp add: inet_pton6_def)
next
  case (Cons c src')
  let ?s = "\<lparr>p_tmp = replicate 16 0, p_tp = 0, p_colonp = None, p_xdigits_seen = 0, p_val = 0\<rparr>"
  let ?src = "if c = 0x3A then src' else src"
  have "pton6_ok ?s" by (simp add: pton6_ok_def)
  from pton6_loop_ok [OF this assms(1), of ?src ?src] obtain r where
    r: "pton6_loop tmp4 ?src ?src ?s = Some r" "\<And>s'. r = Some s' \<Longrightarrow> pton6_ok s'" by blast
  have fin: "\<exists>r. pton6_finish s' = Some r \<and> (\<forall>s''. r = Some s'' \<longrightarrow> length (p_tmp s'') = 16)" if "pton6_ok s'" for s'
    using that put_val_ok [OF that] pton6_colon_ok by (fastforce simp: pton6_finish_def)
  show ?thesis
  proof (cases "c = 0x3A \<and> (src' = [] \<or> hd src' \<noteq> 0x3A)")
    case True
    then show ?thesis by (simp add: inet_pton6_def Cons)
  next
    case False
    then have eq: "inet_pton6 tmp4 src dst = (case r of None \<Rightarrow> Some (dst, False)
        | Some s \<Rightarrow> do { r \<leftarrow> pton6_finish s;
            case r of None \<Rightarrow> Some (dst, False)
            | Some s \<Rightarrow> if p_tp s \<noteq> 16 then Some (dst, False)
                         else do { dst \<leftarrow> memcpy dst 0 (p_tmp s) 0 16; Some (dst, True) } })"
      using r(1) unfolding inet_pton6_def Cons list.case if_not_P [OF False] Let_def by simp
    show ?thesis
    proof (cases r)
      case (Some s')
      with fin [OF r(2) [OF Some]] assms(2) show ?thesis
        unfolding eq by (auto simp: memcpy_overlay split: option.splits)
    qed (simp add: eq)
  qed
qed

text \<open>The number of bytes of an address.\<close>

definition addr_size :: "int \<Rightarrow> nat" where
  "addr_size af = (if af = AF_INET then 4 else 16)"

definition addr_text :: "int \<Rightarrow> byte list \<Rightarrow> byte list" where
  "addr_text af a = (if af = AF_INET then dotted a else text6 a)"

lemma inet_pton_string:
  assumes "0 \<notin> set t"
  shows "inet_pton tmp4 af (t @ 0 # post) dst =
    (if af = AF_INET then do { (dst, r) \<leftarrow> inet_pton4 tmp4 t dst 0; Some (dst, Inr r) }
     else if af = AF_INET6 then do { (dst, r) \<leftarrow> inet_pton6 tmp4 t dst; Some (dst, Inr r) }
     else Some (dst, Inl EAFNOSUPPORT))"
  using assms by (simp add: inet_pton_def strlen_of_correct inet_pton_length_def)

lemma inet_ntop_correct:
  assumes "af = AF_INET \<or> af = AF_INET6" "length a = addr_size af" "length tmp0 = 46" "length tmp4 = 16" "siz \<le> length dst"
  shows "inet_ntop tmp0 tmp4 af a dst siz =
    Some (if length (addr_text af a) < siz then (overlay dst 0 (addr_text af a @ [0]), Inr ()) else (dst, Inl ENOSPC))"
  using assms inet_ntop4_correct [of tmp4 a 0 siz dst] inet_ntop6_correct [of a tmp0 tmp4 siz dst]
  by (auto simp: inet_ntop_def addr_text_def addr_size_def AF_INET_def AF_INET6_def)

subsection \<open>Properties\<close>

text \<open>
  C8: round trip.  For every address of either family, \<open>inet_ntop\<close> into a buffer of
  \<open>INET_ADDRSTRLEN\<close> or \<open>INET6_ADDRSTRLEN\<close> bytes succeeds, and \<open>inet_pton\<close> reads the same address
  back from its text, whether a run of zeros was compressed or a dotted quad embedded.
\<close>

theorem inet_ntop_pton_roundtrip:
  assumes "af = AF_INET \<and> siz = 16 \<or> af = AF_INET6 \<and> siz = 46" and "length a = addr_size af" and "siz \<le> length dst"
    and "length tmp0 = 46" and "length tmp = 16" and "length tmp4 = 4" and "addr_size af \<le> length buf"
  shows "\<exists>dst'. inet_ntop tmp0 tmp af a dst siz = Some (dst', Inr ()) \<and>
    inet_pton tmp4 af dst' buf = Some (overlay buf 0 a, Inr True)"
proof -
  have t: "length (addr_text af a) < siz" "0 \<notin> set (addr_text af a)"
    using assms(1,2,4,5) inet_ntop6_correct(2) [of a tmp0 tmp 0 dst] text6_facts [of a] dotted_facts [of a]
    by (auto simp: addr_text_def addr_size_def AF_INET_def AF_INET6_def)
  have "overlay dst 0 (addr_text af a @ [0]) = addr_text af a @ 0 # drop (length (addr_text af a) + 1) dst"
    by (simp add: overlay_def)
  then show ?thesis
    using inet_ntop_correct [of af a tmp0 tmp siz dst] t inet_pton_string [OF t(2), of tmp4 af] assms
      inet_pton4_dotted [of a tmp4 0 buf] inet_pton6_text6 [of a tmp4 buf]
    by (auto simp: addr_text_def addr_size_def AF_INET_def AF_INET6_def)
qed

theorem inet_ntop_pton_roundtrip_witness:
  "\<exists>dst'. inet_ntop (replicate 46 7) (replicate 16 7) AF_INET6 [0x20, 1, 0, 0, 0, 0, 0, 0, 0, 0, 0, 0, 0, 0, 0, 1] (replicate 46 7) 46 =
      Some (dst', Inr ()) \<and>
    inet_pton (replicate 4 7) AF_INET6 dst' (replicate 16 7) =
      Some (overlay (replicate 16 7) 0 [0x20, 1, 0, 0, 0, 0, 0, 0, 0, 0, 0, 0, 0, 0, 0, 1], Inr True)"
  by (rule inet_ntop_pton_roundtrip) (simp_all add: addr_size_def AF_INET6_def AF_INET_def)

text \<open>
  C22: for every text and every address family \<open>inet_pton\<close> returns without leaving its local
  arrays and the output, and it touches the output only when it reports success, when a whole
  address is written.
\<close>

theorem inet_pton_safe:
  assumes "0 \<notin> set t" and "length tmp4 = 4" and "addr_size af \<le> length dst"
  shows "(\<exists>a. length a = addr_size af \<and> inet_pton tmp4 af (t @ 0 # post) dst = Some (overlay dst 0 a, Inr True)) \<or>
    (\<exists>r \<in> {Inr False, Inl EAFNOSUPPORT}. inet_pton tmp4 af (t @ 0 # post) dst = Some (dst, r))"
proof -
  note eq = inet_pton_string [OF assms(1), of tmp4 af post dst]
  consider "af = AF_INET" | "af \<noteq> AF_INET" "af = AF_INET6" | "af \<noteq> AF_INET" "af \<noteq> AF_INET6" by blast
  then show ?thesis
  proof cases
    case 1
    then show ?thesis unfolding eq using inet_pton4_safe [OF assms(2), of 0 dst t] assms(3) by (auto simp: addr_size_def)
  next
    case 2
    then show ?thesis unfolding eq using inet_pton6_safe [OF assms(2), of dst t] assms(3) by (auto simp: addr_size_def)
  next
    case 3
    then show ?thesis by (simp add: eq)
  qed
qed

theorem inet_pton_safe_witness:
  "(\<exists>a. length a = addr_size AF_INET \<and> inet_pton [0, 0, 0, 0] AF_INET ([49, 46, 50] @ 0 # []) [1, 2, 3, 4] = Some (overlay [1, 2, 3, 4] 0 a, Inr True)) \<or>
    (\<exists>r \<in> {Inr False, Inl EAFNOSUPPORT}. inet_pton [0, 0, 0, 0] AF_INET ([49, 46, 50] @ 0 # []) [1, 2, 3, 4] = Some ([1, 2, 3, 4], r))"
  by (rule inet_pton_safe) (simp_all add: addr_size_def)

end
