(* ===== verification/Hsearch.thy ===== *)
theory Hsearch
  imports Libc_Prelude
begin

text \<open>
  Hash tables with double hashing: \<^verbatim>\<open>src/original/misc/hsearch_r.c\<close>.

  A slot of the table is a record; the zeroed entry of a fresh slot is \<open>None\<close>.  Keys are the
  contents of the strings the entries point to, data is of any type.  Sizes, hash values and
  slot numbers are \<open>unsigned int\<close>, 32 bit words with wrap-around; \<open>char\<close> is signed.
\<close>

subsection \<open>The routines\<close>

type_synonym uint = "32 word"

datatype action = FIND | ENTER

record 'd slot =
  used :: uint
  entry :: "(byte list \<times> 'd) option"

record 'd hsearch_data =
  htable :: "'d slot list option"
  hsize :: uint
  filled :: uint

definition empty_slot :: "'d slot" where
  "empty_slot = \<lparr>used = 0, entry = None\<rparr>"

function isprime_loop :: "nat \<Rightarrow> nat \<Rightarrow> bool" where
  "isprime_loop number d =
     (if d \<le> number div d then (if number mod d = 0 then False else isprime_loop number (d + 2)) else True)"
  by pat_completeness auto
termination
proof (relation "measure (\<lambda>(number, d). number + 1 - d)", goal_cases)
  case (2 number d)
  then have "d \<le> number" using div_le_dividend order_trans by blast
  then show ?case by simp
qed simp

declare isprime_loop.simps [simp del]

definition isprime :: "nat \<Rightarrow> bool" where
  "isprime number = isprime_loop number 3"

definition UINT_MAX :: nat where
  "UINT_MAX = 4294967295"

text \<open>
  The loop of \<open>hcreate_r\<close> that looks for a prime; \<open>nel\<close> has 64 bits and stays below \<open>UINT_MAX\<close>.
\<close>

function next_prime :: "nat \<Rightarrow> nat option" where
  "next_prime nel =
     (if UINT_MAX - 2 < nel then None else if isprime nel then Some nel else next_prime (nel + 2))"
  by pat_completeness auto
termination
  by (relation "measure (\<lambda>nel. UINT_MAX - nel)") (auto simp: UINT_MAX_def)

declare next_prime.simps [simp del]

text \<open>
  A failure of \<open>hcreate_r\<close> is \<open>Inl\<close> with the error number it sets, if any.  \<open>calloc_ok\<close> tells
  whether \<open>calloc\<close> succeeds; a null argument \<open>htab\<close> is \<open>None\<close>.
\<close>

definition hcreate_r ::
  "bool \<Rightarrow> nat \<Rightarrow> 'd hsearch_data option \<Rightarrow> 'd hsearch_data option \<times> (errno option + unit)" where
  "hcreate_r calloc_ok nel htab =
     (case htab of
        None \<Rightarrow> (None, Inl (Some EINVAL))
      | Some h \<Rightarrow>
          if htable h \<noteq> None then (Some h, Inl None)
          else (case next_prime ((if nel < 3 then 3 else nel) OR 1) of
                  None \<Rightarrow> (Some h, Inl (Some ENOMEM))
                | Some p \<Rightarrow>
                    let h = h\<lparr>hsize := word_of_nat p, filled := 0\<rparr> in
                    if calloc_ok
                    then (Some (h\<lparr>htable := Some (replicate (unat (hsize h) + 1) empty_slot)\<rparr>), Inr ())
                    else (Some h, Inl None)))"

definition hdestroy_r :: "'d hsearch_data option \<Rightarrow> 'd hsearch_data option \<times> (errno option + unit)" where
  "hdestroy_r htab =
     (case htab of None \<Rightarrow> (None, Inl (Some EINVAL)) | Some h \<Rightarrow> (Some (h\<lparr>htable := None\<rparr>), Inr ()))"

fun hash_loop :: "byte list \<Rightarrow> nat \<Rightarrow> uint \<Rightarrow> uint" where
  "hash_loop key 0 hval = hval"
| "hash_loop key (Suc count) hval = hash_loop key count (push_bit 4 hval + scast (key ! count))"

definition hash :: "byte list \<Rightarrow> uint" where
  "hash key =
     (let len = word_of_nat (length key) :: uint;
          hval = hash_loop key (unat len) len
      in if hval = 0 then hval + 1 else hval)"

text \<open>Is the slot in use for the key?\<close>

definition slot_matches :: "'d slot \<Rightarrow> uint \<Rightarrow> byte list \<Rightarrow> bool option" where
  "slot_matches s hval key =
     (if used s = hval then (case entry s of None \<Rightarrow> None | Some (k, d) \<Rightarrow> Some (key = k)) else Some False)"

definition next_idx :: "uint \<Rightarrow> uint \<Rightarrow> uint \<Rightarrow> uint" where
  "next_idx sz hval2 idx = (if idx \<le> hval2 then sz + idx - hval2 else idx - hval2)"

text \<open>
  The probing loop: \<open>Inl idx\<close> is the return of the entry found, \<open>Inr idx\<close> the end of the loop.
\<close>

partial_function (option) probe_loop ::
  "'d slot list \<Rightarrow> uint \<Rightarrow> uint \<Rightarrow> uint \<Rightarrow> uint \<Rightarrow> byte list \<Rightarrow> uint \<Rightarrow> (uint + uint) option" where
  "probe_loop tab sz hval hval2 first_idx key idx =
     do { let idx' = next_idx sz hval2 idx;
          if idx' = first_idx then Some (Inr idx')
          else do { s \<leftarrow> rd tab (unat idx');
                    found \<leftarrow> slot_matches s hval key;
                    if found then Some (Inl idx')
                    else if used s \<noteq> 0 then probe_loop tab sz hval hval2 first_idx key idx'
                    else Some (Inr idx') } }"

declare probe_loop.simps [code]

definition hsearch_r ::
  "byte list \<Rightarrow> 'd \<Rightarrow> action \<Rightarrow> 'd hsearch_data \<Rightarrow> ('d hsearch_data \<times> uint cret) option" where
  "hsearch_r key data action h =
     do { tab \<leftarrow> htable h;
          let hval = hash key;
          let idx = hval mod hsize h + 1;
          s \<leftarrow> rd tab (unat idx);
          r \<leftarrow> (if used s \<noteq> 0 then
                 do { found \<leftarrow> slot_matches s hval key;
                      if found then Some (Inl idx)
                      else probe_loop tab (hsize h) hval (1 + hval mod (hsize h - 2)) idx key idx }
               else Some (Inr idx));
          case r of
            Inl idx \<Rightarrow> Some (h, Inr idx)
          | Inr idx \<Rightarrow>
              if action = ENTER then
                (if filled h = hsize h then Some (h, Inl ENOMEM)
                 else do { tab \<leftarrow> wr tab (unat idx) \<lparr>used = hval, entry = Some (key, data)\<rparr>;
                           Some (h\<lparr>htable := Some tab, filled := filled h + 1\<rparr>, Inr idx) })
              else Some (h, Inl ESRCH) }"

subsection \<open>Primes\<close>

definition is_prime :: "nat \<Rightarrow> bool" where
  "is_prime p \<longleftrightarrow> 1 < p \<and> (\<forall>d. d dvd p \<longrightarrow> d = 1 \<or> d = p)"

lemma isprime_loop_correct:
  "odd d \<Longrightarrow> 1 < d \<Longrightarrow> isprime_loop number d \<longleftrightarrow> (\<forall>e. odd e \<and> d \<le> e \<and> e * e \<le> number \<longrightarrow> \<not> e dvd number)"
proof (induction number d rule: isprime_loop.induct)
  case (1 number d)
  have le: "d \<le> number div d \<longleftrightarrow> d * d \<le> number" using "1.prems" by (simp add: less_eq_div_iff_mult_less_eq)
  show ?case
  proof (cases "d * d \<le> number")
    case False
    then have "\<not> e * e \<le> number" if "d \<le> e" for e using mult_le_mono [OF that that] by linarith
    with False le show ?thesis by (subst isprime_loop.simps) auto
  next
    case True
    show ?thesis
    proof (cases "number mod d = 0")
      case dvd: True
      then have "d dvd number" by auto
      with True dvd le "1.prems" show ?thesis by (subst isprime_loop.simps) auto
    next
      case False
      then have "isprime_loop number d \<longleftrightarrow> isprime_loop number (d + 2)" using True le by (subst isprime_loop.simps) simp
      also have "\<dots> \<longleftrightarrow> (\<forall>e. odd e \<and> d + 2 \<le> e \<and> e * e \<le> number \<longrightarrow> \<not> e dvd number)"
        using "1.IH" True False le "1.prems" by simp
      also have "\<dots> \<longleftrightarrow> (\<forall>e. odd e \<and> d \<le> e \<and> e * e \<le> number \<longrightarrow> \<not> e dvd number)"
      proof -
        have "e = d \<or> d + 2 \<le> e" if "odd e" "d \<le> e" for e
          using that "1.prems"(1) by (cases "e = d + 1") auto
        moreover have "\<not> d dvd number" using False by auto
        ultimately show ?thesis by (metis add_leD1)
      qed
      finally show ?thesis .
    qed
  qed
qed

lemma isprime_correct:
  assumes "odd number" "1 < number"
  shows "isprime number \<longleftrightarrow> is_prime number"
proof -
  have small: "isprime number \<longleftrightarrow> (\<forall>e. odd e \<and> 3 \<le> e \<and> e * e \<le> number \<longrightarrow> \<not> e dvd number)"
    unfolding isprime_def by (rule isprime_loop_correct) auto
  show ?thesis
  proof
    assume prime: "isprime number"
    have "d = 1 \<or> d = number" if d: "d dvd number" for d
    proof (rule ccontr)
      assume neg: "\<not> (d = 1 \<or> d = number)"
      obtain c where c: "number = d * c" using d by blast
      have odd: "odd d" "odd c" using assms c by auto
      moreover have "d \<noteq> 1" "c \<noteq> 1" using neg c by auto
      ultimately have ge: "3 \<le> d" "3 \<le> c" using odd_pos [of d] odd_pos [of c] by presburger+
      have "d dvd number" "c dvd number" using c by auto
      moreover have "d * d \<le> number \<or> c * c \<le> number" unfolding c by (cases "d \<le> c") auto
      ultimately show False using prime small odd ge by blast
    qed
    with assms show "is_prime number" by (simp add: is_prime_def)
  next
    assume prime: "is_prime number"
    have "\<not> e dvd number" if "odd e" "3 \<le> e" "e * e \<le> number" for e
    proof
      assume "e dvd number"
      with prime that have "e = number" by (auto simp: is_prime_def)
      then have "3 * number \<le> number * number" using that by (intro mult_le_mono1) simp
      with that assms show False by (simp add: \<open>e = number\<close>)
    qed
    with small show "isprime number" by blast
  qed
qed

lemma next_prime_correct:
  "odd nel \<Longrightarrow> 1 < nel \<Longrightarrow>
     (case next_prime nel of
        Some p \<Rightarrow> is_prime p \<and> nel \<le> p \<and> p \<le> UINT_MAX - 2 \<and> (\<forall>q. is_prime q \<longrightarrow> nel \<le> q \<longrightarrow> p \<le> q)
      | None \<Rightarrow> \<forall>q. is_prime q \<longrightarrow> nel \<le> q \<longrightarrow> UINT_MAX - 2 < q)"
proof (induction nel rule: next_prime.induct)
  case (1 nel)
  consider (big) "UINT_MAX - 2 < nel" | (prime) "\<not> UINT_MAX - 2 < nel" "isprime nel"
    | (rec) "\<not> UINT_MAX - 2 < nel" "\<not> isprime nel" by blast
  then show ?case
  proof cases
    case big
    then show ?thesis by (subst next_prime.simps) auto
  next
    case prime
    with "1.prems" isprime_correct show ?thesis by (subst next_prime.simps) auto
  next
    case rec
    have far: "nel + 2 \<le> q" if q: "is_prime q" "nel \<le> q" for q
    proof -
      have "q \<noteq> nel" using rec q "1.prems" isprime_correct by auto
      moreover have "odd q"
      proof
        assume "even q"
        then have "2 dvd q" by simp
        with q(1) have "q = 2" by (auto simp: is_prime_def)
        with q(2) "1.prems" show False by (cases "nel = 2") auto
      qed
      ultimately show ?thesis using q(2) "1.prems"(1) by (cases "q = nel + 1") auto
    qed
    from rec have "next_prime nel = next_prime (nel + 2)" by (subst next_prime.simps) simp
    with "1.IH" rec "1.prems" far show ?thesis by (fastforce split: option.splits)
  qed
qed

subsection \<open>The probe sequence\<close>

text \<open>The \<open>j\<close>-th slot probed for the hash value \<open>h\<close> in a table of size \<open>n\<close>.\<close>

definition stride :: "nat \<Rightarrow> nat \<Rightarrow> nat" where
  "stride n h = n - (1 + h mod (n - 2))"

definition pos :: "nat \<Rightarrow> nat \<Rightarrow> nat \<Rightarrow> nat" where
  "pos n h j = (h mod n + j * stride n h) mod n + 1"

definition size_ok :: "nat \<Rightarrow> bool" where
  "size_ok n \<longleftrightarrow> is_prime n \<and> 3 \<le> n \<and> n \<le> UINT_MAX - 2"

lemma stride_range: "3 \<le> n \<Longrightarrow> 0 < stride n h \<and> stride n h < n"
proof -
  assume "3 \<le> n"
  then have "h mod (n - 2) < n - 2" by (intro mod_less_divisor) simp
  then show ?thesis unfolding stride_def using \<open>3 \<le> n\<close> by linarith
qed

lemma pos_range: "0 < n \<Longrightarrow> 1 \<le> pos n h j \<and> pos n h j \<le> n"
  by (simp add: pos_def Suc_le_eq)

lemma pos_Suc: "pos n h (Suc j) = (pos n h j - 1 + stride n h) mod n + 1"
  by (simp add: pos_def mod_simps add.assoc) (simp add: add.commute add.left_commute)

lemma coprime_stride:
  assumes "size_ok n"
  shows "coprime n (stride n h)"
proof (rule coprimeI)
  fix d
  assume d: "d dvd n" "d dvd stride n h"
  then have "d = 1 \<or> d = n" using assms by (auto simp: size_ok_def is_prime_def)
  moreover have "stride n h < n" "0 < stride n h" using stride_range [of n h] assms by (auto simp: size_ok_def)
  ultimately show "is_unit d" using d(2) by (auto dest: dvd_imp_le)
qed

lemma pos_inj:
  assumes "size_ok n" "j < n" "j' < n" "pos n h j = pos n h j'"
  shows "j = j'"
proof -
  have aux: "i = i'" if "i \<le> i'" "i' < n" "pos n h i = pos n h i'" for i i'
  proof -
    have le: "h mod n + i * stride n h \<le> h mod n + i' * stride n h" using that(1) by simp
    have "(h mod n + i' * stride n h) mod n = (h mod n + i * stride n h) mod n" using that(3) by (simp add: pos_def)
    then have "n dvd (i' - i) * stride n h"
      using mod_eq_dvd_iff_nat [OF le] by (simp add: diff_mult_distrib)
    then have "n dvd i' - i" using coprime_stride [OF assms(1)] by (simp add: coprime_dvd_mult_left_iff)
    then show ?thesis using that(1,2) by (auto dest: dvd_imp_le)
  qed
  from aux [of j j'] aux [of j' j] assms show ?thesis by (cases "j \<le> j'") auto
qed

lemma pos_image: "size_ok n \<Longrightarrow> pos n h ` {..<n} = {1..n}"
proof (rule card_subset_eq)
  assume n: "size_ok n"
  show "pos n h ` {..<n} \<subseteq> {1..n}" using pos_range [of n h] n by (auto simp: size_ok_def)
  have "inj_on (pos n h) {..<n}" using pos_inj [OF n] by (auto simp: inj_on_def)
  then show "card (pos n h ` {..<n}) = card {1..n}" by (simp add: card_image)
qed simp

lemma pos_wrap: "pos n h n = pos n h 0"
  by (simp add: pos_def)

lemma next_idx_pos:
  assumes "3 \<le> unat sz" "unat idx = pos (unat sz) (unat hval) j"
  shows "unat (next_idx sz (1 + hval mod (sz - 2)) idx) = pos (unat sz) (unat hval) (Suc j)"
proof -
  define n where "n = unat sz"
  define x where "x = unat idx"
  define s where "s = 1 + unat hval mod (n - 2)"
  have "(2 :: uint) \<le> sz" using assms(1) by (simp add: word_le_nat_alt)
  then have "unat (sz - 2) = n - 2" by (simp add: unat_sub n_def)
  then have m: "unat (hval mod (sz - 2)) = unat hval mod (n - 2)" by (simp add: unat_mod_distrib)
  have lt: "unat hval mod (n - 2) < n - 2" using assms(1) by (intro mod_less_divisor) (simp add: n_def)
  have big: "n < 2 ^ 32" unfolding n_def using unsigned_less [of sz, where ?'a = nat] by simp
  have h2: "unat (1 + hval mod (sz - 2)) = s"
    using lt big m by (simp add: s_def unat_word_ariths)
  have s: "0 < s" "s < n" unfolding s_def using lt by linarith+
  have x: "1 \<le> x" "x \<le> n" using pos_range [of n "unat hval" j] assms by (auto simp: x_def n_def)
  have stride: "stride n (unat hval) = n - s" by (simp add: stride_def s_def)
  have "unat (next_idx sz (1 + hval mod (sz - 2)) idx) = (if x \<le> s then n + x - s else x - s)"
  proof (cases "x \<le> s")
    case True
    let ?h = "1 + hval mod (sz - 2)"
    have "idx \<le> ?h" using True h2 by (simp add: word_le_nat_alt x_def)
    moreover have "unat (?h - idx) = s - x" using calculation by (simp add: unat_sub h2 x_def)
    moreover have "?h - idx \<le> sz" using calculation(2) s by (simp add: word_le_nat_alt n_def)
    ultimately show ?thesis
      using True x s unat_sub [of "?h - idx" sz] by (simp add: next_idx_def n_def [symmetric] algebra_simps)
  next
    case False
    then have "1 + hval mod (sz - 2) \<le> idx" "\<not> idx \<le> 1 + hval mod (sz - 2)" using h2 by (simp_all add: word_le_nat_alt x_def)
    with False show ?thesis by (simp add: next_idx_def unat_sub h2 x_def)
  qed
  also have "\<dots> = (x - 1 + (n - s)) mod n + 1"
  proof (cases "x \<le> s")
    case True
    then have "x - 1 + (n - s) < n" using x s by linarith
    with True x s show ?thesis by simp
  next
    case False
    then have e: "x - 1 + (n - s) = (x - 1 - s) + n" and lt: "x - 1 - s < n" using x s by linarith+
    have "(x - 1 + (n - s)) mod n = x - 1 - s" unfolding e using lt by simp
    with False show ?thesis by simp
  qed
  also have "\<dots> = pos n (unat hval) (Suc j)"
    using assms(2) by (simp add: pos_Suc stride n_def [symmetric] x_def [symmetric])
  finally show ?thesis by (simp add: n_def)
qed

subsection \<open>The invariant and the map a table stands for\<close>

abbreviation probes :: "nat \<Rightarrow> byte list \<Rightarrow> nat \<Rightarrow> nat" where
  "probes n k j \<equiv> pos n (unat (hash k)) j"

definition holds :: "'d slot list \<Rightarrow> nat \<Rightarrow> byte list \<Rightarrow> 'd \<Rightarrow> bool" where
  "holds tab i k d \<longleftrightarrow> used (tab ! i) = hash k \<and> entry (tab ! i) = Some (k, d)"

text \<open>
  Every used slot holds a key and its hash value, on the probe sequence of the key and behind
  used slots only; no key is held twice.
\<close>

definition slots_inv :: "nat \<Rightarrow> 'd slot list \<Rightarrow> bool" where
  "slots_inv n tab \<longleftrightarrow> length tab = n + 1 \<and>
     (\<forall>i \<in> {1..n}. used (tab ! i) \<noteq> 0 \<longrightarrow> (\<exists>k d j. holds tab i k d \<and> j < n \<and> i = probes n k j \<and>
        (\<forall>j' < j. used (tab ! probes n k j') \<noteq> 0))) \<and>
     (\<forall>i \<in> {1..n}. \<forall>i' \<in> {1..n}. \<forall>k d d'. holds tab i k d \<longrightarrow> holds tab i' k d' \<longrightarrow> i = i')"

definition used_slots :: "nat \<Rightarrow> 'd slot list \<Rightarrow> nat set" where
  "used_slots n tab = {i \<in> {1..n}. used (tab ! i) \<noteq> 0}"

definition htab_inv :: "'d hsearch_data \<Rightarrow> bool" where
  "htab_inv h \<longleftrightarrow> size_ok (unat (hsize h)) \<and>
     (case htable h of None \<Rightarrow> False
      | Some tab \<Rightarrow> slots_inv (unat (hsize h)) tab \<and> unat (filled h) = card (used_slots (unat (hsize h)) tab))"

definition table_map :: "'d slot list \<Rightarrow> byte list \<rightharpoonup> 'd" where
  "table_map tab = map_of (map (\<lambda>s. the (entry s)) (filter (\<lambda>s. used s \<noteq> 0) (drop 1 tab)))"

definition htab_map :: "'d hsearch_data \<Rightarrow> byte list \<rightharpoonup> 'd" where
  "htab_map h = (case htable h of None \<Rightarrow> Map.empty | Some tab \<Rightarrow> table_map tab)"

lemma hash_nonzero [simp]: "hash k \<noteq> 0" "0 \<noteq> hash k"
  by (auto simp: hash_def Let_def)

lemma holds_used: "holds tab i k d \<Longrightarrow> used (tab ! i) \<noteq> 0"
  by (simp add: holds_def)

lemma slots_inv_length: "slots_inv n tab \<Longrightarrow> length tab = n + 1"
  by (simp add: slots_inv_def)

lemma slots_inv_used:
  assumes "slots_inv n tab" "i \<in> {1..n}" "used (tab ! i) \<noteq> 0"
  obtains k d j where "holds tab i k d" "j < n" "i = probes n k j" "\<And>j'. j' < j \<Longrightarrow> used (tab ! probes n k j') \<noteq> 0"
  using assms unfolding slots_inv_def by blast

lemma slots_inv_unique:
  "slots_inv n tab \<Longrightarrow> i \<in> {1..n} \<Longrightarrow> i' \<in> {1..n} \<Longrightarrow> holds tab i k d \<Longrightarrow> holds tab i' k d' \<Longrightarrow> i = i'"
  unfolding slots_inv_def by blast

lemma table_map_iff:
  assumes "slots_inv n tab"
  shows "table_map tab k = Some d \<longleftrightarrow> (\<exists>i \<in> {1..n}. holds tab i k d)"
proof -
  have len: "length tab = n + 1" using assms by (simp add: slots_inv_def)
  let ?es = "map (\<lambda>s. the (entry s)) (filter (\<lambda>s. used s \<noteq> 0) (drop 1 tab))"
  have dr: "s \<in> set (drop 1 tab) \<longleftrightarrow> (\<exists>i \<in> {1..n}. s = tab ! i)" for s
  proof
    assume "s \<in> set (drop 1 tab)"
    then obtain j where "j < n" "s = tab ! (j + 1)" using len by (auto simp: in_set_conv_nth)
    then show "\<exists>i \<in> {1..n}. s = tab ! i" by (intro bexI [of _ "j + 1"]) auto
  next
    assume "\<exists>i \<in> {1..n}. s = tab ! i"
    then obtain i where "i \<in> {1..n}" "s = tab ! i" by blast
    then have "s = drop 1 tab ! (i - 1)" "i - 1 < length (drop 1 tab)" using len by auto
    then show "s \<in> set (drop 1 tab)" by (metis nth_mem)
  qed
  have mem: "(k, d) \<in> set ?es \<longleftrightarrow> (\<exists>i \<in> {1..n}. holds tab i k d)" for k d
  proof
    assume "(k, d) \<in> set ?es"
    then obtain s where "s \<in> set (drop 1 tab)" "used s \<noteq> 0" "(k, d) = the (entry s)" by auto
    then obtain i where i: "i \<in> {1..n}" "used (tab ! i) \<noteq> 0" "(k, d) = the (entry (tab ! i))" unfolding dr by blast
    from slots_inv_used [OF assms i(1,2)] obtain k' d' where "holds tab i k' d'" by blast
    with i show "\<exists>i \<in> {1..n}. holds tab i k d" by (auto simp: holds_def)
  next
    assume "\<exists>i \<in> {1..n}. holds tab i k d"
    then obtain i where "i \<in> {1..n}" "holds tab i k d" by blast
    then have "tab ! i \<in> set (drop 1 tab)" "used (tab ! i) \<noteq> 0" "the (entry (tab ! i)) = (k, d)"
      unfolding dr by (auto simp: holds_def)
    then show "(k, d) \<in> set ?es" by force
  qed
  have uniq: "d = d'" if "(k, d) \<in> set ?es" "(k, d') \<in> set ?es" for k d d'
    using that slots_inv_unique [OF assms] unfolding mem by (force simp: holds_def)
  show ?thesis
  proof
    assume "table_map tab k = Some d"
    then show "\<exists>i \<in> {1..n}. holds tab i k d" unfolding table_map_def using map_of_SomeD mem by fast
  next
    assume "\<exists>i \<in> {1..n}. holds tab i k d"
    then have "(k, d) \<in> set ?es" using mem by simp
    moreover from this obtain d' where d': "map_of ?es k = Some d'" using weak_map_of_SomeI by fast
    ultimately show "table_map tab k = Some d" unfolding table_map_def using uniq [OF _ map_of_SomeD [OF d']] by simp
  qed
qed

lemma table_map_None:
  "slots_inv n tab \<Longrightarrow> table_map tab k = None \<longleftrightarrow> (\<forall>i \<in> {1..n}. \<forall>d. \<not> holds tab i k d)"
  using table_map_iff [of n tab k] by (metis not_None_eq)

subsection \<open>Searching\<close>

lemma slot_matches_correct:
  assumes "slots_inv n tab" "i \<in> {1..n}"
  shows "slot_matches (tab ! i) (hash key) key = Some (\<exists>d. holds tab i key d)"
proof (cases "used (tab ! i) = hash key")
  case True
  with slots_inv_used [OF assms] obtain k d where "holds tab i k d" by (metis hash_nonzero(1))
  with True show ?thesis by (auto simp: slot_matches_def holds_def)
next
  case False
  then show ?thesis by (simp add: slot_matches_def holds_def)
qed

text \<open>Where an unsuccessful search ends: the key is absent, and the slot is free or none is.\<close>

definition stops_at :: "nat \<Rightarrow> 'd slot list \<Rightarrow> byte list \<Rightarrow> nat \<Rightarrow> bool" where
  "stops_at n tab key i \<longleftrightarrow> i \<in> {1..n} \<and> (\<forall>i \<in> {1..n}. \<forall>d. \<not> holds tab i key d) \<and>
     (if used (tab ! i) = 0 then \<exists>j < n. i = probes n key j \<and> (\<forall>j' < j. used (tab ! probes n key j') \<noteq> 0)
      else used_slots n tab = {1..n})"

definition passed :: "nat \<Rightarrow> 'd slot list \<Rightarrow> byte list \<Rightarrow> nat \<Rightarrow> bool" where
  "passed n tab key j \<longleftrightarrow> (\<forall>j' < j. used (tab ! probes n key j') \<noteq> 0 \<and> (\<forall>d. \<not> holds tab (probes n key j') key d))"

lemma stops_at_free:
  assumes "slots_inv n tab" "j < n" "passed n tab key j" "used (tab ! probes n key j) = 0"
  shows "stops_at n tab key (probes n key j)"
proof -
  have "\<not> holds tab i key d" if i: "i \<in> {1..n}" for i d
  proof
    assume h: "holds tab i key d"
    from slots_inv_used [OF assms(1) i holds_used [OF h]] obtain k d' jj where
      k: "holds tab i k d'" "i = probes n k jj" "\<And>j'. j' < jj \<Longrightarrow> used (tab ! probes n k j') \<noteq> 0" by blast
    have "k = key" using h k(1) by (simp add: holds_def)
    consider "jj < j" | "jj = j" | "j < jj" by linarith
    then show False
      using assms(3,4) h k holds_used [OF h] \<open>k = key\<close> by cases (auto simp: passed_def)
  qed
  moreover have "probes n key j \<in> {1..n}" using pos_range [of n] assms(2) by auto
  ultimately show ?thesis using assms(2-4) by (auto simp: stops_at_def passed_def)
qed

lemma stops_at_full:
  assumes "size_ok n" "passed n tab key n" "i \<in> {1..n}"
  shows "stops_at n tab key i"
proof -
  have all: "used (tab ! i) \<noteq> 0 \<and> (\<forall>d. \<not> holds tab i key d)" if "i \<in> {1..n}" for i
  proof -
    have "i \<in> pos n (unat (hash key)) ` {..<n}" using that pos_image [OF assms(1)] by simp
    then obtain j where "j < n" "i = probes n key j" by auto
    with assms(2) show ?thesis by (simp add: passed_def)
  qed
  then have "used_slots n tab = {1..n}" by (auto simp: used_slots_def)
  with all assms(3) show ?thesis by (simp add: stops_at_def)
qed

lemma probe_loop_correct:
  assumes n: "size_ok n" "unat sz = n" and inv: "slots_inv n tab" and first: "unat first_idx = probes n key 0"
  shows "j < n \<Longrightarrow> unat idx = probes n key j \<Longrightarrow> passed n tab key (Suc j) \<Longrightarrow>
    \<exists>r. probe_loop tab sz (hash key) (1 + hash key mod (sz - 2)) first_idx key idx = Some r \<and>
      (case r of Inl i \<Rightarrow> unat i \<in> {1..n} \<and> (\<exists>d. holds tab (unat i) key d) | Inr i \<Rightarrow> stops_at n tab key (unat i))"
proof (induction "n - j" arbitrary: j idx rule: less_induct)
  case less
  define idx' where "idx' = next_idx sz (1 + hash key mod (sz - 2)) idx"
  have idx': "unat idx' = probes n key (Suc j)"
    using next_idx_pos [of sz idx "hash key" j] n less.prems(2) by (simp add: idx'_def size_ok_def)
  have range: "unat idx' \<in> {1..n}" using pos_range [of n] less.prems(1) idx' by auto
  have len: "length tab = n + 1" using inv by (simp add: slots_inv_def)
  note step = probe_loop.simps [of tab sz "hash key" "1 + hash key mod (sz - 2)" first_idx key idx, folded idx'_def]
  show ?case
  proof (cases "Suc j = n")
    case True
    then have "unat idx' = unat first_idx" using idx' first pos_wrap by simp
    then have "idx' = first_idx" by (simp add: word_unat_eq_iff)
    moreover have "stops_at n tab key (unat idx')" using n(1) less.prems(3) range True by (intro stops_at_full) auto
    ultimately show ?thesis using step by simp
  next
    case False
    with less.prems(1) have j: "Suc j < n" by simp
    have "probes n key (Suc j) \<noteq> probes n key 0" using pos_inj [OF n(1) j, of 0] less.prems(1) by auto
    then have ne: "idx' \<noteq> first_idx" using idx' first by auto
    let ?s = "tab ! unat idx'"
    have m: "rd tab (unat idx') = Some ?s" "slot_matches ?s (hash key) key = Some (\<exists>d. holds tab (unat idx') key d)"
      using range len slot_matches_correct [OF inv range] by (auto simp: rd_in)
    show ?thesis
    proof (cases "\<exists>d. holds tab (unat idx') key d")
      case True
      then show ?thesis using step ne m range by (simp add: Let_def)
    next
      case absent: False
      show ?thesis
      proof (cases "used ?s = 0")
        case True
        with stops_at_free [OF inv j less.prems(3)] idx' step ne m absent show ?thesis by (simp add: Let_def)
      next
        case False
        then have "passed n tab key (Suc (Suc j))" using less.prems(3) absent idx' by (auto simp: passed_def less_Suc_eq)
        moreover have "n - Suc j < n - j" using j by simp
        ultimately show ?thesis using less.hyps [of "Suc j" idx'] j idx' step ne m absent False by (simp add: Let_def)
      qed
    qed
  qed
qed

text \<open>The search as a whole: up to the decision what to do about an absent key.\<close>

lemma first_idx_pos:
  assumes "size_ok n" "unat sz = n"
  shows "unat (hash key mod sz + 1) = probes n key 0"
proof -
  have "unat (hash key mod sz) = unat (hash key) mod n" using assms(2) by (simp add: unat_mod_distrib)
  moreover have "unat (hash key) mod n < n" using assms(1) by (simp add: size_ok_def)
  moreover have "n < 2 ^ 32 - 2" using assms(1) by (simp add: size_ok_def UINT_MAX_def)
  ultimately show ?thesis by (simp add: pos_def unat_word_ariths)
qed

lemma hsearch_r_search:
  assumes "htab_inv h" "htable h = Some tab" "unat (hsize h) = n"
  obtains r where
    "hsearch_r key data action h =
       (case r of Inl idx \<Rightarrow> Some (h, Inr idx)
        | Inr idx \<Rightarrow>
            if action = ENTER then
              (if filled h = hsize h then Some (h, Inl ENOMEM)
               else do { tab \<leftarrow> wr tab (unat idx) \<lparr>used = hash key, entry = Some (key, data)\<rparr>;
                         Some (h\<lparr>htable := Some tab, filled := filled h + 1\<rparr>, Inr idx) })
            else Some (h, Inl ESRCH))"
    "case r of Inl i \<Rightarrow> unat i \<in> {1..n} \<and> (\<exists>d. holds tab (unat i) key d) | Inr i \<Rightarrow> stops_at n tab key (unat i)"
proof -
  have inv: "size_ok n" "slots_inv n tab" using assms by (auto simp: htab_inv_def)
  define idx where "idx = hash key mod hsize h + 1"
  have idx: "unat idx = probes n key 0" using first_idx_pos [OF inv(1) assms(3)] by (simp add: idx_def)
  have n0: "0 < n" using inv(1) by (simp add: size_ok_def)
  have range: "unat idx \<in> {1..n}" using pos_range [OF n0] idx by auto
  let ?s = "tab ! unat idx"
  have rd: "rd tab (unat idx) = Some ?s" using range slots_inv_length [OF inv(2)] by (intro rd_in) simp
  have "\<exists>r. (if used ?s \<noteq> 0 then
       do { found \<leftarrow> slot_matches ?s (hash key) key;
            if found then Some (Inl idx)
            else probe_loop tab (hsize h) (hash key) (1 + hash key mod (hsize h - 2)) idx key idx }
     else Some (Inr idx)) = Some r \<and>
    (case r of Inl i \<Rightarrow> unat i \<in> {1..n} \<and> (\<exists>d. holds tab (unat i) key d) | Inr i \<Rightarrow> stops_at n tab key (unat i))"
  proof (cases "used ?s = 0")
    case True
    with stops_at_free [OF inv(2) n0, of key] idx show ?thesis by (simp add: passed_def)
  next
    case False
    note sm = slot_matches_correct [OF inv(2) range, of key]
    show ?thesis
    proof (cases "\<exists>d. holds tab (unat idx) key d")
      case True
      with False sm range show ?thesis by simp
    next
      case absent: False
      have "passed n tab key (Suc 0)" using False absent idx by (simp add: passed_def)
      from probe_loop_correct [OF inv(1) assms(3) inv(2) idx n0 idx this] False absent sm show ?thesis by simp
    qed
  qed
  then obtain r where r: "(if used ?s \<noteq> 0 then
       do { found \<leftarrow> slot_matches ?s (hash key) key;
            if found then Some (Inl idx)
            else probe_loop tab (hsize h) (hash key) (1 + hash key mod (hsize h - 2)) idx key idx }
     else Some (Inr idx)) = Some r"
    "case r of Inl i \<Rightarrow> unat i \<in> {1..n} \<and> (\<exists>d. holds tab (unat i) key d) | Inr i \<Rightarrow> stops_at n tab key (unat i)" by blast
  show thesis
    by (rule that [OF _ r(2)]) (simp only: hsearch_r_def assms(2) bind.bind_lunit Let_def idx_def [symmetric] rd r(1))
qed

subsection \<open>Entering\<close>

lemma holds_update:
  assumes "i < length tab" "i' < length tab"
  shows "holds (tab[i := \<lparr>used = hash key, entry = Some (key, data)\<rparr>]) i' k d \<longleftrightarrow>
    (if i' = i then k = key \<and> d = data else holds tab i' k d)"
  using assms by (auto simp: holds_def nth_list_update)

lemma slots_inv_enter:
  fixes data :: 'd
  assumes inv: "slots_inv n tab" and st: "stops_at n tab key i" and free: "used (tab ! i) = 0"
  defines "tab' \<equiv> tab[i := \<lparr>used = hash key, entry = Some (key, data)\<rparr>]"
  shows "slots_inv n tab'" and "table_map tab' = (table_map tab)(key \<mapsto> data)"
    and "used_slots n tab' = insert i (used_slots n tab)" and "i \<notin> used_slots n tab"
proof -
  have len: "length tab = n + 1" using inv by (simp add: slots_inv_def)
  have i: "i \<in> {1..n}" "i < length tab" using st len by (auto simp: stops_at_def)
  obtain j where j: "j < n" "i = probes n key j" "\<And>j'. j' < j \<Longrightarrow> used (tab ! probes n key j') \<noteq> 0"
    using st free by (auto simp: stops_at_def)
  have absent: "\<not> holds tab i' key d" if "i' \<in> {1..n}" for i' d using st that by (simp add: stops_at_def)
  have used: "used (tab' ! i') = (if i' = i then hash key else used (tab ! i'))" for i'
    using i by (simp add: tab'_def nth_list_update)
  have holds: "holds tab' i' k d \<longleftrightarrow> (if i' = i then k = key \<and> d = data else holds tab i' k d)" if "i' \<in> {1..n}" for i' k d
    unfolding tab'_def using that i len by (intro holds_update) auto
  have "\<exists>k d j. holds tab' i' k d \<and> j < n \<and> i' = probes n k j \<and> (\<forall>j' < j. used (tab' ! probes n k j') \<noteq> 0)"
    if i': "i' \<in> {1..n}" "used (tab' ! i') \<noteq> 0" for i'
  proof (cases "i' = i")
    case True
    then have "holds tab' i' key data" using holds [OF i'(1)] by simp
    moreover have "used (tab' ! probes n key j') \<noteq> 0" if "j' < j" for j' using j(3) [OF that] used by simp
    ultimately show ?thesis using j(1,2) True by blast
  next
    case False
    with i'(2) used have "used (tab ! i') \<noteq> 0" by simp
    from slots_inv_used [OF inv i'(1) this] obtain k d jj where
      k: "holds tab i' k d" "jj < n" "i' = probes n k jj" "\<And>j'. j' < jj \<Longrightarrow> used (tab ! probes n k j') \<noteq> 0" by blast
    have "holds tab' i' k d" using k(1) False holds [OF i'(1)] by simp
    moreover have "used (tab' ! probes n k j') \<noteq> 0" if "j' < jj" for j' using k(4) [OF that] used by simp
    ultimately show ?thesis using k(2,3) by blast
  qed
  moreover have "i1 = i2" if "i1 \<in> {1..n}" "i2 \<in> {1..n}" "holds tab' i1 k d" "holds tab' i2 k d'" for i1 i2 k d d'
  proof -
    consider "i1 = i" "i2 = i" | "i1 \<noteq> i" "i2 \<noteq> i" | "i1 = i" "i2 \<noteq> i" | "i1 \<noteq> i" "i2 = i" by blast
    then show ?thesis
    proof cases
      case 2
      with that(3,4) holds [OF that(1)] holds [OF that(2)] slots_inv_unique [OF inv that(1,2)] show ?thesis by simp
    next
      case 3
      with that(3,4) holds [OF that(1)] holds [OF that(2)] absent [OF that(2)] show ?thesis by simp
    next
      case 4
      with that(3,4) holds [OF that(1)] holds [OF that(2)] absent [OF that(1)] show ?thesis by simp
    qed simp
  qed
  moreover have "length tab' = n + 1" by (simp add: tab'_def len)
  ultimately show inv': "slots_inv n tab'" unfolding slots_inv_def by blast
  show "table_map tab' = (table_map tab)(key \<mapsto> data)"
  proof
    fix k
    have "table_map tab' k = Some d \<longleftrightarrow> ((table_map tab)(key \<mapsto> data)) k = Some d" for d
    proof -
      have "table_map tab' k = Some d \<longleftrightarrow> (\<exists>i' \<in> {1..n}. if i' = i then k = key \<and> d = data else holds tab i' k d)"
        unfolding table_map_iff [OF inv'] using holds by blast
      also have "\<dots> \<longleftrightarrow> (if k = key then d = data else \<exists>i' \<in> {1..n}. holds tab i' k d)"
      proof (cases "k = key")
        case True
        with i absent show ?thesis by auto
      next
        case False
        moreover have "\<not> holds tab i k d" using holds_used [of tab i k d] free by auto
        ultimately show ?thesis by auto
      qed
      finally show ?thesis using table_map_iff [OF inv, of k d] by auto
    qed
    then show "table_map tab' k = ((table_map tab)(key \<mapsto> data)) k" by (metis not_None_eq)
  qed
  show "used_slots n tab' = insert i (used_slots n tab)" using i used by (auto simp: used_slots_def)
  show "i \<notin> used_slots n tab" using free by (simp add: used_slots_def)
qed

lemma finite_used_slots [simp]: "finite (used_slots n tab)"
  by (simp add: used_slots_def)

lemma card_used_slots: "card (used_slots n tab) \<le> n"
proof -
  have "used_slots n tab \<subseteq> {1..n}" by (auto simp: used_slots_def)
  from card_mono [OF _ this] show ?thesis by simp
qed

lemma dom_table_map:
  assumes "slots_inv n tab"
  shows "card (dom (table_map tab)) = card (used_slots n tab)" "finite (dom (table_map tab))"
proof -
  let ?key = "\<lambda>i. fst (the (entry (tab ! i)))"
  have "dom (table_map tab) = ?key ` used_slots n tab"
  proof (intro set_eqI iffI)
    fix k
    assume "k \<in> dom (table_map tab)"
    then obtain i d where "i \<in> {1..n}" "holds tab i k d" using table_map_iff [OF assms] by blast
    then show "k \<in> ?key ` used_slots n tab" by (auto simp: used_slots_def holds_def intro!: rev_image_eqI)
  next
    fix k
    assume "k \<in> ?key ` used_slots n tab"
    then obtain i where i: "i \<in> {1..n}" "used (tab ! i) \<noteq> 0" "k = ?key i" by (auto simp: used_slots_def)
    from slots_inv_used [OF assms i(1,2)] obtain k' d where "holds tab i k' d" by blast
    with i show "k \<in> dom (table_map tab)" using table_map_iff [OF assms, of k d] by (auto simp: holds_def)
  qed
  moreover have "inj_on ?key (used_slots n tab)"
  proof (rule inj_onI)
    fix i i'
    assume a: "i \<in> used_slots n tab" "i' \<in> used_slots n tab" "?key i = ?key i'"
    then have r: "i \<in> {1..n}" "i' \<in> {1..n}" "used (tab ! i) \<noteq> 0" "used (tab ! i') \<noteq> 0" by (auto simp: used_slots_def)
    obtain k d where k: "holds tab i k d" using slots_inv_used [OF assms r(1,3)] by blast
    obtain k' d' where k': "holds tab i' k' d'" using slots_inv_used [OF assms r(2,4)] by blast
    have "k = k'" using a(3) k k' by (simp add: holds_def)
    with slots_inv_unique [OF assms r(1,2)] k k' show "i = i'" by blast
  qed
  ultimately show "card (dom (table_map tab)) = card (used_slots n tab)" "finite (dom (table_map tab))"
    by (simp_all add: card_image)
qed

subsection \<open>A bounded table of entries\<close>

text \<open>
  The contract of \<open>hsearch\<close>: \<open>lookup\<close> is the map a table stands for; an entry is added if its key is
  absent and there is room, and an entry that is there is left as it is.
\<close>

locale entry_table =
  fixes inv :: "'s \<Rightarrow> bool" and lookup :: "'s \<Rightarrow> 'k \<rightharpoonup> 'd" and capacity :: "'s \<Rightarrow> nat"
    and search :: "'k \<Rightarrow> 'd \<Rightarrow> action \<Rightarrow> 's \<Rightarrow> ('s \<times> 'i cret) option"
  assumes bounded: "inv s \<Longrightarrow> finite (dom (lookup s)) \<and> card (dom (lookup s)) \<le> capacity s"
    and find_absent: "inv s \<Longrightarrow> lookup s k = None \<Longrightarrow> search k d FIND s = Some (s, Inl ESRCH)"
    and present: "inv s \<Longrightarrow> lookup s k \<noteq> None \<Longrightarrow> \<exists>i. search k d a s = Some (s, Inr i)"
    and enter_full: "inv s \<Longrightarrow> lookup s k = None \<Longrightarrow> card (dom (lookup s)) = capacity s \<Longrightarrow>
      search k d ENTER s = Some (s, Inl ENOMEM)"
    and enter_absent: "inv s \<Longrightarrow> lookup s k = None \<Longrightarrow> card (dom (lookup s)) < capacity s \<Longrightarrow>
      \<exists>s' i. search k d ENTER s = Some (s', Inr i) \<and> inv s' \<and> lookup s' = (lookup s)(k \<mapsto> d) \<and> capacity s' = capacity s"

text \<open>A client that enters one item after the other, and gives up when an item cannot be entered.\<close>

fun enter_all :: "('k \<Rightarrow> 'd \<Rightarrow> action \<Rightarrow> 's \<Rightarrow> ('s \<times> 'i cret) option) \<Rightarrow> ('k \<times> 'd) list \<Rightarrow> 's \<Rightarrow> ('s \<times> bool) option" where
  "enter_all search [] s = Some (s, True)"
| "enter_all search ((k, d) # items) s =
     do { (s, r) \<leftarrow> search k d ENTER s;
          case r of Inl e \<Rightarrow> Some (s, False) | Inr i \<Rightarrow> enter_all search items s }"

context entry_table
begin

lemma enter_all_correct:
  "inv s \<Longrightarrow> card (dom (map_of items ++ lookup s)) \<le> capacity s \<Longrightarrow>
     \<exists>s'. enter_all search items s = Some (s', True) \<and> inv s' \<and> lookup s' = map_of items ++ lookup s"
proof (induction items arbitrary: s)
  case (Cons kd items)
  obtain k d where kd: "kd = (k, d)" by force
  show ?case
  proof (cases "lookup s k")
    case (Some d')
    then have eq: "map_of (kd # items) ++ lookup s = map_of items ++ lookup s"
      by (auto simp: kd map_add_def split: option.splits)
    obtain i where "search k d ENTER s = Some (s, Inr i)" using present [OF Cons.prems(1)] Some by blast
    then have "enter_all search (kd # items) s = enter_all search items s" by (simp add: kd)
    with Cons.IH [OF Cons.prems(1), folded eq, OF Cons.prems(2)] show ?thesis by (simp only:)
  next
    case None
    have fin: "finite (dom (map_of (kd # items) ++ lookup s))"
      using bounded [OF Cons.prems(1)] by (simp add: finite_dom_map_of del: map_of.simps)
    have "insert k (dom (lookup s)) \<subseteq> dom (map_of (kd # items) ++ lookup s)" by (auto simp: kd)
    with fin have "card (insert k (dom (lookup s))) \<le> capacity s" using card_mono Cons.prems(2) order_trans by blast
    moreover have "k \<notin> dom (lookup s)" using None by auto
    ultimately have "card (dom (lookup s)) < capacity s" using bounded [OF Cons.prems(1)] by simp
    from enter_absent [OF Cons.prems(1) None this] obtain s1 i where
      s1: "search k d ENTER s = Some (s1, Inr i)" "inv s1" "lookup s1 = (lookup s)(k \<mapsto> d)" "capacity s1 = capacity s" by blast
    have eq: "map_of items ++ lookup s1 = map_of (kd # items) ++ lookup s"
      using None by (auto simp: kd s1(3) map_add_def split: option.splits)
    have "enter_all search (kd # items) s = enter_all search items s1" by (simp add: kd s1(1))
    with Cons.IH [OF s1(2), unfolded eq s1(4), OF Cons.prems(2)] show ?thesis by (simp only:)
  qed
qed simp

end

lemma htab_inv_table:
  assumes "htab_inv h"
  obtains tab where "htable h = Some tab" "slots_inv (unat (hsize h)) tab"
    "unat (filled h) = card (used_slots (unat (hsize h)) tab)" "size_ok (unat (hsize h))" "htab_map h = table_map tab"
  using assms by (auto simp: htab_inv_def htab_map_def split: option.splits)

lemma hsearch_r_present:
  assumes "htab_inv h" "htab_map h key = Some d"
  shows "\<exists>idx. hsearch_r key data action h = Some (h, Inr idx) \<and>
    (\<exists>s. Option.bind (htable h) (\<lambda>tab. rd tab (unat idx)) = Some s \<and> entry s = Some (key, d))"
proof -
  obtain tab where t: "htable h = Some tab" "slots_inv (unat (hsize h)) tab" "htab_map h = table_map tab"
    using htab_inv_table [OF assms(1)] by blast
  obtain i where i: "i \<in> {1..unat (hsize h)}" "holds tab i key d"
    using assms(2) table_map_iff [OF t(2)] t(3) by auto
  obtain r where r: "hsearch_r key data action h =
       (case r of Inl idx \<Rightarrow> Some (h, Inr idx)
        | Inr idx \<Rightarrow>
            if action = ENTER then
              (if filled h = hsize h then Some (h, Inl ENOMEM)
               else do { tab \<leftarrow> wr tab (unat idx) \<lparr>used = hash key, entry = Some (key, data)\<rparr>;
                         Some (h\<lparr>htable := Some tab, filled := filled h + 1\<rparr>, Inr idx) })
            else Some (h, Inl ESRCH))"
    "case r of Inl i \<Rightarrow> unat i \<in> {1..unat (hsize h)} \<and> (\<exists>d. holds tab (unat i) key d)
      | Inr i \<Rightarrow> stops_at (unat (hsize h)) tab key (unat i)"
    by (rule hsearch_r_search [OF assms(1) t(1) refl])
  show ?thesis
  proof (cases r)
    case (Inl idx)
    with r(2) obtain d' where d': "unat idx \<in> {1..unat (hsize h)}" "holds tab (unat idx) key d'" by auto
    then have "unat idx = i" using slots_inv_unique [OF t(2) d'(1) i(1) d'(2) i(2)] by simp
    with i(2) have "entry (tab ! unat idx) = Some (key, d)" by (simp add: holds_def)
    moreover have "rd tab (unat idx) = Some (tab ! unat idx)"
      using d'(1) slots_inv_length [OF t(2)] by (intro rd_in) simp
    ultimately show ?thesis using r(1) Inl t(1) by simp
  next
    case (Inr idx)
    with r(2) i show ?thesis by (auto simp: stops_at_def)
  qed
qed

lemma hsearch_r_absent:
  assumes "htab_inv h" "htab_map h key = None"
  shows "hsearch_r key data FIND h = Some (h, Inl ESRCH)"
    and "filled h = hsize h \<Longrightarrow> hsearch_r key data ENTER h = Some (h, Inl ENOMEM)"
    and "filled h \<noteq> hsize h \<Longrightarrow> \<exists>h' idx. hsearch_r key data ENTER h = Some (h', Inr idx) \<and> htab_inv h' \<and>
      htab_map h' = (htab_map h)(key \<mapsto> data) \<and> hsize h' = hsize h"
proof -
  let ?n = "unat (hsize h)"
  obtain tab where t: "htable h = Some tab" "slots_inv ?n tab" "htab_map h = table_map tab"
    "unat (filled h) = card (used_slots ?n tab)" "size_ok ?n"
    using htab_inv_table [OF assms(1)] by blast
  have none: "\<not> holds tab i key d" if "i \<in> {1..?n}" for i d
    using assms(2) that table_map_None [OF t(2)] t(3) by auto
  have st: "\<exists>idx. hsearch_r key data action h =
       (if action = ENTER then
          (if filled h = hsize h then Some (h, Inl ENOMEM)
           else do { tab \<leftarrow> wr tab (unat idx) \<lparr>used = hash key, entry = Some (key, data)\<rparr>;
                     Some (h\<lparr>htable := Some tab, filled := filled h + 1\<rparr>, Inr idx) })
        else Some (h, Inl ESRCH)) \<and> stops_at ?n tab key (unat idx)" for action
  proof (rule hsearch_r_search [OF assms(1) t(1) refl, of key data action], goal_cases)
    case (1 r)
    with none show ?case by (cases r) auto
  qed
  from st [of FIND] show "hsearch_r key data FIND h = Some (h, Inl ESRCH)" by auto
  from st [of ENTER] show "filled h = hsize h \<Longrightarrow> hsearch_r key data ENTER h = Some (h, Inl ENOMEM)" by auto
  assume room: "filled h \<noteq> hsize h"
  with st [of ENTER] obtain idx where
    idx: "hsearch_r key data ENTER h =
      do { tab \<leftarrow> wr tab (unat idx) \<lparr>used = hash key, entry = Some (key, data)\<rparr>;
           Some (h\<lparr>htable := Some tab, filled := filled h + 1\<rparr>, Inr idx) }" "stops_at ?n tab key (unat idx)" by auto
  have free: "used (tab ! unat idx) = 0"
  proof (rule ccontr)
    assume "used (tab ! unat idx) \<noteq> 0"
    then have "used_slots ?n tab = {1..?n}" using idx(2) by (simp add: stops_at_def)
    with t(4) have "unat (filled h) = unat (hsize h)" by simp
    with room show False by (simp add: word_unat_eq_iff)
  qed
  note new = slots_inv_enter(1,2,3) [OF t(2) idx(2) free, where data = data] slots_inv_enter(4) [OF t(2) idx(2) free]
  let ?tab = "tab[unat idx := \<lparr>used = hash key, entry = Some (key, data)\<rparr>]"
  let ?h = "h\<lparr>htable := Some ?tab, filled := filled h + 1\<rparr>"
  have "unat idx < length tab" using idx(2) slots_inv_length [OF t(2)] by (simp add: stops_at_def)
  with idx(1) have eq: "hsearch_r key data ENTER h = Some (?h, Inr idx)" by (simp add: wr_in)
  have "card (used_slots ?n ?tab) = unat (filled h) + 1" using new(3,4) t(4) by simp
  moreover have "unat (filled h + 1) = unat (filled h) + 1"
    using card_used_slots [of ?n tab] t(4,5) by (simp add: unat_word_ariths size_ok_def UINT_MAX_def)
  ultimately have "htab_inv ?h" using new(1) t(5) by (simp add: htab_inv_def)
  moreover have "htab_map ?h = (htab_map h)(key \<mapsto> data)" using new(2) t(3) by (simp add: htab_map_def)
  ultimately show "\<exists>h' idx. hsearch_r key data ENTER h = Some (h', Inr idx) \<and> htab_inv h' \<and>
      htab_map h' = (htab_map h)(key \<mapsto> data) \<and> hsize h' = hsize h"
    using eq by (intro exI [of _ ?h] exI [of _ idx]) simp
qed

lemma htab_card:
  assumes "htab_inv h"
  shows "card (dom (htab_map h)) = unat (filled h)" "finite (dom (htab_map h))" "unat (filled h) \<le> unat (hsize h)"
  using htab_inv_table [OF assms] dom_table_map card_used_slots by metis+

interpretation hash_table: entry_table htab_inv htab_map "\<lambda>h. unat (hsize h)" hsearch_r
proof
  fix h :: "'d hsearch_data" and k d a
  assume inv: "htab_inv h"
  show "finite (dom (htab_map h)) \<and> card (dom (htab_map h)) \<le> unat (hsize h)" using htab_card [OF inv] by simp
  show "\<exists>i. hsearch_r k d a h = Some (h, Inr i)" if "htab_map h k \<noteq> None"
    using hsearch_r_present [OF inv] that by blast
  assume none: "htab_map h k = None"
  show "hsearch_r k d FIND h = Some (h, Inl ESRCH)" using hsearch_r_absent(1) [OF inv none] .
  show "hsearch_r k d ENTER h = Some (h, Inl ENOMEM)" if "card (dom (htab_map h)) = unat (hsize h)"
    using hsearch_r_absent(2) [OF inv none] that htab_card(1) [OF inv] by (simp add: word_unat_eq_iff)
  show "\<exists>s' i. hsearch_r k d ENTER h = Some (s', Inr i) \<and> htab_inv s' \<and> htab_map s' = (htab_map h)(k \<mapsto> d) \<and>
      unat (hsize s') = unat (hsize h)" if "card (dom (htab_map h)) < unat (hsize h)"
    using hsearch_r_absent(3) [OF inv none, of d] that htab_card(1) [OF inv] by fastforce
qed

subsection \<open>Properties\<close>

lemma odd_start:
  fixes nel :: nat
  defines "start \<equiv> (if nel < 3 then 3 else nel) OR 1"
  shows "odd start" "3 \<le> start" "nel \<le> start"
  by (auto simp: start_def or_Suc_0_eq)

lemma is_prime_start: "is_prime q \<Longrightarrow> max nel 3 \<le> q \<Longrightarrow> (if nel < 3 then 3 else nel) OR 1 \<le> q"
proof -
  assume q: "is_prime q" "max nel 3 \<le> q"
  have "odd q"
  proof
    assume "even q"
    then have "2 dvd q" by simp
    with q show False by (auto simp: is_prime_def)
  qed
  with q(2) show ?thesis by (cases "q = nel") (auto simp: or_Suc_0_eq)
qed

lemma fresh_table:
  assumes "size_ok (unat n)"
  shows "htab_inv \<lparr>htable = Some (replicate (unat n + 1) empty_slot), hsize = n, filled = 0\<rparr>"
    and "htab_map \<lparr>htable = Some (replicate (unat n + 1) empty_slot), hsize = n, filled = 0\<rparr> = Map.empty"
proof -
  let ?tab = "replicate (unat n + 1) empty_slot"
  have free: "?tab ! i = empty_slot" if "i \<le> unat n" for i
    using that by (simp del: replicate_Suc)
  have empty: "used empty_slot = 0" "entry empty_slot = None" by (simp_all add: empty_slot_def)
  have inv: "slots_inv (unat n) ?tab"
    unfolding slots_inv_def using free by (auto simp: holds_def empty simp del: replicate_Suc)
  moreover have "used_slots (unat n) ?tab = {}" using free by (auto simp: used_slots_def empty simp del: replicate_Suc)
  ultimately show "htab_inv \<lparr>htable = Some ?tab, hsize = n, filled = 0\<rparr>"
    using assms by (simp add: htab_inv_def del: replicate_Suc)
  have "table_map ?tab k = None" for k
    using table_map_None [OF inv] free by (auto simp: holds_def empty simp del: replicate_Suc)
  then show "htab_map \<lparr>htable = Some ?tab, hsize = n, filled = 0\<rparr> = Map.empty"
    by (auto simp: htab_map_def simp del: replicate_Suc)
qed

lemma hcreate_r_fresh:
  fixes h :: "'d hsearch_data"
  assumes "htable h = None" "next_prime ((if nel < 3 then 3 else nel) OR 1) = Some p"
  obtains h' where "hcreate_r True nel (Some h) = (Some h', Inr ())" "htab_inv h'" "htab_map h' = Map.empty"
    "unat (hsize h') = p" "filled h' = 0" "is_prime p" "max nel 3 \<le> p"
    "\<And>q. is_prime q \<Longrightarrow> max nel 3 \<le> q \<Longrightarrow> p \<le> q"
proof -
  let ?start = "(if nel < 3 then 3 else nel) OR 1"
  have p: "is_prime p" "?start \<le> p" "p \<le> UINT_MAX - 2" "\<And>q. is_prime q \<Longrightarrow> ?start \<le> q \<Longrightarrow> p \<le> q"
    using next_prime_correct [of ?start] odd_start [of nel] assms(2) by auto
  define n :: uint where "n = word_of_nat p"
  have n: "unat n = p" using p(3) by (simp add: n_def UINT_MAX_def unat_of_nat)
  have ok: "size_ok (unat n)" using p odd_start(2) [of nel] by (auto simp: size_ok_def n)
  let ?h = "\<lparr>htable = Some (replicate (unat n + 1) empty_slot), hsize = n, filled = 0\<rparr> :: 'd hsearch_data"
  have "hcreate_r True nel (Some h) = (Some ?h, Inr ())"
    using assms by (cases h) (simp add: hcreate_r_def Let_def n_def)
  moreover have "p \<le> q" if "is_prime q" "max nel 3 \<le> q" for q using p(4) is_prime_start that by blast
  moreover have "max nel 3 \<le> p" using p(2) odd_start(2,3) [of nel] by linarith
  ultimately show ?thesis using that [of ?h] fresh_table [OF ok] n p(1) by simp
qed

text \<open>
  C30: \<open>hcreate_r\<close> gives an empty table whose size is the least prime that is at least 3 and at
  least the number of elements asked for.  It refuses a null pointer, a table that is in use, and a
  request for which no prime below \<open>UINT_MAX - 1\<close> exists, and then leaves the table as it was;
  when \<open>calloc\<close> fails the table stays unallocated.
\<close>

theorem hcreate_r_correct:
  "case htab of
     None \<Rightarrow> hcreate_r calloc_ok nel htab = (htab, Inl (Some EINVAL))
   | Some h \<Rightarrow>
       if htable h \<noteq> None then hcreate_r calloc_ok nel htab = (htab, Inl None)
       else if \<exists>p. is_prime p \<and> max nel 3 \<le> p \<and> p \<le> UINT_MAX - 2 then
         \<exists>h'. (case hcreate_r calloc_ok nel htab of
               (h1, Inl e) \<Rightarrow> calloc_ok = False \<and> e = None \<and> h1 = Some h' \<and> htable h' = None
             | (h1, Inr u) \<Rightarrow> calloc_ok \<and> h1 = Some h' \<and> htab_inv h' \<and> htab_map h' = Map.empty) \<and>
           filled h' = 0 \<and> is_prime (unat (hsize h')) \<and> max nel 3 \<le> unat (hsize h') \<and>
           \<not> (\<exists>q. is_prime q \<and> max nel 3 \<le> q \<and> q < unat (hsize h'))
       else hcreate_r calloc_ok nel htab = (htab, Inl (Some ENOMEM))"
proof (cases htab)
  case None
  then show ?thesis by (simp add: hcreate_r_def)
next
  case (Some h)
  let ?start = "(if nel < 3 then 3 else nel) OR 1"
  show ?thesis
  proof (cases "htable h = None")
    case False
    then show ?thesis by (simp add: Some hcreate_r_def)
  next
    case un: True
    show ?thesis
    proof (cases "next_prime ?start")
      case None
      have "\<forall>q. is_prime q \<longrightarrow> ?start \<le> q \<longrightarrow> UINT_MAX - 2 < q"
        using next_prime_correct [of ?start] odd_start(1,2) [of nel] None by simp
      then have "\<not> (\<exists>p. is_prime p \<and> max nel 3 \<le> p \<and> p \<le> UINT_MAX - 2)"
        using is_prime_start [of _ nel] leD by blast
      moreover from None un have "hcreate_r calloc_ok nel htab = (htab, Inl (Some ENOMEM))"
        by (simp add: hcreate_r_def Some)
      ultimately show ?thesis using un Some by simp
    next
      case p: (Some p)
      obtain h' where h': "hcreate_r True nel (Some h) = (Some h', Inr ())" "htab_inv h'" "htab_map h' = Map.empty"
        "unat (hsize h') = p" "filled h' = 0" "is_prime p" "max nel 3 \<le> p"
        "\<And>q. is_prime q \<Longrightarrow> max nel 3 \<le> q \<Longrightarrow> p \<le> q"
        using hcreate_r_fresh [OF un p] by blast
      have "p \<le> UINT_MAX - 2"
        using next_prime_correct [of ?start] odd_start [of nel] p by auto
      then have ex: "\<exists>p. is_prime p \<and> max nel 3 \<le> p \<and> p \<le> UINT_MAX - 2" using h' by blast
      have least: "\<not> (\<exists>q. is_prime q \<and> max nel 3 \<le> q \<and> q < p)" using h'(8) leD by blast
      have "\<exists>h1. hcreate_r calloc_ok nel htab = (if calloc_ok then (Some h', Inr ()) else (Some h1, Inl None)) \<and>
        htable h1 = None \<and> filled h1 = 0 \<and> hsize h1 = hsize h'"
        using h'(1) p un unfolding hcreate_r_def Some
        by (auto simp: Let_def intro!: exI [of _ "h\<lparr>hsize := word_of_nat p, filled := 0\<rparr>"])
      then obtain h1 where h1: "hcreate_r calloc_ok nel htab = (if calloc_ok then (Some h', Inr ()) else (Some h1, Inl None))"
        "htable h1 = None" "filled h1 = 0" "hsize h1 = hsize h'" by blast
      show ?thesis
        using un ex h1 h' least
        by (cases calloc_ok) (auto simp: Some simp del: max_def intro!: exI [of _ h'] exI [of _ h1])
    qed
  qed
qed

text \<open>
  C4: \<open>hsearch_r\<close> implements a finite map of bounded size.  On a table in use it always returns;
  a key that is present is found with the data it was entered with, for both actions, and the
  table does not change; a key that is absent is not found, is added by \<open>ENTER\<close> while there is
  room, and is refused by \<open>ENTER\<close> with \<open>ENOMEM\<close> when the table is full.
\<close>

theorem hsearch_r_refines:
  assumes "htab_inv h"
  shows "\<exists>h' r. hsearch_r key data action h = Some (h', r) \<and> htab_inv h' \<and>
    (case htab_map h key of
       Some d \<Rightarrow> h' = h \<and> (\<exists>idx tab s. r = Inr idx \<and> htable h = Some tab \<and> rd tab (unat idx) = Some s \<and> entry s = Some (key, d))
     | None \<Rightarrow>
         if action = FIND then h' = h \<and> r = Inl ESRCH
         else if card (dom (htab_map h)) = unat (hsize h) then h' = h \<and> r = Inl ENOMEM
         else htab_map h' = (htab_map h)(key \<mapsto> data) \<and> hsize h' = hsize h \<and> (\<exists>idx. r = Inr idx))"
proof (cases "htab_map h key")
  case None
  have eq: "card (dom (htab_map h)) = unat (hsize h) \<longleftrightarrow> filled h = hsize h"
    using htab_card(1) [OF assms] by (simp add: word_unat_eq_iff)
  show ?thesis
    using hsearch_r_absent [OF assms None, of data] assms None eq by (cases action; cases "filled h = hsize h") auto
next
  case (Some d)
  then show ?thesis
    using hsearch_r_present [OF assms Some, of data action] assms by (fastforce split: Option.bind_splits)
qed

text \<open>
  C26: a table created for \<open>nel\<close> elements holds that many.  Entering any list of items with at
  most \<open>nel\<close> different keys into a new table succeeds, and the table then maps every key to
  the data of the first item with that key.
\<close>

theorem hcreate_r_capacity:
  assumes "hcreate_r calloc_ok nel (Some h) = (Some h1, Inr ())" and "card (fst ` set items) \<le> nel"
  shows "\<exists>h2. enter_all hsearch_r items h1 = Some (h2, True) \<and> htab_inv h2 \<and> htab_map h2 = map_of items"
proof -
  obtain p where p: "htable h = None" "next_prime ((if nel < 3 then 3 else nel) OR 1) = Some p" calloc_ok
    using assms(1) by (auto simp: hcreate_r_def Let_def split: if_splits option.splits)
  obtain h' where "hcreate_r True nel (Some h) = (Some h', Inr ())" "htab_inv h'" "htab_map h' = Map.empty"
    "unat (hsize h') = p" "max nel 3 \<le> p"
    using hcreate_r_fresh [OF p(1,2)] by blast
  with assms(1) p(3) have h1: "htab_inv h1" "htab_map h1 = Map.empty" "nel \<le> unat (hsize h1)" by auto
  then have "card (dom (map_of items ++ htab_map h1)) \<le> unat (hsize h1)"
    using assms(2) by (simp add: dom_map_of_conv_image_fst)
  with hash_table.enter_all_correct [OF h1(1)] h1(2) show ?thesis by simp
qed


text \<open>The table of an example: three slots, none of them taken.\<close>

definition sample_table :: "nat hsearch_data" where
  "sample_table = \<lparr>htable = Some (replicate (unat (3 :: uint) + 1) empty_slot), hsize = 3, filled = 0\<rparr>"

lemma isprime_3: "isprime 3"
  by (simp add: isprime_def isprime_loop.simps [of 3 3])

lemma sample_table_fresh: "htab_inv sample_table" "htab_map sample_table = Map.empty"
proof -
  have "size_ok (unat (3 :: uint))"
    using isprime_correct [of 3] isprime_3 by (simp add: size_ok_def UINT_MAX_def)
  from fresh_table [OF this] show "htab_inv sample_table" "htab_map sample_table = Map.empty"
    unfolding sample_table_def .
qed

theorem hsearch_r_refines_witness:
  "\<exists>h' idx. hsearch_r [104] 7 ENTER sample_table = Some (h', Inr idx) \<and> htab_inv h' \<and> htab_map h' = [[104] \<mapsto> 7]"
  using hsearch_r_refines [OF sample_table_fresh(1), of "[104]" 7 ENTER] sample_table_fresh(2)
  by (auto simp: sample_table_def)

theorem hcreate_r_capacity_witness:
  "\<exists>h2. enter_all hsearch_r [([104], 1), ([105], 2), ([104], 3)] sample_table = Some (h2, True) \<and> htab_inv h2 \<and>
     htab_map h2 = map_of [([104], 1), ([105], 2), ([104], 3)]"
proof -
  have "next_prime 3 = Some 3" by (subst next_prime.simps) (simp add: isprime_3 UINT_MAX_def)
  then have "hcreate_r True 2 (Some \<lparr>htable = None, hsize = 0, filled = 0\<rparr>) = (Some sample_table, Inr ())"
    by (simp add: hcreate_r_def sample_table_def Let_def flip: replicate_Suc)
  then show ?thesis by (rule hcreate_r_capacity) (simp add: card_insert_if)
qed

end
