(* ===== verification/Mpn_Limb.thy ===== *)
theory Mpn_Limb
  imports Libc_Prelude
begin

text \<open>
  Double-limb arithmetic: the portable C macros of \<^verbatim>\<open>src/original/stdlib/longlong.h\<close>.

  A limb is a 64 bit word.  The macros assign to their first two arguments; here they return the
  pair of limbs.  A division by zero is a fault, \<open>None\<close>.
\<close>

subsection \<open>The macros\<close>

type_synonym limb = "64 word"

text \<open>The base of the numbers made of limbs, and of half limbs.\<close>

definition \<beta> :: nat where
  "\<beta> = 2 ^ 64"

abbreviation (input) H :: nat where
  "H \<equiv> 2 ^ 32"

definition ll_B :: limb where
  "ll_B = push_bit 32 1"

definition ll_lowpart :: "limb \<Rightarrow> limb" where
  "ll_lowpart t = t AND (ll_B - 1)"

definition ll_highpart :: "limb \<Rightarrow> limb" where
  "ll_highpart t = drop_bit 32 t"

definition add_ssaaaa :: "limb \<Rightarrow> limb \<Rightarrow> limb \<Rightarrow> limb \<Rightarrow> limb \<times> limb" where
  "add_ssaaaa ah al bh bl = (let x = al + bl in (ah + bh + of_bool (x < al), x))"

definition sub_ddmmss :: "limb \<Rightarrow> limb \<Rightarrow> limb \<Rightarrow> limb \<Rightarrow> limb \<times> limb" where
  "sub_ddmmss ah al bh bl = (let x = al - bl in (ah - bh - of_bool (al < x), x))"

definition umul_ppmm :: "limb \<Rightarrow> limb \<Rightarrow> limb \<times> limb" where
  "umul_ppmm u v =
     (let ul = ll_lowpart u; uh = ll_highpart u; vl = ll_lowpart v; vh = ll_highpart v;
          x0 = ul * vl; x1 = ul * vh; x2 = uh * vl; x3 = uh * vh;
          x1 = x1 + ll_highpart x0;
          x1 = x1 + x2;
          x3 = (if x1 < x2 then x3 + ll_B else x3)
      in (x3 + ll_highpart x1, ll_lowpart x1 * ll_B + ll_lowpart x0))"

text \<open>
  One of the two half-limb steps of \<open>__udiv_qrnnd_c\<close>: divide \<open>r * 2\<^sup>3\<^sup>2 + n\<close> by \<open>d\<close>.
\<close>

definition udiv_half :: "limb \<Rightarrow> limb \<Rightarrow> limb \<Rightarrow> limb \<times> limb" where
  "udiv_half r n d =
     (let d1 = ll_highpart d; d0 = ll_lowpart d;
          r1 = r mod d1;
          q1 = r div d1;
          m = q1 * d0;
          r1 = r1 * ll_B OR n;
          (q1, r1) = (if r1 < m
            then let q1 = q1 - 1; r1 = r1 + d in
                 if d \<le> r1 then (if r1 < m then (q1 - 1, r1 + d) else (q1, r1)) else (q1, r1)
            else (q1, r1))
      in (q1, r1 - m))"

definition udiv_qrnnd_c :: "limb \<Rightarrow> limb \<Rightarrow> limb \<Rightarrow> (limb \<times> limb) option" where
  "udiv_qrnnd_c n1 n0 d =
     (if ll_highpart d = 0 then None
      else let (q1, r1) = udiv_half n1 (ll_highpart n0) d;
               (q0, r0) = udiv_half r1 (ll_lowpart n0) d
           in Some (q1 * ll_B OR q0, r0))"

subsection \<open>Words as numbers\<close>

lemma limb_bound [simp]: "unat (x :: limb) < \<beta>"
  using unsigned_less [of x, where ?'a = nat] by (simp add: \<beta>_def)

lemma beta_pos [simp]: "0 < \<beta>" "1 < \<beta>" "\<beta> \<noteq> 0"
  by (simp_all add: \<beta>_def)

lemma beta_H: "\<beta> = H * H"
  by (simp add: \<beta>_def)

lemma unat_of_bool [simp]: "unat (of_bool b :: limb) = of_bool b"
  by (cases b) simp_all

lemma unat_lowpart: "unat (ll_lowpart t) = unat t mod H"
proof -
  have "ll_B - 1 = mask 32" by (simp add: ll_B_def mask_eq_exp_minus_1)
  then have "ll_lowpart t = take_bit 32 t" by (simp add: ll_lowpart_def take_bit_eq_mask)
  then show ?thesis by (simp add: take_bit_eq_mod unat_mod_distrib)
qed

lemma unat_highpart: "unat (ll_highpart t) = unat t div H"
  by (simp add: ll_highpart_def drop_bit_eq_div unat_div_distrib)

lemma unat_ll_B [simp]: "unat ll_B = H"
  by (simp add: ll_B_def)

lemma unat_lowpart_less [simplified, simp]: "unat (ll_lowpart t) < H"
  by (simp add: unat_lowpart)

lemma unat_highpart_less [simplified, simp]: "unat (ll_highpart t) < H"
  using limb_bound [of t] by (simp add: unat_highpart less_mult_imp_div_less \<beta>_def)

lemma unat_parts: "unat t = unat (ll_highpart t) * H + unat (ll_lowpart t)"
  by (simp add: unat_lowpart unat_highpart)

lemma unat_add: "unat x + unat y < \<beta> \<Longrightarrow> unat (x + y :: limb) = unat x + unat y"
  by (simp add: unat_word_ariths \<beta>_def)

lemma unat_mult: "unat x * unat y < \<beta> \<Longrightarrow> unat (x * y :: limb) = unat x * unat y"
  by (simp add: unat_word_ariths \<beta>_def)

text \<open>Carry of an addition and borrow of a subtraction, as the code tests them.\<close>

lemma add_carry: "unat (x + y) + \<beta> * of_bool (x + y < x) = unat x + unat (y :: limb)"
proof (cases "unat x + unat y < \<beta>")
  case True
  then show ?thesis by (simp add: word_less_nat_alt unat_add)
next
  case False
  then have "unat (x + y) = unat x + unat y - \<beta>"
    using limb_bound [of x] limb_bound [of y] by (simp add: unat_word_ariths mod_if \<beta>_def)
  moreover from this have "x + y < x" unfolding word_less_nat_alt using False limb_bound [of y] by linarith
  ultimately show ?thesis using False by simp
qed

lemma add_carry': "unat (x + y) + \<beta> * of_bool (x + y < y) = unat x + unat (y :: limb)"
  using add_carry [of y x] by (simp add: add.commute)

lemma sub_borrow: "unat (x - y) + unat y = unat x + \<beta> * of_bool (x < x - y)" for x y :: limb
proof (cases "y \<le> x")
  case True
  then show ?thesis by (simp add: unat_sub word_less_nat_alt word_le_nat_alt)
next
  case False
  then have lt: "unat x < unat y" by (simp add: word_le_nat_alt)
  have "unat (x - y) = unat x + \<beta> - unat y"
    using lt limb_bound [of x] limb_bound [of y] by (simp add: unat_sub_if' \<beta>_def)
  moreover from this have "x < x - y" unfolding word_less_nat_alt using lt limb_bound [of y] by linarith
  moreover have "unat y \<le> unat x + \<beta>" using limb_bound [of y] by linarith
  ultimately show ?thesis by simp
qed

lemma unat_or_disjoint:
  fixes x y :: limb
  assumes "x AND y = 0"
  shows "unat (x OR y) = unat x + unat y"
proof -
  have "unat x AND unat y = 0" using assms by (metis unsigned_and_eq unsigned_0)
  then show ?thesis by (simp add: unsigned_or_eq disjunctive_add_eq_or)
qed

lemma unat_push_bit: "unat (push_bit c x :: limb) = 2 ^ c * unat x mod \<beta>"
  by (subst unsigned_push_bit_eq) (simp add: take_bit_eq_mod push_bit_eq_mult \<beta>_def mult.commute)

lemma unat_drop_bit: "unat (drop_bit c x :: limb) = unat x div 2 ^ c"
  using limb_bound [of x] by (subst unsigned_drop_bit_eq) (simp add: drop_bit_eq_div take_bit_nat_eq_self \<beta>_def)

lemma beta_split: "c \<le> 64 \<Longrightarrow> \<beta> = 2 ^ c * 2 ^ (64 - c)"
  unfolding \<beta>_def by (subst power_add [symmetric]) simp

lemma shift_split: "c \<le> 64 \<Longrightarrow> unat (push_bit c x) + \<beta> * unat (drop_bit (64 - c) x :: limb) = 2 ^ c * unat x"
proof -
  assume c: "c \<le> 64"
  have "2 ^ c * unat x div \<beta> = unat x div 2 ^ (64 - c)" unfolding beta_split [OF c] by simp
  then show ?thesis unfolding unat_push_bit unat_drop_bit by (metis mod_mult_div_eq)
qed

lemma unat_push_high: "c \<le> 64 \<Longrightarrow> unat (push_bit (64 - c) x :: limb) = 2 ^ (64 - c) * (unat x mod 2 ^ c)"
proof -
  assume c: "c \<le> 64"
  show ?thesis unfolding unat_push_bit beta_split [OF c] by (simp only: mult.commute [of "2 ^ c"] mult_mod_right)
qed

lemma unat_funnel: "0 < c \<Longrightarrow> c < 64 \<Longrightarrow>
  unat (push_bit c x OR drop_bit (64 - c) y) = unat (push_bit c x) + unat (drop_bit (64 - c) y :: limb)"
  by (rule unat_or_disjoint) (auto simp: bit_eq_iff bit_simps dest: bit_imp_le_length)

lemma unat_or_shift:
  fixes a b :: limb
  assumes "unat a < H" "unat b < H"
  shows "unat (a * ll_B OR b) = unat a * H + unat b"
proof -
  have a: "a * ll_B = push_bit 32 a" by (simp add: ll_B_def push_bit_eq_mult)
  have "b = take_bit 32 b" using assms(2) by (simp add: word_unat_eq_iff take_bit_eq_mod unat_mod_distrib)
  then have "push_bit 32 a AND b = 0" by (simp add: bit_eq_iff bit_simps) (metis bit_take_bit_iff not_le)
  then have "a * ll_B OR b = a * ll_B + b" unfolding a by (simp add: disjunctive_add_eq_or)
  moreover have "unat (a * ll_B) = unat a * H" using assms(1) by (subst unat_mult) (simp_all add: \<beta>_def)
  ultimately show ?thesis using assms by (simp add: unat_add \<beta>_def)
qed

subsection \<open>Correctness\<close>

lemma half_products:
  fixes a b :: nat
  assumes "a < H" "b < H"
  shows "a * b \<le> (H - 1) * (H - 1)"
  using assms by (intro mult_le_mono) auto

lemma half_mult: "unat x < H \<Longrightarrow> unat y < H \<Longrightarrow> unat (x * y :: limb) = unat x * unat y"
  using half_products [of "unat x" "unat y"] by (intro unat_mult) (simp add: \<beta>_def)

lemma umul_ppmm_correct:
  assumes "umul_ppmm u v = (w1, w0)"
  shows "unat w1 * \<beta> + unat w0 = unat u * unat v"
proof -
  define ul uh vl vh where parts: "ul = ll_lowpart u" "uh = ll_highpart u" "vl = ll_lowpart v" "vh = ll_highpart v"
  define a b c d where nums: "a = unat ul" "b = unat uh" "c = unat vl" "d = unat vh"
  have lt: "a < H" "b < H" "c < H" "d < H" by (simp_all add: parts nums)
  have u: "unat u = b * H + a" "unat v = d * H + c" using unat_parts [of u] unat_parts [of v] by (simp_all only: parts nums)
  define x0 x1 x2 x3 where x: "x0 = ul * vl" "x1 = ul * vh + ll_highpart x0" "x2 = uh * vl" "x3 = uh * vh"
  have x0: "unat x0 = a * c" "unat x2 = b * c" "unat x3 = b * d" "unat (ul * vh) = a * d"
    using lt by (simp_all add: x nums half_mult)
  note le = half_products [OF lt(1,3)] half_products [OF lt(1,4)] half_products [OF lt(2,3)] half_products [OF lt(2,4)]
  have hi: "unat (ll_highpart x0) = a * c div H" by (simp add: unat_highpart x0)
  have "a * c div H < H" using le(1) by (simp add: less_mult_imp_div_less)
  then have x1: "unat x1 = a * d + a * c div H"
    unfolding x(2) using le(2) by (subst unat_add) (simp_all add: x0 hi \<beta>_def)
  define y carry where y: "y = x1 + x2" "carry = (y < x2)"
  have y': "unat y + \<beta> * of_bool carry = a * d + a * c div H + b * c"
    using add_carry' [of x1 x2] by (simp add: y x1 x0)
  define z where "z = (if carry then x3 + ll_B else x3)"
  have z: "unat z = b * d + H * of_bool carry"
    using le(4) by (auto simp: z_def x0 unat_add \<beta>_def)
  have w: "w1 = z + ll_highpart y" "w0 = ll_lowpart y * ll_B + ll_lowpart x0"
    using assms by (auto simp: umul_ppmm_def Let_def parts [symmetric] x y z_def)
  have ylo: "unat y = unat y div H * H + unat y mod H" by simp
  have aclo: "a * c = a * c div H * H + a * c mod H" by simp
  have w0: "unat w0 = unat y mod H * H + a * c mod H"
  proof -
    have "unat y mod H < H" "a * c mod H < H" by simp_all
    moreover have "unat y mod H * H < \<beta>" by (simp add: \<beta>_def)
    ultimately show ?thesis unfolding w by (subst unat_add) (simp_all add: unat_mult unat_lowpart x0 \<beta>_def)
  qed
  have total: "(b * d + H * of_bool carry + unat y div H) * \<beta> + (unat y mod H * H + a * c mod H) = unat u * unat v"
  proof -
    have "unat u * unat v = b * d * (H * H) + (a * d + b * c) * H + a * c" unfolding u by (simp add: algebra_simps)
    also have "\<dots> = b * d * (H * H) + (unat y + \<beta> * of_bool carry) * H + a * c mod H"
      unfolding y' by (subst aclo) (simp add: algebra_simps)
    also have "\<dots> = (b * d + H * of_bool carry + unat y div H) * \<beta> + (unat y mod H * H + a * c mod H)"
      unfolding beta_H by (subst ylo) (simp only: distrib_right distrib_left ac_simps)
    finally show ?thesis by simp
  qed
  have "unat u * unat v < \<beta> * \<beta>" using limb_bound [of u] limb_bound [of v] by (intro mult_strict_mono) auto
  then have "(b * d + H * of_bool carry + unat y div H) * \<beta> < \<beta> * \<beta>" using total by linarith
  then have "b * d + H * of_bool carry + unat y div H < \<beta>" by simp
  then have "unat w1 = b * d + H * of_bool carry + unat y div H"
    unfolding w by (subst unat_add) (simp_all add: z unat_highpart)
  with w0 total show ?thesis by simp
qed

text \<open>
  The estimate of a half-limb quotient digit is at most two too large, and every intermediate
  value fits a limb or its overflow is noticed.
\<close>

lemma half_step:
  fixes r n d d1 d0 :: nat
  assumes d: "d = d1 * H + d0" "d0 < H" "\<beta> \<le> 2 * d" and r: "r < d" and n: "n < H" "d < \<beta>"
  defines "q \<equiv> r div d1" and "r1 \<equiv> r mod d1 * H + n"
  defines "m \<equiv> q * d0"
  shows "r * H + n + m = q * d + r1" "r1 < d" "m < \<beta>" "m \<le> r1 + 2 * d" "r1 + d < m \<Longrightarrow> 2 \<le> q" "r1 < m \<Longrightarrow> 1 \<le> q"
proof -
  have d1: "H \<le> 2 * d1" using d by (simp add: \<beta>_def)
  have "r mod d1 < d1" using d1 by (intro mod_less_divisor) simp
  then have "r mod d1 * H + H \<le> d1 * H" by simp
  then show r1: "r1 < d" using d n unfolding r1_def by linarith
  have "r = q * d1 + r mod d1" by (simp add: q_def)
  then have "r * H + n = q * d1 * H + r1" unfolding r1_def by (metis add.assoc distrib_right)
  then show eq: "r * H + n + m = q * d + r1" unfolding d m_def by (simp add: algebra_simps)
  have "r < (H + 2) * d1" using r d d1 by simp
  then have "q < H + 2" unfolding q_def by (intro less_mult_imp_div_less) simp
  then have "m \<le> (H + 1) * (H - 1)" unfolding m_def using d(2) by (intro mult_le_mono) auto
  then show m: "m < \<beta>" by (simp add: \<beta>_def)
  then show "m \<le> r1 + 2 * d" using d by linarith
  show "1 \<le> q" if "r1 < m"
    using that by (cases q) (auto simp: m_def)
  show "2 \<le> q" if "r1 + d < m"
  proof (rule ccontr)
    assume "\<not> 2 \<le> q"
    then have "m \<le> d0" unfolding m_def by (cases q) auto
    moreover have "d0 \<le> d" using d(1) by simp
    ultimately show False using that by simp
  qed
qed

lemma udiv_half_correct:
  assumes "udiv_half r n d = (q, r')" and "r < d" "unat n < H" "\<beta> \<le> 2 * unat d"
  shows "unat q * unat d + unat r' = unat r * H + unat n" "r' < d"
proof -
  define d1 d0 where parts: "d1 = ll_highpart d" "d0 = ll_lowpart d"
  define q0 r1 m where q0: "q0 = r div d1" "r1 = r mod d1 * ll_B OR n" "m = q0 * d0"
  have d: "unat d = unat d1 * H + unat d0" "unat d0 < H" using unat_parts [of d] by (simp_all only: parts) simp
  have rd: "unat r < unat d" using assms(2) by (simp add: word_less_nat_alt)
  note st = half_step [OF d assms(4) rd assms(3) limb_bound]
  have q0n: "unat q0 = unat r div unat d1" by (simp add: q0 unat_div_distrib)
  have mn: "unat m = unat q0 * unat d0"
    unfolding q0(3) using st(3) by (intro unat_mult) (simp add: q0n)
  have "unat d1 \<noteq> 0" using d assms(4) by (auto simp: \<beta>_def)
  then have "unat (r mod d1) < unat d1" by (simp add: unat_mod_distrib)
  from less_trans [OF this, of H] have "unat (r mod d1) < H" by (simp add: parts)
  then have r1n: "unat r1 = unat r mod unat d1 * H + unat n"
    unfolding q0(2) using assms(3) by (subst unat_or_shift) (simp_all add: unat_mod_distrib)
  have eq: "unat r * H + unat n + unat m = unat q0 * unat d + unat r1" and r1: "unat r1 < unat d"
    and m: "unat m \<le> unat r1 + 2 * unat d" and q2: "unat r1 + unat d < unat m \<Longrightarrow> 2 \<le> unat q0"
    and q1: "unat r1 < unat m \<Longrightarrow> 1 \<le> unat q0"
    using st by (simp_all only: q0n [symmetric] r1n [symmetric] mn [symmetric])
  have res: "(q, r') = (if r1 < m then
      (if d \<le> r1 + d then (if r1 + d < m then (q0 - 1 - 1, r1 + d + d - m) else (q0 - 1, r1 + d - m)) else (q0 - 1, r1 + d - m))
      else (q0, r1 - m))"
    using assms(1) by (auto simp: udiv_half_def Let_def q0 parts split: if_splits prod.splits)
  have sub: "unat (x - m) = unat x + k * \<beta> - unat m"
    if "unat m \<le> unat x + k * \<beta>" "unat x + k * \<beta> < unat m + \<beta>" "k \<le> 1" for x k
    using that sub_borrow [of x m] limb_bound [of "x - m"] by (cases k; cases "x < x - m") auto
  consider (exact) "unat m \<le> unat r1" | (one) "unat r1 < unat m" "unat m \<le> unat r1 + unat d"
    | (two) "unat r1 + unat d < unat m" by linarith
  then have "unat q * unat d + unat r' = unat r * H + unat n \<and> unat r' < unat d"
  proof cases
    case exact
    then have "q = q0" "unat r' = unat r1 - unat m"
      using res by (auto simp: word_less_nat_alt unat_sub word_le_nat_alt)
    with exact eq r1 show ?thesis by (intro conjI; simp; linarith)
  next
    case one
    obtain k where k: "k \<le> 1" "unat (r1 + d) + k * \<beta> = unat r1 + unat d" "r1 + d < d \<longleftrightarrow> k = 1"
      using add_carry' [of r1 d] by (cases "r1 + d < d") (auto intro: that [of 0] that [of 1])
    have "\<not> r1 + d < m" if "d \<le> r1 + d"
      using that k one by (cases k) (auto simp: word_less_nat_alt word_le_nat_alt)
    then have q: "q = q0 - 1" "r' = r1 + d - m" using res one by (auto simp: word_less_nat_alt split: if_splits)
    have "unat r' = unat r1 + unat d - unat m"
      unfolding q using sub [of "r1 + d" k] k one r1 limb_bound [of d] by auto
    moreover have "unat q = unat q0 - 1" unfolding q using q1 [OF one(1)] by (simp add: unat_sub word_le_nat_alt)
    ultimately show ?thesis using eq one q1 [OF one(1)] by (intro conjI; simp add: diff_mult_distrib; linarith)
  next
    case two
    then have lt: "unat r1 + unat d < \<beta>" using limb_bound [of m] by linarith
    then have rd1: "unat (r1 + d) = unat r1 + unat d" by (rule unat_add)
    obtain k where k: "k \<le> 1" "unat (r1 + d + d) + k * \<beta> = unat r1 + unat d + unat d"
      using add_carry' [of "r1 + d" d] rd1 by (cases "r1 + d + d < d") (auto intro: that [of 0] that [of 1])
    have q: "q = q0 - 1 - 1" "r' = r1 + d + d - m" using res two rd1 by (auto simp: word_less_nat_alt word_le_nat_alt split: if_splits)
    have "unat r' = unat r1 + unat d + unat d - unat m"
      unfolding q(2) k(2) [symmetric] using k m two limb_bound [of d] by (intro sub) linarith+
    moreover have "unat q = unat q0 - 2"
    proof -
      have "unat (q0 - 1) = unat q0 - 1" using q2 [OF two] by (simp add: unat_sub word_le_nat_alt)
      with q2 [OF two] show ?thesis unfolding q by (simp add: unat_sub word_le_nat_alt)
    qed
    ultimately show ?thesis using eq m two q2 [OF two] mult_le_mono1 [OF q2 [OF two], of "unat d"]
      by (intro conjI; simp add: diff_mult_distrib; linarith)
  qed
  then show "unat q * unat d + unat r' = unat r * H + unat n" "r' < d" by (simp_all add: word_less_nat_alt)
qed

lemma udiv_qrnnd_c_correct:
  assumes "n1 < d" "\<beta> \<le> 2 * unat d"
  obtains q r where "udiv_qrnnd_c n1 n0 d = Some (q, r)" "unat q * unat d + unat r = unat n1 * \<beta> + unat n0" "r < d"
proof -
  obtain q1 r1 where h1: "udiv_half n1 (ll_highpart n0) d = (q1, r1)" by force
  obtain q0 r0 where h0: "udiv_half r1 (ll_lowpart n0) d = (q0, r0)" by force
  note c1 = udiv_half_correct [OF h1 assms(1) _ assms(2), simplified]
  note c0 = udiv_half_correct [OF h0 c1(2) _ assms(2), simplified]
  have "unat (ll_highpart d) \<noteq> 0" 
  proof
    assume "unat (ll_highpart d) = 0"
    then have "unat d < H" using unat_parts [of d] unat_lowpart_less [of d] by simp
    with assms(2) show False by (simp add: \<beta>_def)
  qed
  then have "ll_highpart d \<noteq> 0" by auto
  then have res: "udiv_qrnnd_c n1 n0 d = Some (q1 * ll_B OR q0, r0)" by (simp add: udiv_qrnnd_c_def h1 h0)
  have digit: "unat q < H" if "unat q * unat d + unat r' = unat r * H + unat n" "r < d" "unat n < H" for q r r' n :: limb
  proof -
    have "unat r + 1 \<le> unat d" using that(2) by (simp add: word_less_nat_alt)
    then have "(unat r + 1) * H \<le> unat d * H" by (rule mult_le_mono1)
    then have "unat q * unat d < H * unat d" using that(1,3) by (simp only: distrib_right mult.commute)
    then show ?thesis by (simp only: mult_less_cancel2)
  qed
  have "unat (q1 * ll_B OR q0) = unat q1 * H + unat q0"
    using digit [OF _ assms(1)] digit [OF _ c1(2)] c1(1) c0(1) by (intro unat_or_shift) simp_all
  moreover have "unat n1 * \<beta> + unat n0 = (unat n1 * H + unat (ll_highpart n0)) * H + unat (ll_lowpart n0)"
    using unat_parts [of n0] by (simp add: beta_H algebra_simps)
  ultimately show ?thesis using that [OF res _ c0(2)] c1(1) c0(1) by (simp add: algebra_simps)
qed

subsection \<open>Properties\<close>

text \<open>
  C29: the portable double-limb division is exact and its intermediate results stay in range.
  For a divisor with its highest bit set and a high limb below the divisor, \<open>__udiv_qrnnd_c\<close>
  gives the quotient and the remainder of the two-limb number, although it computes with half
  limbs and detects overflow only by comparison.
\<close>

theorem udiv_qrnnd_c_exact:
  assumes "n1 < d" "2 ^ 63 \<le> d"
  shows "\<exists>q r. udiv_qrnnd_c n1 n0 d = Some (q, r) \<and>
    unat q = (unat n1 * \<beta> + unat n0) div unat d \<and> unat r = (unat n1 * \<beta> + unat n0) mod unat d"
proof -
  have "\<beta> \<le> 2 * unat d" using assms(2) by (simp add: word_le_nat_alt \<beta>_def)
  from udiv_qrnnd_c_correct [OF assms(1) this, of n0] obtain q r where
    qr: "udiv_qrnnd_c n1 n0 d = Some (q, r)" "unat q * unat d + unat r = unat n1 * \<beta> + unat n0" "r < d" by blast
  have "unat r < unat d" using qr(3) by (simp add: word_less_nat_alt)
  then show ?thesis using qr(1) unfolding qr(2) [symmetric] by simp
qed

theorem udiv_qrnnd_c_witness:
  "\<exists>q r. udiv_qrnnd_c 5 7 (2 ^ 63) = Some (q, r) \<and>
     unat q = (unat (5 :: limb) * \<beta> + unat (7 :: limb)) div unat (2 ^ 63 :: limb) \<and>
     unat r = (unat (5 :: limb) * \<beta> + unat (7 :: limb)) mod unat (2 ^ 63 :: limb)"
  by (rule udiv_qrnnd_c_exact) simp_all

end
