(* ===== verification/Mpn.thy ===== *)
theory Mpn
  imports Mpn_Limb
begin

text \<open>
  Arithmetic on arrays of limbs: \<open>mpn_add_n\<close>, \<open>mpn_sub_n\<close>, \<open>mpn_mul_1\<close>, \<open>mpn_addmul_1\<close>,
  \<open>mpn_submul_1\<close>, \<open>mpn_lshift\<close>, \<open>mpn_rshift\<close> and \<open>mpn_cmp\<close> of \<^verbatim>\<open>src/original/stdlib\<close>, the copying
  macros of \<^verbatim>\<open>gmp-impl.h\<close> and the inline functions of \<^verbatim>\<open>gmp.h\<close>.

  The operands of these routines may overlap, and callers rely on it.  So all limbs are cells of
  one memory, a list, and every pointer is an index into it.  A routine returns the new memory
  together with its return value.
\<close>

subsection \<open>The routines\<close>

type_synonym mem = "limb list"

text \<open>
  The loops of these routines: \<open>do body while (++j != 0)\<close>, where \<open>j\<close> runs from \<open>-size\<close> and the
  pointers are moved by \<open>size\<close>.  Here \<open>i = size + j\<close>.  A loop for \<open>size = 0\<close> would run on.
\<close>

partial_function (option) do_limbs ::
  "(nat \<Rightarrow> limb \<Rightarrow> mem \<Rightarrow> (mem \<times> limb) option) \<Rightarrow> nat \<Rightarrow> nat \<Rightarrow> limb \<Rightarrow> mem \<Rightarrow> (mem \<times> limb) option" where
  "do_limbs body sz i cy m =
     do { (m, cy) \<leftarrow> body i cy m;
          if i + 1 = sz then Some (m, cy) else do_limbs body sz (i + 1) cy m }"

declare do_limbs.simps [code]

definition add_n_body :: "nat \<Rightarrow> nat \<Rightarrow> nat \<Rightarrow> nat \<Rightarrow> limb \<Rightarrow> mem \<Rightarrow> (mem \<times> limb) option" where
  "add_n_body res_ptr s1_ptr s2_ptr j cy m =
     do { y \<leftarrow> rd m (s2_ptr + j);
          x \<leftarrow> rd m (s1_ptr + j);
          let y = y + cy;
          let cy = of_bool (y < cy);
          let y = x + y;
          let cy = of_bool (y < x) + cy;
          m \<leftarrow> wr m (res_ptr + j) y;
          Some (m, cy) }"

definition mpn_add_n :: "nat \<Rightarrow> nat \<Rightarrow> nat \<Rightarrow> nat \<Rightarrow> mem \<Rightarrow> (mem \<times> limb) option" where
  "mpn_add_n res_ptr s1_ptr s2_ptr sz m = do_limbs (add_n_body res_ptr s1_ptr s2_ptr) sz 0 0 m"

definition sub_n_body :: "nat \<Rightarrow> nat \<Rightarrow> nat \<Rightarrow> nat \<Rightarrow> limb \<Rightarrow> mem \<Rightarrow> (mem \<times> limb) option" where
  "sub_n_body res_ptr s1_ptr s2_ptr j cy m =
     do { y \<leftarrow> rd m (s2_ptr + j);
          x \<leftarrow> rd m (s1_ptr + j);
          let y = y + cy;
          let cy = of_bool (y < cy);
          let y = x - y;
          let cy = of_bool (x < y) + cy;
          m \<leftarrow> wr m (res_ptr + j) y;
          Some (m, cy) }"

definition mpn_sub_n :: "nat \<Rightarrow> nat \<Rightarrow> nat \<Rightarrow> nat \<Rightarrow> mem \<Rightarrow> (mem \<times> limb) option" where
  "mpn_sub_n res_ptr s1_ptr s2_ptr sz m = do_limbs (sub_n_body res_ptr s1_ptr s2_ptr) sz 0 0 m"

definition mul_1_body :: "nat \<Rightarrow> nat \<Rightarrow> limb \<Rightarrow> nat \<Rightarrow> limb \<Rightarrow> mem \<Rightarrow> (mem \<times> limb) option" where
  "mul_1_body res_ptr s1_ptr s2_limb j cy_limb m =
     do { x \<leftarrow> rd m (s1_ptr + j);
          let (prod_high, prod_low) = umul_ppmm x s2_limb;
          let prod_low = prod_low + cy_limb;
          let cy_limb = of_bool (prod_low < cy_limb) + prod_high;
          m \<leftarrow> wr m (res_ptr + j) prod_low;
          Some (m, cy_limb) }"

definition mpn_mul_1 :: "nat \<Rightarrow> nat \<Rightarrow> nat \<Rightarrow> limb \<Rightarrow> mem \<Rightarrow> (mem \<times> limb) option" where
  "mpn_mul_1 res_ptr s1_ptr s1_size s2_limb m = do_limbs (mul_1_body res_ptr s1_ptr s2_limb) s1_size 0 0 m"

definition addmul_1_body :: "nat \<Rightarrow> nat \<Rightarrow> limb \<Rightarrow> nat \<Rightarrow> limb \<Rightarrow> mem \<Rightarrow> (mem \<times> limb) option" where
  "addmul_1_body res_ptr s1_ptr s2_limb j cy_limb m =
     do { s \<leftarrow> rd m (s1_ptr + j);
          let (prod_high, prod_low) = umul_ppmm s s2_limb;
          let prod_low = prod_low + cy_limb;
          let cy_limb = of_bool (prod_low < cy_limb) + prod_high;
          x \<leftarrow> rd m (res_ptr + j);
          let prod_low = x + prod_low;
          let cy_limb = cy_limb + of_bool (prod_low < x);
          m \<leftarrow> wr m (res_ptr + j) prod_low;
          Some (m, cy_limb) }"

definition mpn_addmul_1 :: "nat \<Rightarrow> nat \<Rightarrow> nat \<Rightarrow> limb \<Rightarrow> mem \<Rightarrow> (mem \<times> limb) option" where
  "mpn_addmul_1 res_ptr s1_ptr s1_size s2_limb m = do_limbs (addmul_1_body res_ptr s1_ptr s2_limb) s1_size 0 0 m"

definition submul_1_body :: "nat \<Rightarrow> nat \<Rightarrow> limb \<Rightarrow> nat \<Rightarrow> limb \<Rightarrow> mem \<Rightarrow> (mem \<times> limb) option" where
  "submul_1_body res_ptr s1_ptr s2_limb j cy_limb m =
     do { s \<leftarrow> rd m (s1_ptr + j);
          let (prod_high, prod_low) = umul_ppmm s s2_limb;
          let prod_low = prod_low + cy_limb;
          let cy_limb = of_bool (prod_low < cy_limb) + prod_high;
          x \<leftarrow> rd m (res_ptr + j);
          let prod_low = x - prod_low;
          let cy_limb = cy_limb + of_bool (x < prod_low);
          m \<leftarrow> wr m (res_ptr + j) prod_low;
          Some (m, cy_limb) }"

definition mpn_submul_1 :: "nat \<Rightarrow> nat \<Rightarrow> nat \<Rightarrow> limb \<Rightarrow> mem \<Rightarrow> (mem \<times> limb) option" where
  "mpn_submul_1 res_ptr s1_ptr s1_size s2_limb m = do_limbs (submul_1_body res_ptr s1_ptr s2_limb) s1_size 0 0 m"

text \<open>The copying loops; the number of limbs still to be copied counts down.\<close>

fun MPN_COPY_INCR :: "nat \<Rightarrow> nat \<Rightarrow> nat \<Rightarrow> mem \<Rightarrow> mem option" where
  "MPN_COPY_INCR dst src 0 m = Some m"
| "MPN_COPY_INCR dst src (Suc n) m =
     do { x \<leftarrow> rd m src; m \<leftarrow> wr m dst x; MPN_COPY_INCR (dst + 1) (src + 1) n m }"

fun MPN_COPY_DECR :: "nat \<Rightarrow> nat \<Rightarrow> nat \<Rightarrow> mem \<Rightarrow> mem option" where
  "MPN_COPY_DECR dst src 0 m = Some m"
| "MPN_COPY_DECR dst src (Suc n) m =
     do { x \<leftarrow> rd m (src + n); m \<leftarrow> wr m (dst + n) x; MPN_COPY_DECR dst src n m }"

fun MPN_ZERO :: "nat \<Rightarrow> nat \<Rightarrow> mem \<Rightarrow> mem option" where
  "MPN_ZERO dst 0 m = Some m"
| "MPN_ZERO dst (Suc n) m = do { m \<leftarrow> wr m dst 0; MPN_ZERO (dst + 1) n m }"

fun mpn_cmp :: "nat \<Rightarrow> nat \<Rightarrow> nat \<Rightarrow> mem \<Rightarrow> int option" where
  "mpn_cmp op1_ptr op2_ptr 0 m = Some 0"
| "mpn_cmp op1_ptr op2_ptr (Suc i) m =
     do { op1_word \<leftarrow> rd m (op1_ptr + i);
          op2_word \<leftarrow> rd m (op2_ptr + i);
          if op1_word \<noteq> op2_word then Some (if op2_word < op1_word then 1 else - 1)
          else mpn_cmp op1_ptr op2_ptr i m }"

text \<open>
  The propagation of the carry in \<open>mpn_add_1\<close>.  \<open>Inl\<close> is the return at the end of the limbs,
  \<open>Inr s1_size\<close> the jump to \<open>fin\<close> with the limbs that are left.
\<close>

partial_function (option) add_1_loop :: "nat \<Rightarrow> nat \<Rightarrow> nat \<Rightarrow> mem \<Rightarrow> (mem \<times> (unit + nat \<times> nat \<times> nat)) option" where
  "add_1_loop res_ptr s1_ptr s1_size m =
     (if s1_size = 1 then Some (m, Inl ())
      else do { x \<leftarrow> rd m s1_ptr;
                let x = x + 1;
                m \<leftarrow> wr m res_ptr x;
                if x \<noteq> 0 then Some (m, Inr (res_ptr + 1, s1_ptr + 1, s1_size - 1))
                else add_1_loop (res_ptr + 1) (s1_ptr + 1) (s1_size - 1) m })"

declare add_1_loop.simps [code]

text \<open>The common end of \<open>mpn_add_1\<close> and \<open>mpn_sub_1\<close>, at the label \<open>fin\<close>.\<close>

definition copy_fin :: "nat \<Rightarrow> nat \<Rightarrow> nat \<Rightarrow> mem \<Rightarrow> (mem \<times> limb) option" where
  "copy_fin res_ptr s1_ptr s1_size m =
     do { m \<leftarrow> (if res_ptr \<noteq> s1_ptr then MPN_COPY_INCR res_ptr s1_ptr (s1_size - 1) m else Some m);
          Some (m, 0) }"

definition mpn_add_1 :: "nat \<Rightarrow> nat \<Rightarrow> nat \<Rightarrow> limb \<Rightarrow> mem \<Rightarrow> (mem \<times> limb) option" where
  "mpn_add_1 res_ptr s1_ptr s1_size s2_limb m =
     do { x \<leftarrow> rd m s1_ptr;
          let s2_limb = x + s2_limb;
          m \<leftarrow> wr m res_ptr s2_limb;
          if s2_limb < x then
            do { (m, r) \<leftarrow> add_1_loop (res_ptr + 1) (s1_ptr + 1) s1_size m;
                 case r of Inl _ \<Rightarrow> Some (m, 1) | Inr (res_ptr, s1_ptr, s1_size) \<Rightarrow> copy_fin res_ptr s1_ptr s1_size m }
          else copy_fin (res_ptr + 1) (s1_ptr + 1) s1_size m }"

definition mpn_add :: "nat \<Rightarrow> nat \<Rightarrow> nat \<Rightarrow> nat \<Rightarrow> nat \<Rightarrow> mem \<Rightarrow> (mem \<times> limb) option" where
  "mpn_add res_ptr s1_ptr s1_size s2_ptr s2_size m =
     do { (m, cy_limb) \<leftarrow> (if s2_size \<noteq> 0 then mpn_add_n res_ptr s1_ptr s2_ptr s2_size m else Some (m, 0));
          if s1_size \<noteq> s2_size
          then mpn_add_1 (res_ptr + s2_size) (s1_ptr + s2_size) (s1_size - s2_size) cy_limb m
          else Some (m, cy_limb) }"

partial_function (option) sub_1_loop :: "nat \<Rightarrow> nat \<Rightarrow> nat \<Rightarrow> mem \<Rightarrow> (mem \<times> (unit + nat \<times> nat \<times> nat)) option" where
  "sub_1_loop res_ptr s1_ptr s1_size m =
     (if s1_size = 1 then Some (m, Inl ())
      else do { x \<leftarrow> rd m s1_ptr;
                m \<leftarrow> wr m res_ptr (x - 1);
                if x \<noteq> 0 then Some (m, Inr (res_ptr + 1, s1_ptr + 1, s1_size - 1))
                else sub_1_loop (res_ptr + 1) (s1_ptr + 1) (s1_size - 1) m })"

declare sub_1_loop.simps [code]

definition mpn_sub_1 :: "nat \<Rightarrow> nat \<Rightarrow> nat \<Rightarrow> limb \<Rightarrow> mem \<Rightarrow> (mem \<times> limb) option" where
  "mpn_sub_1 res_ptr s1_ptr s1_size s2_limb m =
     do { x \<leftarrow> rd m s1_ptr;
          let s2_limb = x - s2_limb;
          m \<leftarrow> wr m res_ptr s2_limb;
          if x < s2_limb then
            do { (m, r) \<leftarrow> sub_1_loop (res_ptr + 1) (s1_ptr + 1) s1_size m;
                 case r of Inl _ \<Rightarrow> Some (m, 1) | Inr (res_ptr, s1_ptr, s1_size) \<Rightarrow> copy_fin res_ptr s1_ptr s1_size m }
          else copy_fin (res_ptr + 1) (s1_ptr + 1) s1_size m }"

definition mpn_sub :: "nat \<Rightarrow> nat \<Rightarrow> nat \<Rightarrow> nat \<Rightarrow> nat \<Rightarrow> mem \<Rightarrow> (mem \<times> limb) option" where
  "mpn_sub res_ptr s1_ptr s1_size s2_ptr s2_size m =
     do { (m, cy_limb) \<leftarrow> (if s2_size \<noteq> 0 then mpn_sub_n res_ptr s1_ptr s2_ptr s2_size m else Some (m, 0));
          if s1_size \<noteq> s2_size
          then mpn_sub_1 (res_ptr + s2_size) (s1_ptr + s2_size) (s1_size - s2_size) cy_limb m
          else Some (m, cy_limb) }"

fun lshift_loop :: "nat \<Rightarrow> nat \<Rightarrow> nat \<Rightarrow> nat \<Rightarrow> limb \<Rightarrow> nat \<Rightarrow> mem \<Rightarrow> mem option" where
  "lshift_loop wp up sh_1 sh_2 high_limb 0 m = wr m wp (push_bit sh_1 high_limb)"
| "lshift_loop wp up sh_1 sh_2 high_limb (Suc i) m =
     do { low_limb \<leftarrow> rd m (up + i);
          m \<leftarrow> wr m (wp + 1 + i) (push_bit sh_1 high_limb OR drop_bit sh_2 low_limb);
          lshift_loop wp up sh_1 sh_2 low_limb i m }"

text \<open>An empty operand would be read at index -1.\<close>

definition mpn_lshift :: "nat \<Rightarrow> nat \<Rightarrow> nat \<Rightarrow> nat \<Rightarrow> mem \<Rightarrow> (mem \<times> limb) option" where
  "mpn_lshift wp up usize cnt m =
     (if usize = 0 then None
      else let sh_1 = cnt; sh_2 = 64 - sh_1 in
           do { low_limb \<leftarrow> rd m (up + (usize - 1));
                let retval = drop_bit sh_2 low_limb;
                m \<leftarrow> lshift_loop wp up sh_1 sh_2 low_limb (usize - 1) m;
                Some (m, retval) })"

text \<open>\<open>n\<close> is the number of limbs that are left, the last limb included.\<close>

fun rshift_loop :: "nat \<Rightarrow> nat \<Rightarrow> nat \<Rightarrow> nat \<Rightarrow> limb \<Rightarrow> nat \<Rightarrow> mem \<Rightarrow> mem option" where
  "rshift_loop wp up sh_1 sh_2 low_limb 0 m = wr m wp (drop_bit sh_1 low_limb)"
| "rshift_loop wp up sh_1 sh_2 low_limb (Suc n) m =
     do { high_limb \<leftarrow> rd m up;
          m \<leftarrow> wr m wp (drop_bit sh_1 low_limb OR push_bit sh_2 high_limb);
          rshift_loop (wp + 1) (up + 1) sh_1 sh_2 high_limb n m }"

text \<open>The assertion of \<open>mpn_rshift\<close> aborts.\<close>

definition mpn_rshift :: "nat \<Rightarrow> nat \<Rightarrow> nat \<Rightarrow> nat \<Rightarrow> mem \<Rightarrow> (mem \<times> limb) option" where
  "mpn_rshift wp up usize cnt m =
     (if usize = 0 \<or> cnt = 0 then None
      else let sh_1 = cnt; sh_2 = 64 - sh_1 in
           do { high_limb \<leftarrow> rd m up;
                let retval = push_bit sh_2 high_limb;
                m \<leftarrow> rshift_loop wp (up + 1) sh_1 sh_2 high_limb (usize - 1) m;
                Some (m, retval) })"

subsection \<open>The number in a run of limbs, and what a routine may change\<close>

definition mpn_val :: "mem \<Rightarrow> nat \<Rightarrow> nat \<Rightarrow> nat" where
  "mpn_val m p n = (\<Sum>i<n. unat (m ! (p + i)) * \<beta> ^ i)"

definition changes :: "mem \<Rightarrow> mem \<Rightarrow> nat \<Rightarrow> nat \<Rightarrow> bool" where
  "changes m m' p n \<longleftrightarrow> length m' = length m \<and> (\<forall>i. i < p \<or> p + n \<le> i \<longrightarrow> m' ! i = m ! i)"

text \<open>A source operand may start at or after the result when the limbs are written upwards.\<close>

definition ahead :: "nat \<Rightarrow> nat \<Rightarrow> nat \<Rightarrow> bool" where
  "ahead r s n \<longleftrightarrow> r \<le> s \<or> s + n \<le> r"

lemma ahead_refl [simp]: "ahead r r n"
  by (simp add: ahead_def)

lemma mpn_val_0 [simp]: "mpn_val m p 0 = 0"
  by (simp add: mpn_val_def)

lemma mpn_val_snoc: "mpn_val m p (Suc n) = mpn_val m p n + unat (m ! (p + n)) * \<beta> ^ n"
  by (simp add: mpn_val_def)

lemma int_val_snoc: "int (mpn_val m p (Suc n)) = int (mpn_val m p n) + int (\<beta> ^ n) * uint (m ! (p + n))"
  by (simp add: mpn_val_snoc)

lemma mpn_val_split: "mpn_val m p (a + b) = mpn_val m p a + \<beta> ^ a * mpn_val m (p + a) b"
  by (induction b) (simp_all add: mpn_val_snoc add.assoc algebra_simps power_add)

lemma mpn_val_1 [simp]: "mpn_val m p (Suc 0) = unat (m ! p)"
  by (simp add: mpn_val_def)

lemma mpn_val_Cons: "mpn_val m p (Suc n) = unat (m ! p) + \<beta> * mpn_val m (p + 1) n"
  using mpn_val_split [of m p 1 n] by simp

lemma mpn_val_less: "mpn_val m p n < \<beta> ^ n"
proof (induction n)
  case (Suc n)
  have "unat (m ! (p + n)) + 1 \<le> \<beta>" using limb_bound [of "m ! (p + n)"] by linarith
  then have "(unat (m ! (p + n)) + 1) * \<beta> ^ n \<le> \<beta> * \<beta> ^ n" by (rule mult_le_mono1)
  with Suc show ?case by (simp add: mpn_val_snoc)
qed simp

lemma mpn_val_cong: "(\<And>i. i < n \<Longrightarrow> m ! (p + i) = m' ! (p + i)) \<Longrightarrow> mpn_val m p n = mpn_val m' p n"
  by (simp add: mpn_val_def)

lemma changes_length: "changes m m' p n \<Longrightarrow> length m' = length m"
  by (simp add: changes_def)

lemma changes_refl [simp]: "changes m m p n"
  by (simp add: changes_def)

lemma changes_nth: "changes m m' p n \<Longrightarrow> i < p \<or> p + n \<le> i \<Longrightarrow> m' ! i = m ! i"
  unfolding changes_def by blast

lemma changes_val: "changes m m' p n \<Longrightarrow> q + k \<le> p \<or> p + n \<le> q \<Longrightarrow> mpn_val m' q k = mpn_val m q k"
  by (rule mpn_val_cong) (auto simp: changes_def)

lemma changes_mono: "changes m m' p n \<Longrightarrow> q \<le> p \<Longrightarrow> p + n \<le> q + k \<Longrightarrow> changes m m' q k"
  by (auto simp: changes_def)

lemma changes_trans: "changes m m' p n \<Longrightarrow> changes m' m'' p n \<Longrightarrow> changes m m'' p n"
  by (auto simp: changes_def)

lemma changes_comp:
  "changes m m' p n \<Longrightarrow> changes m' m'' q k \<Longrightarrow> a \<le> p \<Longrightarrow> a \<le> q \<Longrightarrow> p + n \<le> a + b \<Longrightarrow> q + k \<le> a + b \<Longrightarrow> changes m m'' a b"
  by (auto simp: changes_def)

lemma changes_update: "changes m (m[i := x]) i 1"
  by (auto simp: changes_def nth_list_update)

lemma changes_Suc: "changes m m' p n \<Longrightarrow> changes m (m'[p + n := x]) p (Suc n)"
  by (auto simp: changes_def nth_list_update)

lemma mpn_val_update_snoc: "p + n < length m \<Longrightarrow> mpn_val (m[p + n := x]) p (Suc n) = mpn_val m p n + unat x * \<beta> ^ n"
  by (simp add: mpn_val_snoc) (rule mpn_val_cong, simp)

lemma do_limbs_rule:
  assumes "i < n" "P i cy m"
    and step: "\<And>i cy m. i < n \<Longrightarrow> P i cy m \<Longrightarrow> \<exists>m' cy'. body i cy m = Some (m', cy') \<and> P (Suc i) cy' m'"
  shows "\<exists>m' cy'. do_limbs body n i cy m = Some (m', cy') \<and> P n cy' m'"
  using assms(1,2)
proof (induction "n - i" arbitrary: i cy m)
  case (Suc k)
  obtain m1 c1 where b: "body i cy m = Some (m1, c1)" "P (Suc i) c1 m1" using step Suc.prems by blast
  show ?case
  proof (cases "i + 1 = n")
    case True
    with b show ?thesis by (simp add: do_limbs.simps [of body n i])
  next
    case False
    then have "do_limbs body n i cy m = do_limbs body n (Suc i) c1 m1" using b by (simp add: do_limbs.simps [of body n i])
    with Suc.hyps(1) [of "Suc i" c1 m1] Suc.hyps(2) Suc.prems(1) False b(2) show ?thesis by simp
  qed
qed simp

subsection \<open>The loops that pass a carry\<close>

text \<open>
  The five loops have one shape: from the limbs of two operands at the index and the carry
  (or borrow, for the sign -1) they compute a limb of the result and the next carry, and what
  they compute is linear in the operands.
\<close>

locale carry_loop =
  fixes body :: "nat \<Rightarrow> limb \<Rightarrow> mem \<Rightarrow> (mem \<times> limb) option" and r s1 s2 :: nat
    and lin :: "int \<Rightarrow> int \<Rightarrow> int" and sgn :: int and ok :: "limb \<Rightarrow> bool"
  assumes start: "ok 0"
    and linear: "lin (a + k * x) (b + k * y) = lin a b + k * lin x y"
    and step: "ok c \<Longrightarrow> r + i < length m \<Longrightarrow> s1 + i < length m \<Longrightarrow> s2 + i < length m \<Longrightarrow>
      \<exists>z c'. body i c m = Some (m[r + i := z], c') \<and> ok c' \<and>
        uint z + sgn * int \<beta> * uint c' = lin (uint (m ! (s1 + i))) (uint (m ! (s2 + i))) + sgn * uint c"
begin

lemma lin_0: "lin 0 0 = 0"
  using linear [of 0 1 0 0 0] by simp

theorem loop:
  assumes "0 < n" "r + n \<le> length m" "s1 + n \<le> length m" "s2 + n \<le> length m" "ahead r s1 n" "ahead r s2 n"
  shows "\<exists>m' c. do_limbs body n 0 0 m = Some (m', c) \<and> changes m m' r n \<and> ok c \<and>
    int (mpn_val m' r n) + sgn * int (\<beta> ^ n) * uint c = lin (int (mpn_val m s1 n)) (int (mpn_val m s2 n))"
proof -
  define P where "P i c m' \<longleftrightarrow> changes m m' r i \<and> ok c \<and>
    int (mpn_val m' r i) + sgn * int (\<beta> ^ i) * uint c = lin (int (mpn_val m s1 i)) (int (mpn_val m s2 i))" for i c m'
  have "\<exists>m' c. do_limbs body n 0 0 m = Some (m', c) \<and> P n c m'"
  proof (rule do_limbs_rule [OF assms(1)])
    show "P 0 0 m" by (simp add: P_def start lin_0)
    fix i c m'
    assume i: "i < n" and P: "P i c m'"
    then have ch: "changes m m' r i" and len: "length m' = length m" by (auto simp: P_def changes_def)
    have "r + i < length m'" "s1 + i < length m'" "s2 + i < length m'" using i assms len by simp_all
    then obtain z c' where z: "body i c m' = Some (m'[r + i := z], c')" "ok c'"
      "uint z + sgn * int \<beta> * uint c' = lin (uint (m' ! (s1 + i))) (uint (m' ! (s2 + i))) + sgn * uint c"
      using step [of c i m'] P unfolding P_def by blast
    have src: "m' ! (s1 + i) = m ! (s1 + i)" "m' ! (s2 + i) = m ! (s2 + i)"
      using changes_nth [OF ch] assms(5,6) i by (auto simp: ahead_def)
    have "int (mpn_val (m'[r + i := z]) r (Suc i)) + sgn * int (\<beta> ^ Suc i) * uint c' =
      int (mpn_val m' r i) + int (\<beta> ^ i) * (uint z + sgn * int \<beta> * uint c')"
      using \<open>r + i < length m'\<close> by (subst mpn_val_update_snoc) (simp_all add: algebra_simps)
    also have "\<dots> = int (mpn_val m' r i) + sgn * int (\<beta> ^ i) * uint c +
      int (\<beta> ^ i) * lin (uint (m ! (s1 + i))) (uint (m ! (s2 + i)))"
      unfolding z(3) src by (simp add: algebra_simps)
    also have "\<dots> = lin (int (mpn_val m s1 (Suc i))) (int (mpn_val m s2 (Suc i)))"
      using P unfolding P_def by (simp only: int_val_snoc linear)
    finally show "\<exists>m'' c'. body i c m' = Some (m'', c') \<and> P (Suc i) c' m''"
      using z changes_Suc [OF ch] by (auto simp: P_def)
  qed
  then show ?thesis by (auto simp: P_def)
qed

end

lemma carry_le_1: "c \<le> (1 :: limb) \<longleftrightarrow> unat c \<le> 1"
  by (simp add: word_le_nat_alt)

lemma unat_carries: "unat (of_bool b + of_bool c :: limb) = of_bool b + of_bool c"
  by (cases b; cases c) simp_all

lemma int_limbs: "a + b = c + d \<Longrightarrow> int a + int b = int c + int d"
  by (simp flip: of_nat_add)

interpretation add_n: carry_loop "add_n_body r s1 s2" r s1 s2 "\<lambda>x y. x + y" 1 "\<lambda>c. c \<le> 1" for r s1 s2
proof
  fix c :: limb and i and m :: mem
  assume c: "c \<le> 1" and len: "r + i < length m" "s1 + i < length m" "s2 + i < length m"
  let ?x = "m ! (s1 + i)" and ?y = "m ! (s2 + i)"
  let ?z = "?x + (?y + c)"
  let ?c' = "of_bool (?z < ?x) + of_bool (?y + c < c) :: limb"
  have eq: "unat ?z + \<beta> * unat ?c' = unat ?x + unat ?y + unat c"
    using add_carry' [of ?y c] add_carry [of ?x "?y + c"] by (simp add: unat_carries distrib_left)
  have "\<beta> * unat ?c' < \<beta> * 2"
    using eq c limb_bound [of ?x] limb_bound [of ?y] unfolding carry_le_1 by linarith
  then have "?c' \<le> 1" unfolding carry_le_1 by simp
  moreover have "add_n_body r s1 s2 i c m = Some (m[r + i := ?z], ?c')"
    using len by (simp add: add_n_body_def mem_simps Let_def)
  moreover have "uint ?z + 1 * int \<beta> * uint ?c' = uint ?x + uint ?y + 1 * uint c"
    using arg_cong [OF eq, of int] by simp
  ultimately show "\<exists>z c'. add_n_body r s1 s2 i c m = Some (m[r + i := z], c') \<and> c' \<le> 1 \<and>
     uint z + 1 * int \<beta> * uint c' = uint ?x + uint ?y + 1 * uint c" by blast
qed (simp_all add: algebra_simps)

interpretation sub_n: carry_loop "sub_n_body r s1 s2" r s1 s2 "\<lambda>x y. x - y" "- 1" "\<lambda>c. c \<le> 1" for r s1 s2
proof
  fix c :: limb and i and m :: mem
  assume c: "c \<le> 1" and len: "r + i < length m" "s1 + i < length m" "s2 + i < length m"
  let ?x = "m ! (s1 + i)" and ?y = "m ! (s2 + i)"
  let ?z = "?x - (?y + c)"
  let ?c' = "of_bool (?x < ?z) + of_bool (?y + c < c) :: limb"
  have eq: "unat ?z + (unat ?y + unat c) = unat ?x + \<beta> * unat ?c'"
    using add_carry' [of ?y c] sub_borrow [of ?x "?y + c"] by (simp add: unat_carries distrib_left)
  have "\<beta> * unat ?c' < \<beta> * 2"
    using eq c limb_bound [of ?z] limb_bound [of ?y] unfolding carry_le_1 by linarith
  then have "?c' \<le> 1" unfolding carry_le_1 by simp
  moreover have "sub_n_body r s1 s2 i c m = Some (m[r + i := ?z], ?c')"
    using len by (simp add: sub_n_body_def mem_simps Let_def)
  moreover have "uint ?z + - 1 * int \<beta> * uint ?c' = uint ?x - uint ?y + - 1 * uint c"
    using arg_cong [OF eq, of int] by simp
  ultimately show "\<exists>z c'. sub_n_body r s1 s2 i c m = Some (m[r + i := z], c') \<and> c' \<le> 1 \<and>
     uint z + - 1 * int \<beta> * uint c' = uint ?x - uint ?y + - 1 * uint c" by blast
qed (simp_all add: algebra_simps)

text \<open>A product and a carry fit two limbs.\<close>

lemma limb_product_le: "unat (x :: limb) * unat (y :: limb) \<le> (\<beta> - 1) * (\<beta> - 1)"
  using limb_bound [of x] limb_bound [of y] by (intro mult_le_mono) linarith+

lemma beta_square: "(\<beta> - 1) * (\<beta> - 1) + 2 * (\<beta> - 1) + 1 = \<beta> * \<beta>"
  by (simp add: \<beta>_def)

lemma mul_step:
  fixes x v c :: limb
  assumes "umul_ppmm x v = (h, l)"
  defines "l' \<equiv> l + c"
  defines "c' \<equiv> of_bool (l' < c) + h"
  shows "unat l' + \<beta> * unat c' = unat x * unat v + unat c"
proof -
  have eq: "unat l' + \<beta> * of_bool (l' < c) + \<beta> * unat h = unat x * unat v + unat c"
    using umul_ppmm_correct [OF assms(1)] add_carry' [of l c] by (simp add: l'_def mult.commute)
  have "\<beta> * (of_bool (l' < c) + unat h) < \<beta> * \<beta>"
    using eq limb_product_le [of x v] limb_bound [of c] beta_square by (simp only: distrib_left)
  then have "unat c' = of_bool (l' < c) + unat h" unfolding c'_def by (subst unat_add) simp_all
  with eq show ?thesis by (simp add: distrib_left)
qed

interpretation mul_1: carry_loop "mul_1_body r s1 v" r s1 s1 "\<lambda>x y. uint v * x" 1 "\<lambda>c. True" for r s1 v
proof
  fix c :: limb and i and m :: mem
  assume len: "r + i < length m" "s1 + i < length m"
  obtain h l where hl: "umul_ppmm (m ! (s1 + i)) v = (h, l)" by force
  note eq = mul_step [OF hl, of c]
  have "mul_1_body r s1 v i c m = Some (m[r + i := l + c], of_bool (l + c < c) + h)"
    using len by (simp add: mul_1_body_def mem_simps Let_def hl)
  moreover have "uint (l + c) + 1 * int \<beta> * uint (of_bool (l + c < c) + h) = uint v * uint (m ! (s1 + i)) + 1 * uint c"
    using arg_cong [OF eq, of int] by (simp add: mult.commute)
  ultimately show "\<exists>z c'. mul_1_body r s1 v i c m = Some (m[r + i := z], c') \<and> True \<and>
     uint z + 1 * int \<beta> * uint c' = uint v * uint (m ! (s1 + i)) + 1 * uint c" by blast
qed (simp_all add: algebra_simps)

interpretation addmul_1: carry_loop "addmul_1_body r s1 v" r s1 r "\<lambda>x y. y + uint v * x" 1 "\<lambda>c. True" for r s1 v
proof
  fix c :: limb and i and m :: mem
  assume len: "r + i < length m" "s1 + i < length m"
  obtain h l where hl: "umul_ppmm (m ! (s1 + i)) v = (h, l)" by force
  let ?x = "m ! (r + i)" and ?s = "m ! (s1 + i)" and ?l = "l + c" and ?h = "of_bool (l + c < c) + h"
  let ?z = "?x + ?l" and ?c' = "?h + of_bool (?x + ?l < ?x)"
  have eq: "unat ?z + \<beta> * of_bool (?z < ?x) + \<beta> * unat ?h = unat ?x + unat ?s * unat v + unat c"
    using mul_step [OF hl, of c] add_carry [of ?x ?l] by simp
  have "\<beta> * (unat ?h + of_bool (?z < ?x)) < \<beta> * \<beta>"
    using eq limb_product_le [of ?s v] limb_bound [of c] limb_bound [of ?x] beta_square by (simp only: distrib_left)
  then have "unat ?c' = unat ?h + of_bool (?z < ?x)" by (subst unat_add) simp_all
  with eq have eq': "unat ?z + \<beta> * unat ?c' = unat ?x + unat ?s * unat v + unat c" by (simp add: distrib_left)
  have "addmul_1_body r s1 v i c m = Some (m[r + i := ?z], ?c')"
    using len by (simp add: addmul_1_body_def mem_simps Let_def hl)
  moreover have "uint ?z + 1 * int \<beta> * uint ?c' = uint ?x + uint v * uint ?s + 1 * uint c"
    using arg_cong [OF eq', of int] by (simp add: mult.commute)
  ultimately show "\<exists>z c'. addmul_1_body r s1 v i c m = Some (m[r + i := z], c') \<and> True \<and>
     uint z + 1 * int \<beta> * uint c' = uint ?x + uint v * uint ?s + 1 * uint c" by blast
qed (simp_all add: algebra_simps)

interpretation submul_1: carry_loop "submul_1_body r s1 v" r s1 r "\<lambda>x y. y - uint v * x" "- 1" "\<lambda>c. True" for r s1 v
proof
  fix c :: limb and i and m :: mem
  assume len: "r + i < length m" "s1 + i < length m"
  obtain h l where hl: "umul_ppmm (m ! (s1 + i)) v = (h, l)" by force
  let ?x = "m ! (r + i)" and ?s = "m ! (s1 + i)" and ?l = "l + c" and ?h = "of_bool (l + c < c) + h"
  let ?z = "?x - ?l" and ?c' = "?h + of_bool (?x < ?x - ?l)"
  have eq: "unat ?z + unat ?s * unat v + unat c = unat ?x + \<beta> * of_bool (?x < ?z) + \<beta> * unat ?h"
    using mul_step [OF hl, of c] sub_borrow [of ?x ?l] by simp
  have "\<beta> * (unat ?h + of_bool (?x < ?z)) < \<beta> * \<beta>"
    using eq limb_product_le [of ?s v] limb_bound [of c] limb_bound [of ?z] beta_square by (simp only: distrib_left)
  then have "unat ?c' = unat ?h + of_bool (?x < ?z)" by (subst unat_add) simp_all
  with eq have eq': "unat ?z + unat ?s * unat v + unat c = unat ?x + \<beta> * unat ?c'" by (simp add: distrib_left)
  have "submul_1_body r s1 v i c m = Some (m[r + i := ?z], ?c')"
    using len by (simp add: submul_1_body_def mem_simps Let_def hl)
  moreover have "uint ?z + - 1 * int \<beta> * uint ?c' = uint ?x - uint v * uint ?s + - 1 * uint c"
    using arg_cong [OF eq', of int] by (simp add: mult.commute)
  ultimately show "\<exists>z c'. submul_1_body r s1 v i c m = Some (m[r + i := z], c') \<and> True \<and>
     uint z + - 1 * int \<beta> * uint c' = uint ?x - uint v * uint ?s + - 1 * uint c" by blast
qed (simp_all add: algebra_simps)

subsection \<open>What the routines compute\<close>

lemma mpn_add_n_correct:
  assumes "0 < n" "r + n \<le> length m" "s1 + n \<le> length m" "s2 + n \<le> length m" "ahead r s1 n" "ahead r s2 n"
  shows "\<exists>m' c. mpn_add_n r s1 s2 n m = Some (m', c) \<and> changes m m' r n \<and> unat c \<le> 1 \<and>
    mpn_val m' r n + \<beta> ^ n * unat c = mpn_val m s1 n + mpn_val m s2 n"
proof -
  obtain m' c where "do_limbs (add_n_body r s1 s2) n 0 0 m = Some (m', c)" "changes m m' r n" "unat c \<le> 1"
    "int (mpn_val m' r n) + 1 * int (\<beta> ^ n) * uint c = int (mpn_val m s1 n) + int (mpn_val m s2 n)"
    using add_n.loop [OF assms] unfolding carry_le_1 by blast
  moreover from this(4) have "int (mpn_val m' r n + \<beta> ^ n * unat c) = int (mpn_val m s1 n + mpn_val m s2 n)" by simp
  ultimately show ?thesis unfolding mpn_add_n_def by (metis of_nat_eq_iff)
qed

lemma mpn_sub_n_correct:
  assumes "0 < n" "r + n \<le> length m" "s1 + n \<le> length m" "s2 + n \<le> length m" "ahead r s1 n" "ahead r s2 n"
  shows "\<exists>m' c. mpn_sub_n r s1 s2 n m = Some (m', c) \<and> changes m m' r n \<and> unat c \<le> 1 \<and>
    mpn_val m' r n + mpn_val m s2 n = mpn_val m s1 n + \<beta> ^ n * unat c"
proof -
  obtain m' c where "do_limbs (sub_n_body r s1 s2) n 0 0 m = Some (m', c)" "changes m m' r n" "unat c \<le> 1"
    "int (mpn_val m' r n) + - 1 * int (\<beta> ^ n) * uint c = int (mpn_val m s1 n) - int (mpn_val m s2 n)"
    using sub_n.loop [OF assms] unfolding carry_le_1 by blast
  moreover from this(4) have "int (mpn_val m' r n + mpn_val m s2 n) = int (mpn_val m s1 n + \<beta> ^ n * unat c)" by simp
  ultimately show ?thesis unfolding mpn_sub_n_def by (metis of_nat_eq_iff)
qed

lemma mpn_mul_1_correct:
  assumes "0 < n" "r + n \<le> length m" "s + n \<le> length m" "ahead r s n"
  shows "\<exists>m' c. mpn_mul_1 r s n v m = Some (m', c) \<and> changes m m' r n \<and>
    mpn_val m' r n + \<beta> ^ n * unat c = mpn_val m s n * unat v"
proof -
  obtain m' c where "do_limbs (mul_1_body r s v) n 0 0 m = Some (m', c)" "changes m m' r n"
    "int (mpn_val m' r n) + 1 * int (\<beta> ^ n) * uint c = uint v * int (mpn_val m s n)"
    using mul_1.loop [OF assms(1-3,3,4,4)] by blast
  moreover from this(3) have "int (mpn_val m' r n + \<beta> ^ n * unat c) = int (mpn_val m s n * unat v)" by (simp add: mult.commute)
  ultimately show ?thesis unfolding mpn_mul_1_def by (metis of_nat_eq_iff)
qed

lemma mpn_addmul_1_correct:
  assumes "0 < n" "r + n \<le> length m" "s + n \<le> length m" "ahead r s n"
  shows "\<exists>m' c. mpn_addmul_1 r s n v m = Some (m', c) \<and> changes m m' r n \<and>
    mpn_val m' r n + \<beta> ^ n * unat c = mpn_val m r n + mpn_val m s n * unat v"
proof -
  obtain m' c where "do_limbs (addmul_1_body r s v) n 0 0 m = Some (m', c)" "changes m m' r n"
    "int (mpn_val m' r n) + 1 * int (\<beta> ^ n) * uint c = int (mpn_val m r n) + uint v * int (mpn_val m s n)"
    using addmul_1.loop [OF assms(1-3,2,4) ahead_refl] by blast
  moreover from this(3) have "int (mpn_val m' r n + \<beta> ^ n * unat c) = int (mpn_val m r n + mpn_val m s n * unat v)"
    by (simp add: mult.commute)
  ultimately show ?thesis unfolding mpn_addmul_1_def by (metis of_nat_eq_iff)
qed

lemma mpn_submul_1_correct:
  assumes "0 < n" "r + n \<le> length m" "s + n \<le> length m" "ahead r s n"
  shows "\<exists>m' c. mpn_submul_1 r s n v m = Some (m', c) \<and> changes m m' r n \<and>
    mpn_val m' r n + mpn_val m s n * unat v = mpn_val m r n + \<beta> ^ n * unat c"
proof -
  obtain m' c where "do_limbs (submul_1_body r s v) n 0 0 m = Some (m', c)" "changes m m' r n"
    "int (mpn_val m' r n) + - 1 * int (\<beta> ^ n) * uint c = int (mpn_val m r n) - uint v * int (mpn_val m s n)"
    using submul_1.loop [OF assms(1-3,2,4) ahead_refl] by blast
  moreover from this(3) have "int (mpn_val m' r n + mpn_val m s n * unat v) = int (mpn_val m r n + \<beta> ^ n * unat c)"
    by (simp add: mult.commute)
  ultimately show ?thesis unfolding mpn_submul_1_def by (metis of_nat_eq_iff)
qed

lemma MPN_COPY_INCR_correct:
  "d + n \<le> length m \<Longrightarrow> s + n \<le> length m \<Longrightarrow> ahead d s n \<Longrightarrow>
     \<exists>m'. MPN_COPY_INCR d s n m = Some m' \<and> changes m m' d n \<and> (\<forall>i<n. m' ! (d + i) = m ! (s + i))"
proof (induction n arbitrary: d s m)
  case (Suc n)
  let ?m = "m[d := m ! s]"
  have "ahead (d + 1) (s + 1) n" using Suc.prems(3) by (auto simp: ahead_def)
  then obtain m' where m': "MPN_COPY_INCR (d + 1) (s + 1) n ?m = Some m'" "changes ?m m' (d + 1) n"
    "\<forall>i<n. m' ! (d + 1 + i) = ?m ! (s + 1 + i)"
    using Suc.IH [of "d + 1" ?m "s + 1"] Suc.prems by auto
  have "changes m m' d (Suc n)"
    using changes_comp [OF changes_update m'(2)] by simp
  moreover have "m' ! (d + i) = m ! (s + i)" if "i < Suc n" for i
  proof (cases i)
    case 0
    then show ?thesis using changes_nth [OF m'(2), of d] Suc.prems by simp
  next
    case (Suc j)
    then have "s + i \<noteq> d \<or> m ! s = m ! (s + i)" using Suc.prems(3) that by (auto simp: ahead_def)
    with Suc m'(3) that Suc.prems show ?thesis by (auto simp: nth_list_update)
  qed
  moreover have "MPN_COPY_INCR d s (Suc n) m = Some m'" using m'(1) Suc.prems by (simp add: mem_simps)
  ultimately show ?case by blast
qed simp

lemma MPN_COPY_DECR_correct:
  "d + n \<le> length m \<Longrightarrow> s + n \<le> length m \<Longrightarrow> s \<le> d \<or> d + n \<le> s \<Longrightarrow>
     \<exists>m'. MPN_COPY_DECR d s n m = Some m' \<and> changes m m' d n \<and> (\<forall>i<n. m' ! (d + i) = m ! (s + i))"
proof (induction n arbitrary: m)
  case (Suc n)
  let ?m = "m[d + n := m ! (s + n)]"
  obtain m' where m': "MPN_COPY_DECR d s n ?m = Some m'" "changes ?m m' d n" "\<forall>i<n. m' ! (d + i) = ?m ! (s + i)"
    using Suc.IH [of ?m] Suc.prems by auto
  have "changes m m' d (Suc n)"
    using changes_comp [OF changes_update m'(2)] by simp
  moreover have "m' ! (d + i) = m ! (s + i)" if "i < Suc n" for i
  proof (cases "i = n")
    case True
    then show ?thesis using changes_nth [OF m'(2), of "d + n"] Suc.prems by simp
  next
    case False
    with that have "i < n" by simp
    then have "d + n \<noteq> s + i" using Suc.prems(3) by auto
    with m'(3) \<open>i < n\<close> show ?thesis by simp
  qed
  moreover have "MPN_COPY_DECR d s (Suc n) m = Some m'" using m'(1) Suc.prems by (simp add: mem_simps)
  ultimately show ?case by blast
qed simp

lemma copied_val: "\<forall>i<n. m' ! (d + i) = m ! (s + i) \<Longrightarrow> mpn_val m' d n = mpn_val m s n"
  by (simp add: mpn_val_def)

lemma MPN_COPY_INCR_val:
  "d + n \<le> length m \<Longrightarrow> s + n \<le> length m \<Longrightarrow> ahead d s n \<Longrightarrow>
     \<exists>m'. MPN_COPY_INCR d s n m = Some m' \<and> changes m m' d n \<and> mpn_val m' d n = mpn_val m s n"
  using MPN_COPY_INCR_correct copied_val by blast

lemma MPN_ZERO_correct:
  "d + n \<le> length m \<Longrightarrow> \<exists>m'. MPN_ZERO d n m = Some m' \<and> changes m m' d n \<and> mpn_val m' d n = 0"
proof (induction n arbitrary: d m)
  case (Suc n)
  obtain m' where m': "MPN_ZERO (d + 1) n (m[d := 0]) = Some m'" "changes (m[d := 0]) m' (d + 1) n" "mpn_val m' (d + 1) n = 0"
    using Suc.IH [of "d + 1" "m[d := 0]"] Suc.prems by auto
  have "changes m m' d (Suc n)"
    using changes_comp [OF changes_update m'(2)] by simp
  moreover have "m' ! d = 0" using changes_nth [OF m'(2), of d] Suc.prems by simp
  ultimately show ?case using m' Suc.prems by (simp add: mem_simps mpn_val_Cons)
qed simp

lemma mpn_cmp_correct:
  "p + n \<le> length m \<Longrightarrow> q + n \<le> length m \<Longrightarrow>
     mpn_cmp p q n m = Some (if mpn_val m q n < mpn_val m p n then 1 else if mpn_val m p n = mpn_val m q n then 0 else - 1)"
proof (induction n)
  case (Suc n)
  have less: "mpn_val m a (Suc n) < mpn_val m b (Suc n)" if "m ! (a + n) < m ! (b + n)" for a b
  proof -
    have "(unat (m ! (a + n)) + 1) * \<beta> ^ n \<le> unat (m ! (b + n)) * \<beta> ^ n"
      using that by (intro mult_le_mono1) (simp add: word_less_nat_alt)
    with mpn_val_less [of m a n] show ?thesis by (simp add: mpn_val_snoc)
  qed
  show ?case
  proof (cases "m ! (p + n)" "m ! (q + n)" rule: linorder_cases)
    case equal
    with Suc show ?thesis by (simp add: mem_simps mpn_val_snoc)
  next
    case l: less
    with less [OF l] Suc.prems show ?thesis by (auto simp: mem_simps)
  next
    case g: greater
    with less [OF g] Suc.prems show ?thesis by (auto simp: mem_simps)
  qed
qed simp

lemma copy_fin_correct:
  assumes "r + n \<le> length m" "s + n \<le> length m" "ahead r s n"
  shows "\<exists>m'. copy_fin r s (Suc n) m = Some (m', 0) \<and> changes m m' r n \<and> mpn_val m' r n = mpn_val m s n"
proof (cases "r = s")
  case False
  with MPN_COPY_INCR_correct [OF assms] show ?thesis by (auto simp: copy_fin_def copied_val)
qed (simp add: copy_fin_def)

text \<open>A first limb that is written before the rest of the run.\<close>

lemma write_first:
  assumes "changes (m[r := x]) m' (r + 1) n" "r < length m"
  shows "changes m m' r (Suc n)" "mpn_val m' r (Suc n) = unat x + \<beta> * mpn_val m' (r + 1) n"
  using changes_comp [OF changes_update assms(1)] changes_nth [OF assms(1), of r] assms(2)
  by (simp_all add: mpn_val_Cons)

lemma val_first: "ahead r s (Suc n) \<Longrightarrow> mpn_val (m[r := x]) (s + 1) n = mpn_val m (s + 1) n"
  by (rule changes_val [OF changes_update]) (auto simp: ahead_def)

lemma ahead_Suc: "ahead r s (Suc n) \<Longrightarrow> ahead (r + 1) (s + 1) n"
  by (auto simp: ahead_def)

lemma unat_inc: "unat (x + 1 :: limb) + \<beta> * of_bool (x + 1 = 0) = unat x + 1"
proof (cases "x + 1 = 0")
  case True
  then have "x = - 1" by (simp add: eq_neg_iff_add_eq_0)
  then show ?thesis by (simp add: \<beta>_def unsigned_minus_1_eq_mask mask_eq_exp_minus_1)
next
  case False
  then show ?thesis using unatSuc [of x] by (simp add: add.commute)
qed

lemma add_1_rest_correct:
  "r + n \<le> length m \<Longrightarrow> s + n \<le> length m \<Longrightarrow> ahead r s n \<Longrightarrow>
     \<exists>m' c. do { (m, x) \<leftarrow> add_1_loop r s (Suc n) m;
                case x of Inl _ \<Rightarrow> Some (m, 1) | Inr (r, s, k) \<Rightarrow> copy_fin r s k m } = Some (m', c) \<and>
       changes m m' r n \<and> unat c \<le> 1 \<and> mpn_val m' r n + \<beta> ^ n * unat c = mpn_val m s n + 1"
proof (induction n arbitrary: r s m)
  case 0
  then show ?case by (simp add: add_1_loop.simps)
next
  case (Suc n)
  let ?x = "m ! s + 1"
  let ?m = "m[r := ?x]"
  have pre: "(r + 1) + n \<le> length ?m" "(s + 1) + n \<le> length ?m" "ahead (r + 1) (s + 1) n" "r < length m"
    using Suc.prems ahead_Suc by simp_all
  have step: "add_1_loop r s (Suc (Suc n)) m =
    (if ?x \<noteq> 0 then Some (?m, Inr (r + 1, s + 1, Suc n)) else add_1_loop (r + 1) (s + 1) (Suc n) ?m)"
    using Suc.prems by (simp add: add_1_loop.simps [of r s "Suc (Suc n)"] mem_simps)
  note val = val_first [OF Suc.prems(3), of m ?x]
  show ?case
  proof (cases "?x = 0")
    case True
    obtain m' c where m': "do { (m, x) \<leftarrow> add_1_loop (r + 1) (s + 1) (Suc n) ?m;
        case x of Inl _ \<Rightarrow> Some (m, 1) | Inr (r, s, k) \<Rightarrow> copy_fin r s k m } = Some (m', c)"
      "changes ?m m' (r + 1) n" "unat c \<le> 1" "mpn_val m' (r + 1) n + \<beta> ^ n * unat c = mpn_val ?m (s + 1) n + 1"
      using Suc.IH [OF pre(1-3)] by blast
    have "mpn_val m' r (Suc n) + \<beta> ^ Suc n * unat c = unat ?x + \<beta> * (mpn_val m' (r + 1) n + \<beta> ^ n * unat c)"
      by (simp add: write_first(2) [OF m'(2) pre(4)] distrib_left)
    also have "\<dots> = mpn_val m s (Suc n) + 1"
      unfolding m'(4) val using unat_inc [of "m ! s"] True by (simp add: mpn_val_Cons distrib_left)
    finally show ?thesis using m'(1,3) write_first(1) [OF m'(2) pre(4)] True step by (intro exI [of _ m'] exI [of _ c]) simp
  next
    case False
    obtain m' where m': "copy_fin (r + 1) (s + 1) (Suc n) ?m = Some (m', 0)" "changes ?m m' (r + 1) n"
      "mpn_val m' (r + 1) n = mpn_val ?m (s + 1) n"
      using copy_fin_correct [OF pre(1-3)] by blast
    have "mpn_val m' r (Suc n) = mpn_val m s (Suc n) + 1"
      unfolding write_first(2) [OF m'(2) pre(4)] m'(3) val using unat_inc [of "m ! s"] False by (simp add: mpn_val_Cons)
    then show ?thesis using m'(1) write_first(1) [OF m'(2) pre(4)] False step by (intro exI [of _ m'] exI [of _ 0]) simp
  qed
qed

lemma mpn_add_1_correct:
  assumes "0 < n" "r + n \<le> length m" "s + n \<le> length m" "ahead r s n"
  shows "\<exists>m' c. mpn_add_1 r s n l m = Some (m', c) \<and> changes m m' r n \<and> unat c \<le> 1 \<and>
    mpn_val m' r n + \<beta> ^ n * unat c = mpn_val m s n + unat l"
proof -
  obtain k where n: "n = Suc k" using assms(1) by (cases n) auto
  let ?x = "m ! s + l"
  let ?m = "m[r := ?x]"
  have pre: "(r + 1) + k \<le> length ?m" "(s + 1) + k \<le> length ?m" "ahead (r + 1) (s + 1) k" "r < length m"
    using assms ahead_Suc by (simp_all add: n)
  have val: "mpn_val ?m (s + 1) k = mpn_val m (s + 1) k" using val_first [of r s k] assms n by simp
  have step: "mpn_add_1 r s n l m =
    (if ?x < m ! s then do { (m, x) \<leftarrow> add_1_loop (r + 1) (s + 1) (Suc k) ?m;
        case x of Inl _ \<Rightarrow> Some (m, 1) | Inr (r, s, k) \<Rightarrow> copy_fin r s k m }
     else copy_fin (r + 1) (s + 1) (Suc k) ?m)"
    using assms by (simp add: mpn_add_1_def mem_simps n Let_def)
  show ?thesis
  proof (cases "?x < m ! s")
    case True
    obtain m' c where m': "do { (m, x) \<leftarrow> add_1_loop (r + 1) (s + 1) (Suc k) ?m;
        case x of Inl _ \<Rightarrow> Some (m, 1) | Inr (r, s, k) \<Rightarrow> copy_fin r s k m } = Some (m', c)"
      "changes ?m m' (r + 1) k" "unat c \<le> 1" "mpn_val m' (r + 1) k + \<beta> ^ k * unat c = mpn_val ?m (s + 1) k + 1"
      using add_1_rest_correct [OF pre(1-3)] by blast
    have "mpn_val m' r n + \<beta> ^ n * unat c = unat ?x + \<beta> * (mpn_val m' (r + 1) k + \<beta> ^ k * unat c)"
      by (simp add: n write_first(2) [OF m'(2) pre(4)] distrib_left)
    also have "\<dots> = mpn_val m s n + unat l"
      unfolding m'(4) val using add_carry [of "m ! s" l] True by (simp add: n mpn_val_Cons distrib_left)
    finally show ?thesis using m'(1,3) write_first(1) [OF m'(2) pre(4)] True step n by (intro exI [of _ m'] exI [of _ c]) simp
  next
    case False
    obtain m' where m': "copy_fin (r + 1) (s + 1) (Suc k) ?m = Some (m', 0)" "changes ?m m' (r + 1) k"
      "mpn_val m' (r + 1) k = mpn_val ?m (s + 1) k"
      using copy_fin_correct [OF pre(1-3)] by blast
    have "mpn_val m' r n = mpn_val m s n + unat l"
      unfolding n write_first(2) [OF m'(2) pre(4)] m'(3) val using add_carry [of "m ! s" l] False by (simp add: mpn_val_Cons)
    then show ?thesis using m'(1) write_first(1) [OF m'(2) pre(4)] False step n by (intro exI [of _ m'] exI [of _ 0]) simp
  qed
qed

lemma sub_1_rest_correct:
  "r + n \<le> length m \<Longrightarrow> s + n \<le> length m \<Longrightarrow> ahead r s n \<Longrightarrow>
     \<exists>m' c. do { (m, x) \<leftarrow> sub_1_loop r s (Suc n) m;
                case x of Inl _ \<Rightarrow> Some (m, 1) | Inr (r, s, k) \<Rightarrow> copy_fin r s k m } = Some (m', c) \<and>
       changes m m' r n \<and> unat c \<le> 1 \<and> mpn_val m' r n + 1 = mpn_val m s n + \<beta> ^ n * unat c"
proof (induction n arbitrary: r s m)
  case 0
  then show ?case by (simp add: sub_1_loop.simps)
next
  case (Suc n)
  let ?x = "m ! s - 1"
  let ?m = "m[r := ?x]"
  have pre: "(r + 1) + n \<le> length ?m" "(s + 1) + n \<le> length ?m" "ahead (r + 1) (s + 1) n" "r < length m"
    using Suc.prems ahead_Suc by simp_all
  have step: "sub_1_loop r s (Suc (Suc n)) m =
    (if m ! s \<noteq> 0 then Some (?m, Inr (r + 1, s + 1, Suc n)) else sub_1_loop (r + 1) (s + 1) (Suc n) ?m)"
    using Suc.prems by (simp add: sub_1_loop.simps [of r s "Suc (Suc n)"] mem_simps)
  have dec: "unat ?x + 1 = unat (m ! s) + \<beta> * of_bool (m ! s = 0)" using unat_inc [of ?x] by simp
  note val = val_first [OF Suc.prems(3), of m ?x]
  show ?case
  proof (cases "m ! s = 0")
    case True
    obtain m' c where m': "do { (m, x) \<leftarrow> sub_1_loop (r + 1) (s + 1) (Suc n) ?m;
        case x of Inl _ \<Rightarrow> Some (m, 1) | Inr (r, s, k) \<Rightarrow> copy_fin r s k m } = Some (m', c)"
      "changes ?m m' (r + 1) n" "unat c \<le> 1" "mpn_val m' (r + 1) n + 1 = mpn_val ?m (s + 1) n + \<beta> ^ n * unat c"
      using Suc.IH [OF pre(1-3)] by blast
    have "mpn_val m' r (Suc n) + 1 = unat (m ! s) + \<beta> * (mpn_val m' (r + 1) n + 1)"
      using dec True by (simp add: write_first(2) [OF m'(2) pre(4)] distrib_left)
    also have "\<dots> = mpn_val m s (Suc n) + \<beta> ^ Suc n * unat c"
      unfolding m'(4) val by (simp add: mpn_val_Cons distrib_left)
    finally show ?thesis using m'(1,3) write_first(1) [OF m'(2) pre(4)] True step by (intro exI [of _ m'] exI [of _ c]) simp
  next
    case False
    obtain m' where m': "copy_fin (r + 1) (s + 1) (Suc n) ?m = Some (m', 0)" "changes ?m m' (r + 1) n"
      "mpn_val m' (r + 1) n = mpn_val ?m (s + 1) n"
      using copy_fin_correct [OF pre(1-3)] by blast
    have "mpn_val m' r (Suc n) + 1 = mpn_val m s (Suc n)"
      unfolding write_first(2) [OF m'(2) pre(4)] m'(3) val using dec False by (simp add: mpn_val_Cons)
    then show ?thesis using m'(1) write_first(1) [OF m'(2) pre(4)] False step by (intro exI [of _ m'] exI [of _ 0]) simp
  qed
qed

lemma mpn_sub_1_correct:
  assumes "0 < n" "r + n \<le> length m" "s + n \<le> length m" "ahead r s n"
  shows "\<exists>m' c. mpn_sub_1 r s n l m = Some (m', c) \<and> changes m m' r n \<and> unat c \<le> 1 \<and>
    mpn_val m' r n + unat l = mpn_val m s n + \<beta> ^ n * unat c"
proof -
  obtain k where n: "n = Suc k" using assms(1) by (cases n) auto
  let ?x = "m ! s - l"
  let ?m = "m[r := ?x]"
  have pre: "(r + 1) + k \<le> length ?m" "(s + 1) + k \<le> length ?m" "ahead (r + 1) (s + 1) k" "r < length m"
    using assms ahead_Suc by (simp_all add: n)
  have val: "mpn_val ?m (s + 1) k = mpn_val m (s + 1) k" using val_first [of r s k] assms n by simp
  have step: "mpn_sub_1 r s n l m =
    (if m ! s < ?x then do { (m, x) \<leftarrow> sub_1_loop (r + 1) (s + 1) (Suc k) ?m;
        case x of Inl _ \<Rightarrow> Some (m, 1) | Inr (r, s, k) \<Rightarrow> copy_fin r s k m }
     else copy_fin (r + 1) (s + 1) (Suc k) ?m)"
    using assms by (simp add: mpn_sub_1_def mem_simps n Let_def)
  show ?thesis
  proof (cases "m ! s < ?x")
    case True
    obtain m' c where m': "do { (m, x) \<leftarrow> sub_1_loop (r + 1) (s + 1) (Suc k) ?m;
        case x of Inl _ \<Rightarrow> Some (m, 1) | Inr (r, s, k) \<Rightarrow> copy_fin r s k m } = Some (m', c)"
      "changes ?m m' (r + 1) k" "unat c \<le> 1" "mpn_val m' (r + 1) k + 1 = mpn_val ?m (s + 1) k + \<beta> ^ k * unat c"
      using sub_1_rest_correct [OF pre(1-3)] by blast
    have "mpn_val m' r n + unat l = unat (m ! s) + \<beta> * (mpn_val m' (r + 1) k + 1)"
      using sub_borrow [of "m ! s" l] True by (simp add: n write_first(2) [OF m'(2) pre(4)] distrib_left)
    also have "\<dots> = mpn_val m s n + \<beta> ^ n * unat c"
      unfolding m'(4) val by (simp add: n mpn_val_Cons distrib_left)
    finally show ?thesis using m'(1,3) write_first(1) [OF m'(2) pre(4)] True step n by (intro exI [of _ m'] exI [of _ c]) simp
  next
    case False
    obtain m' where m': "copy_fin (r + 1) (s + 1) (Suc k) ?m = Some (m', 0)" "changes ?m m' (r + 1) k"
      "mpn_val m' (r + 1) k = mpn_val ?m (s + 1) k"
      using copy_fin_correct [OF pre(1-3)] by blast
    have "mpn_val m' r n + unat l = mpn_val m s n"
      unfolding n write_first(2) [OF m'(2) pre(4)] m'(3) val using sub_borrow [of "m ! s" l] False by (simp add: mpn_val_Cons)
    then show ?thesis using m'(1) write_first(1) [OF m'(2) pre(4)] False step n by (intro exI [of _ m'] exI [of _ 0]) simp
  qed
qed

lemma mpn_add_correct:
  assumes "k \<le> n" "0 < n" "r + n \<le> length m" "s1 + n \<le> length m" "s2 + k \<le> length m" "ahead r s1 n" "ahead r s2 k"
    and "s1 = r \<or> s1 + n \<le> r \<or> r + n \<le> s1"
  shows "\<exists>m' c. mpn_add r s1 n s2 k m = Some (m', c) \<and> changes m m' r n \<and> unat c \<le> 1 \<and>
    mpn_val m' r n + \<beta> ^ n * unat c = mpn_val m s1 n + mpn_val m s2 k"
proof -
  have "\<exists>m1 c1. (if k \<noteq> 0 then mpn_add_n r s1 s2 k m else Some (m, 0)) = Some (m1, c1) \<and> changes m m1 r k \<and>
    unat c1 \<le> 1 \<and> mpn_val m1 r k + \<beta> ^ k * unat c1 = mpn_val m s1 k + mpn_val m s2 k"
  proof (cases "k = 0")
    case False
    moreover have "ahead r s1 k" using assms(1,8) by (auto simp: ahead_def)
    ultimately show ?thesis using mpn_add_n_correct [of k r m s1 s2] assms by simp
  qed simp
  then obtain m1 c1 where m1: "(if k \<noteq> 0 then mpn_add_n r s1 s2 k m else Some (m, 0)) = Some (m1, c1)"
    "changes m m1 r k" "unat c1 \<le> 1" "mpn_val m1 r k + \<beta> ^ k * unat c1 = mpn_val m s1 k + mpn_val m s2 k" by blast
  show ?thesis
  proof (cases "n = k")
    case True
    with m1 show ?thesis by (intro exI [of _ m1] exI [of _ c1]) (simp add: mpn_add_def)
  next
    case False
    define j where "j = n - k"
    have n: "n = k + j" "0 < j" using False assms(1) by (simp_all add: j_def)
    have "ahead (r + k) (s1 + k) j" using assms(8) n by (auto simp: ahead_def)
    then obtain m' c where m': "mpn_add_1 (r + k) (s1 + k) j c1 m1 = Some (m', c)" "changes m1 m' (r + k) j" "unat c \<le> 1"
      "mpn_val m' (r + k) j + \<beta> ^ j * unat c = mpn_val m1 (s1 + k) j + unat c1"
      using mpn_add_1_correct [OF n(2), of "r + k" m1 "s1 + k" c1] assms n changes_length [OF m1(2)] by auto
    have "mpn_val m1 (s1 + k) j = mpn_val m (s1 + k) j"
      using assms(8) n by (intro changes_val [OF m1(2)]) auto
    moreover have "mpn_val m' r k = mpn_val m1 r k" by (rule changes_val [OF m'(2)]) simp
    moreover have "mpn_val m' r n + \<beta> ^ n * unat c = mpn_val m' r k + \<beta> ^ k * (mpn_val m' (r + k) j + \<beta> ^ j * unat c)"
      unfolding n(1) mpn_val_split by (simp add: power_add distrib_left)
    ultimately have "mpn_val m' r n + \<beta> ^ n * unat c = mpn_val m s1 n + mpn_val m s2 k"
      using m1(4) unfolding m'(4) n(1) mpn_val_split by (simp add: distrib_left)
    moreover have "changes m m' r n" using changes_comp [OF m1(2) m'(2)] n by simp
    ultimately show ?thesis using m1(1) m'(1,3) False j_def [symmetric] by (intro exI [of _ m'] exI [of _ c]) (simp add: mpn_add_def)
  qed
qed

lemma mpn_sub_correct:
  assumes "k \<le> n" "0 < n" "r + n \<le> length m" "s1 + n \<le> length m" "s2 + k \<le> length m" "ahead r s1 n" "ahead r s2 k"
    and "s1 = r \<or> s1 + n \<le> r \<or> r + n \<le> s1"
  shows "\<exists>m' c. mpn_sub r s1 n s2 k m = Some (m', c) \<and> changes m m' r n \<and> unat c \<le> 1 \<and>
    mpn_val m' r n + mpn_val m s2 k = mpn_val m s1 n + \<beta> ^ n * unat c"
proof -
  have "\<exists>m1 c1. (if k \<noteq> 0 then mpn_sub_n r s1 s2 k m else Some (m, 0)) = Some (m1, c1) \<and> changes m m1 r k \<and>
    unat c1 \<le> 1 \<and> mpn_val m1 r k + mpn_val m s2 k = mpn_val m s1 k + \<beta> ^ k * unat c1"
  proof (cases "k = 0")
    case False
    moreover have "ahead r s1 k" using assms(1,8) by (auto simp: ahead_def)
    ultimately show ?thesis using mpn_sub_n_correct [of k r m s1 s2] assms by simp
  qed simp
  then obtain m1 c1 where m1: "(if k \<noteq> 0 then mpn_sub_n r s1 s2 k m else Some (m, 0)) = Some (m1, c1)"
    "changes m m1 r k" "unat c1 \<le> 1" "mpn_val m1 r k + mpn_val m s2 k = mpn_val m s1 k + \<beta> ^ k * unat c1" by blast
  show ?thesis
  proof (cases "n = k")
    case True
    with m1 show ?thesis by (intro exI [of _ m1] exI [of _ c1]) (simp add: mpn_sub_def)
  next
    case False
    define j where "j = n - k"
    have n: "n = k + j" "0 < j" using False assms(1) by (simp_all add: j_def)
    have "ahead (r + k) (s1 + k) j" using assms(8) n by (auto simp: ahead_def)
    then obtain m' c where m': "mpn_sub_1 (r + k) (s1 + k) j c1 m1 = Some (m', c)" "changes m1 m' (r + k) j" "unat c \<le> 1"
      "mpn_val m' (r + k) j + unat c1 = mpn_val m1 (s1 + k) j + \<beta> ^ j * unat c"
      using mpn_sub_1_correct [OF n(2), of "r + k" m1 "s1 + k" c1] assms n changes_length [OF m1(2)] by auto
    have "mpn_val m1 (s1 + k) j = mpn_val m (s1 + k) j"
      using assms(8) n by (intro changes_val [OF m1(2)]) auto
    moreover have "mpn_val m' r k = mpn_val m1 r k" by (rule changes_val [OF m'(2)]) simp
    moreover have "\<beta> ^ k * mpn_val m' (r + k) j + \<beta> ^ k * unat c1 = \<beta> ^ k * mpn_val m1 (s1 + k) j + \<beta> ^ (k + j) * unat c"
      using arg_cong [OF m'(4), of "\<lambda>x. \<beta> ^ k * x"] by (simp add: distrib_left power_add)
    ultimately have "mpn_val m' r n + mpn_val m s2 k = mpn_val m s1 n + \<beta> ^ n * unat c"
      using m1(4) unfolding n(1) mpn_val_split by simp
    moreover have "changes m m' r n" using changes_comp [OF m1(2) m'(2)] n by simp
    ultimately show ?thesis using m1(1) m'(1,3) False j_def [symmetric] by (intro exI [of _ m'] exI [of _ c]) (simp add: mpn_sub_def)
  qed
qed

lemma lshift_loop_correct:
  assumes c: "0 < c" "c < 64"
  shows "w + Suc i \<le> length m \<Longrightarrow> u + i \<le> length m \<Longrightarrow> u \<le> w \<or> w + Suc i \<le> u \<Longrightarrow>
     \<exists>m'. lshift_loop w u c (64 - c) high i m = Some m' \<and> changes m m' w (Suc i) \<and>
       mpn_val m' w (Suc i) = 2 ^ c * mpn_val m u i + \<beta> ^ i * unat (push_bit c high)"
proof (induction i arbitrary: m high)
  case 0
  then show ?case using changes_update [of m w] by (simp add: mem_simps)
next
  case (Suc i)
  let ?low = "m ! (u + i)"
  let ?x = "push_bit c high OR drop_bit (64 - c) ?low"
  let ?m = "m[w + Suc i := ?x]"
  obtain m' where m': "lshift_loop w u c (64 - c) ?low i ?m = Some m'" "changes ?m m' w (Suc i)"
    "mpn_val m' w (Suc i) = 2 ^ c * mpn_val ?m u i + \<beta> ^ i * unat (push_bit c ?low)"
    using Suc.IH [of ?m ?low] Suc.prems by auto
  have "mpn_val ?m u i = mpn_val m u i" using Suc.prems by (intro changes_val [OF changes_update]) auto
  moreover have "m' ! (w + Suc i) = ?x" using changes_nth [OF m'(2), of "w + Suc i"] Suc.prems by simp
  ultimately have "mpn_val m' w (Suc (Suc i)) =
    2 ^ c * mpn_val m u i + \<beta> ^ i * (unat (push_bit c ?low) + \<beta> * (unat (push_bit c high) + unat (drop_bit (64 - c) ?low)))"
    by (simp add: mpn_val_snoc [of m' w "Suc i"] m'(3) unat_funnel [OF c] algebra_simps)
  also have "\<dots> = 2 ^ c * mpn_val m u i + \<beta> ^ i * (unat (push_bit c ?low) + \<beta> * unat (drop_bit (64 - c) ?low)) +
    \<beta> ^ Suc i * unat (push_bit c high)" by (simp add: algebra_simps)
  also have "\<dots> = 2 ^ c * mpn_val m u i + \<beta> ^ i * (2 ^ c * unat ?low) + \<beta> ^ Suc i * unat (push_bit c high)"
    using shift_split [of c ?low] c by simp
  also have "\<dots> = 2 ^ c * mpn_val m u (Suc i) + \<beta> ^ Suc i * unat (push_bit c high)"
    by (simp add: mpn_val_snoc algebra_simps)
  finally have "mpn_val m' w (Suc (Suc i)) = 2 ^ c * mpn_val m u (Suc i) + \<beta> ^ Suc i * unat (push_bit c high)" .
  moreover have "changes m m' w (Suc (Suc i))" using changes_comp [OF changes_update m'(2)] by simp
  ultimately show ?case using m'(1) Suc.prems by (simp add: mem_simps)
qed

lemma mpn_lshift_correct:
  assumes "0 < c" "c < 64" "0 < n" "w + n \<le> length m" "u + n \<le> length m" "u \<le> w \<or> w + n \<le> u"
  shows "\<exists>m' x. mpn_lshift w u n c m = Some (m', x) \<and> changes m m' w n \<and>
    mpn_val m' w n + \<beta> ^ n * unat x = 2 ^ c * mpn_val m u n"
proof -
  obtain i where n: "n = Suc i" using assms(3) by (cases n) auto
  let ?x = "m ! (u + i)"
  obtain m' where m': "lshift_loop w u c (64 - c) ?x i m = Some m'" "changes m m' w (Suc i)"
    "mpn_val m' w (Suc i) = 2 ^ c * mpn_val m u i + \<beta> ^ i * unat (push_bit c ?x)"
    using lshift_loop_correct [OF assms(1,2), of w i m u ?x] assms n by auto
  have "mpn_val m' w n + \<beta> ^ n * unat (drop_bit (64 - c) ?x) =
    2 ^ c * mpn_val m u i + \<beta> ^ i * (unat (push_bit c ?x) + \<beta> * unat (drop_bit (64 - c) ?x))"
    unfolding n m'(3) by (simp add: algebra_simps)
  also have "\<dots> = 2 ^ c * mpn_val m u n" using shift_split [of c ?x] assms(2) by (simp add: n mpn_val_snoc algebra_simps)
  finally show ?thesis using m'(1,2) assms n
    by (intro exI [of _ m'] exI [of _ "drop_bit (64 - c) ?x"]) (simp add: mpn_lshift_def Let_def mem_simps)
qed

text \<open>Shifting a number right by part of a limb.\<close>

lemma shift_right_cons:
  assumes "0 < c" "c < 64"
  shows "(l + \<beta> * (unat h + \<beta> * R)) div 2 ^ c =
    l div 2 ^ c + unat (push_bit (64 - c) h :: limb) + \<beta> * ((unat h + \<beta> * R) div 2 ^ c)"
proof -
  define p q where pq: "p = (2 :: nat) ^ c" "q = (2 :: nat) ^ (64 - c)"
  have b: "\<beta> = p * q" and p: "0 < p" using beta_split [of c] assms by (simp_all add: pq)
  define Y where "Y = unat h + \<beta> * R"
  have q: "unat (push_bit (64 - c) h) = q * (unat h mod p)"
    using unat_push_high [of c h] assms by (simp add: pq)
  have "Y mod p = unat h mod p" by (simp add: Y_def b mult.assoc)
  then have "q * Y = q * (p * (Y div p)) + q * (unat h mod p)"
    by (metis distrib_left mult_div_mod_eq)
  moreover have "(l + p * q * Y) div p = l div p + q * Y" using p by (simp add: mult.assoc)
  ultimately show ?thesis unfolding pq [symmetric] Y_def [symmetric] q unfolding b by (simp add: mult.assoc mult.left_commute)
qed

lemma rshift_loop_correct:
  assumes c: "0 < c" "c < 64"
  shows "w + Suc n \<le> length m \<Longrightarrow> u + n \<le> length m \<Longrightarrow> w < u \<or> u + n \<le> w \<Longrightarrow>
     \<exists>m'. rshift_loop w u c (64 - c) low n m = Some m' \<and> changes m m' w (Suc n) \<and>
       mpn_val m' w (Suc n) = (unat low + \<beta> * mpn_val m u n) div 2 ^ c"
proof (induction n arbitrary: m w u low)
  case 0
  then show ?case using changes_update [of m w] by (simp add: mem_simps unat_drop_bit)
next
  case (Suc n)
  let ?high = "m ! u"
  let ?x = "drop_bit c low OR push_bit (64 - c) ?high"
  let ?m = "m[w := ?x]"
  obtain m' where m': "rshift_loop (w + 1) (u + 1) c (64 - c) ?high n ?m = Some m'" "changes ?m m' (w + 1) (Suc n)"
    "mpn_val m' (w + 1) (Suc n) = (unat ?high + \<beta> * mpn_val ?m (u + 1) n) div 2 ^ c"
    using Suc.IH [of "w + 1" ?m "u + 1" ?high] Suc.prems by auto
  have "mpn_val ?m (u + 1) n = mpn_val m (u + 1) n" using Suc.prems by (intro changes_val [OF changes_update]) auto
  moreover have "unat ?x = unat low div 2 ^ c + unat (push_bit (64 - c) ?high)"
    using unat_funnel [of "64 - c" ?high low] c by (simp add: or.commute unat_drop_bit)
  ultimately have "mpn_val m' w (Suc (Suc n)) = (unat low + \<beta> * mpn_val m u (Suc n)) div 2 ^ c"
    using write_first(2) [OF m'(2)] Suc.prems m'(3) shift_right_cons [OF c, of "unat low" ?high] by (simp add: mpn_val_Cons)
  moreover have "changes m m' w (Suc (Suc n))" using write_first(1) [OF m'(2)] Suc.prems by simp
  ultimately show ?case using m'(1) Suc.prems by (simp add: mem_simps)
qed

lemma mpn_rshift_correct:
  assumes "0 < c" "c < 64" "0 < n" "w + n \<le> length m" "u + n \<le> length m" "ahead w u n"
  shows "\<exists>m' x. mpn_rshift w u n c m = Some (m', x) \<and> changes m m' w n \<and>
    mpn_val m' w n = mpn_val m u n div 2 ^ c \<and> unat x = mpn_val m u n mod 2 ^ c * 2 ^ (64 - c)"
proof -
  obtain i where n: "n = Suc i" using assms(3) by (cases n) auto
  obtain m' where m': "rshift_loop w (u + 1) c (64 - c) (m ! u) i m = Some m'" "changes m m' w (Suc i)"
    "mpn_val m' w (Suc i) = (unat (m ! u) + \<beta> * mpn_val m (u + 1) i) div 2 ^ c"
    using rshift_loop_correct [OF assms(1,2), of w i m "u + 1" "m ! u"] assms n by (auto simp: ahead_def)
  have b: "\<beta> = 2 ^ c * 2 ^ (64 - c)" using beta_split [of c] assms(2) by simp
  have "unat (push_bit (64 - c) (m ! u)) = mpn_val m u n mod 2 ^ c * 2 ^ (64 - c)"
  proof -
    have "mpn_val m u n mod 2 ^ c = unat (m ! u) mod 2 ^ c" by (simp add: n mpn_val_Cons b mult.assoc)
    then show ?thesis using unat_push_high [of c] assms(2) by simp
  qed
  moreover have "mpn_rshift w u n c m = Some (m', push_bit (64 - c) (m ! u))"
    using m'(1) assms n by (simp add: mpn_rshift_def Let_def mem_simps)
  moreover have "mpn_val m' w n = mpn_val m u n div 2 ^ c" using m'(3) by (simp add: n mpn_val_Cons [of m])
  ultimately show ?thesis using m'(2) n by blast
qed

subsection \<open>Properties\<close>

text \<open>
  C40: subtracting undoes adding.  \<open>mpn_add_n\<close> and \<open>mpn_sub_n\<close> work in place and on overlapping
  operands whose limbs come at or after those of the result; \<open>mpn_sub_n\<close> applied to a sum gives
  back the first operand, and it borrows exactly when the addition carried.
\<close>

theorem mpn_sub_n_undoes_add_n:
  assumes "0 < n" "r + n \<le> length m" "s + n \<le> length m" "r + n \<le> s \<or> s + n \<le> r"
  shows "\<exists>m' m'' c. mpn_add_n r r s n m = Some (m', c) \<and> mpn_sub_n r r s n m' = Some (m'', c) \<and> unat c \<le> 1 \<and>
    changes m m'' r n \<and> mpn_val m'' r n = mpn_val m r n"
proof -
  have ah: "ahead r s n" using assms(4) by (auto simp: ahead_def)
  obtain m' c where m': "mpn_add_n r r s n m = Some (m', c)" "changes m m' r n" "unat c \<le> 1"
    "mpn_val m' r n + \<beta> ^ n * unat c = mpn_val m r n + mpn_val m s n"
    using mpn_add_n_correct [OF assms(1,2,2,3) ahead_refl ah] by blast
  have len: "length m' = length m" using changes_length [OF m'(2)] .
  obtain m'' b where m'': "mpn_sub_n r r s n m' = Some (m'', b)" "changes m' m'' r n" "unat b \<le> 1"
    "mpn_val m'' r n + mpn_val m' s n = mpn_val m' r n + \<beta> ^ n * unat b"
    using mpn_sub_n_correct [of n r m' r s] assms len ah by auto
  have "mpn_val m' s n = mpn_val m s n" using assms(4) by (intro changes_val [OF m'(2)]) auto
  then have eq: "mpn_val m'' r n + \<beta> ^ n * unat c = mpn_val m r n + \<beta> ^ n * unat b" using m'(4) m''(4) by simp
  have "mpn_val m'' r n < \<beta> ^ n" "mpn_val m r n < \<beta> ^ n" by (rule mpn_val_less)+
  then have "unat c = unat b" using eq m'(3) m''(3) by (cases "unat c"; cases "unat b") auto
  then have "c = b" "mpn_val m'' r n = mpn_val m r n" using eq by (simp_all add: word_unat_eq_iff)
  then show ?thesis using m' m'' changes_trans [OF m'(2) m''(2)] by blast
qed

theorem mpn_sub_n_undoes_add_n_witness:
  "\<exists>m' m'' c. mpn_add_n 0 0 2 2 [- 1, 5, 3, - 1] = Some (m', c) \<and> mpn_sub_n 0 0 2 2 m' = Some (m'', c) \<and> unat c \<le> 1 \<and>
     changes [- 1, 5, 3, - 1] m'' 0 2 \<and> mpn_val m'' 0 2 = mpn_val [- 1, 5, 3, - 1] 0 2"
  by (rule mpn_sub_n_undoes_add_n) simp_all

text \<open>
  Shifting to the left and back: \<open>mpn_rshift\<close> after \<open>mpn_lshift\<close> by the same number of bits,
  in place, gives back the limbs without the bits that were shifted out, which \<open>mpn_lshift\<close>
  returns; the bits shifted out to the right are zero.
\<close>

lemma mpn_rshift_undoes_lshift:
  assumes "0 < cnt" "cnt < 64" "0 < n" "p + n \<le> length m"
  shows "\<exists>m' m'' x. mpn_lshift p p n cnt m = Some (m', x) \<and> mpn_rshift p p n cnt m' = Some (m'', 0) \<and> changes m m'' p n \<and>
    2 ^ cnt * mpn_val m p n = 2 ^ cnt * mpn_val m'' p n + \<beta> ^ n * unat x"
proof -
  obtain m' x where m': "mpn_lshift p p n cnt m = Some (m', x)" "changes m m' p n"
    "mpn_val m' p n + \<beta> ^ n * unat x = 2 ^ cnt * mpn_val m p n"
    using mpn_lshift_correct [OF assms(1-3) assms(4,4)] by blast
  obtain m'' y where m'': "mpn_rshift p p n cnt m' = Some (m'', y)" "changes m' m'' p n"
    "mpn_val m'' p n = mpn_val m' p n div 2 ^ cnt" "unat y = mpn_val m' p n mod 2 ^ cnt * 2 ^ (64 - cnt)"
    using mpn_rshift_correct [OF assms(1-3), of p m' p] assms(4) changes_length [OF m'(2)] by auto
  have b: "\<beta> = 2 ^ cnt * 2 ^ (64 - cnt)" using beta_split [of cnt] assms(2) by simp
  have "2 ^ cnt dvd \<beta>" unfolding b by simp
  also have "\<beta> dvd \<beta> ^ n" using assms(3) by (intro dvd_power) simp
  finally have "2 ^ cnt dvd \<beta> ^ n * unat x" by simp
  moreover have "2 ^ cnt dvd mpn_val m' p n + \<beta> ^ n * unat x" unfolding m'(3) by simp
  ultimately have "2 ^ cnt dvd mpn_val m' p n" by (simp only: dvd_add_left_iff)
  then have "unat y = 0" "2 ^ cnt * mpn_val m'' p n = mpn_val m' p n" using m''(3,4) by auto
  then have "y = 0" "2 ^ cnt * mpn_val m p n = 2 ^ cnt * mpn_val m'' p n + \<beta> ^ n * unat x" using m'(3) by (simp_all add: unat_eq_zero)
  then show ?thesis using m'(1) m''(1) changes_trans [OF m'(2) m''(2)] by blast
qed

end
