(* ===== verification/Mpn_Mul.thy ===== *)
theory Mpn_Mul
  imports Mpn
begin

text \<open>
  Multiplication of numbers made of limbs: \<^verbatim>\<open>src/original/stdlib/mul_n.c\<close> (the schoolbook method
  for small sizes, Karatsuba's method for large ones, and squaring) and \<^verbatim>\<open>src/original/stdlib/mul.c\<close>.

  Temporary space is allocated behind the memory in use, and what it holds first is a parameter.
\<close>

subsection \<open>The routines\<close>

definition KARATSUBA_THRESHOLD :: nat where
  "KARATSUBA_THRESHOLD = 32"

text \<open>The product with the first limb is stored, the products with the other limbs are added.\<close>

definition mul_first :: "nat \<Rightarrow> nat \<Rightarrow> nat \<Rightarrow> limb \<Rightarrow> mem \<Rightarrow> (mem \<times> limb) option" where
  "mul_first prodp up sz v_limb m =
     (if v_limb \<le> 1 then
        do { m \<leftarrow> (if v_limb = 1 then MPN_COPY_INCR prodp up sz m else MPN_ZERO prodp sz m);
             Some (m, 0) }
      else mpn_mul_1 prodp up sz v_limb m)"

definition mul_row :: "nat \<Rightarrow> nat \<Rightarrow> nat \<Rightarrow> limb \<Rightarrow> mem \<Rightarrow> (mem \<times> limb) option" where
  "mul_row prodp up sz v_limb m =
     (if v_limb \<le> 1 then (if v_limb = 1 then mpn_add_n prodp prodp up sz m else Some (m, 0))
      else mpn_addmul_1 prodp up sz v_limb m)"

fun mul_rows :: "nat \<Rightarrow> nat \<Rightarrow> nat \<Rightarrow> nat \<Rightarrow> nat \<Rightarrow> limb \<Rightarrow> mem \<Rightarrow> (mem \<times> limb) option" where
  "mul_rows prodp up sz vp 0 cy_limb m = Some (m, cy_limb)"
| "mul_rows prodp up sz vp (Suc k) cy_limb m =
     do { v_limb \<leftarrow> rd m vp;
          (m, cy_limb) \<leftarrow> mul_row prodp up sz v_limb m;
          m \<leftarrow> wr m (prodp + sz) cy_limb;
          mul_rows (prodp + 1) up sz (vp + 1) k cy_limb m }"

definition impn_mul_n_basecase :: "nat \<Rightarrow> nat \<Rightarrow> nat \<Rightarrow> nat \<Rightarrow> mem \<Rightarrow> mem option" where
  "impn_mul_n_basecase prodp up vp sz m =
     do { v_limb \<leftarrow> rd m vp;
          (m, cy_limb) \<leftarrow> mul_first prodp up sz v_limb m;
          m \<leftarrow> wr m (prodp + sz) cy_limb;
          (m, cy_limb) \<leftarrow> mul_rows (prodp + 1) up sz (vp + 1) (sz - 1) cy_limb m;
          Some m }"

text \<open>The absolute difference of two numbers, and whether the first is the smaller one.\<close>

definition sub_abs :: "nat \<Rightarrow> nat \<Rightarrow> nat \<Rightarrow> nat \<Rightarrow> mem \<Rightarrow> (mem \<times> bool) option" where
  "sub_abs dst a b n m =
     do { c \<leftarrow> mpn_cmp a b n m;
          if 0 \<le> c then do { (m, cy) \<leftarrow> mpn_sub_n dst a b n m; Some (m, False) }
          else do { (m, cy) \<leftarrow> mpn_sub_n dst b a n m; Some (m, True) } }"

definition add_product_H :: "nat \<Rightarrow> nat \<Rightarrow> nat \<Rightarrow> mem \<Rightarrow> (mem \<times> limb) option" where
  "add_product_H prodp sz hsize m =
     do { m \<leftarrow> MPN_COPY_INCR (prodp + hsize) (prodp + sz) hsize m;
          mpn_add_n (prodp + sz) (prodp + sz) (prodp + sz + hsize) hsize m }"

definition add_product_M :: "bool \<Rightarrow> nat \<Rightarrow> nat \<Rightarrow> nat \<Rightarrow> nat \<Rightarrow> limb \<Rightarrow> mem \<Rightarrow> (mem \<times> limb) option" where
  "add_product_M negflg prodp sz hsize tspace cy m =
     (if negflg
      then do { (m, c) \<leftarrow> mpn_sub_n (prodp + hsize) (prodp + hsize) tspace sz m; Some (m, cy - c) }
      else do { (m, c) \<leftarrow> mpn_add_n (prodp + hsize) (prodp + hsize) tspace sz m; Some (m, cy + c) })"

text \<open>The product \<open>L\<close> is added twice, first one half of the result higher than the second time.\<close>

definition add_product_L_high :: "nat \<Rightarrow> nat \<Rightarrow> nat \<Rightarrow> nat \<Rightarrow> limb \<Rightarrow> mem \<Rightarrow> mem option" where
  "add_product_L_high prodp sz hsize tspace cy m =
     do { (m, c) \<leftarrow> mpn_add_n (prodp + hsize) (prodp + hsize) tspace sz m;
          let cy = cy + c;
          if cy \<noteq> 0
          then do { (m, _) \<leftarrow> mpn_add_1 (prodp + hsize + sz) (prodp + hsize + sz) hsize cy m; Some m }
          else Some m }"

definition add_product_L_low :: "nat \<Rightarrow> nat \<Rightarrow> nat \<Rightarrow> nat \<Rightarrow> mem \<Rightarrow> mem option" where
  "add_product_L_low prodp sz hsize tspace m =
     do { m \<leftarrow> MPN_COPY_INCR prodp tspace hsize m;
          (m, cy) \<leftarrow> mpn_add_n (prodp + hsize) (prodp + hsize) (tspace + hsize) hsize m;
          if cy \<noteq> 0 then do { (m, _) \<leftarrow> mpn_add_1 (prodp + sz) (prodp + sz) sz 1 m; Some m } else Some m }"

definition add_product_L :: "nat \<Rightarrow> nat \<Rightarrow> nat \<Rightarrow> nat \<Rightarrow> limb \<Rightarrow> mem \<Rightarrow> mem option" where
  "add_product_L prodp sz hsize tspace cy m =
     do { m \<leftarrow> add_product_L_high prodp sz hsize tspace cy m;
          add_product_L_low prodp sz hsize tspace m }"

text \<open>The conditionals around the recursive calls are the macro \<open>MPN_MUL_N_RECURSE\<close>.\<close>

partial_function (option) impn_mul_n :: "nat \<Rightarrow> nat \<Rightarrow> nat \<Rightarrow> nat \<Rightarrow> nat \<Rightarrow> mem \<Rightarrow> mem option" where
  "impn_mul_n prodp up vp sz tspace m =
     (if odd sz then
        do { let esize = sz - 1;
             m \<leftarrow> (if esize < KARATSUBA_THRESHOLD then impn_mul_n_basecase prodp up vp esize m
                   else impn_mul_n prodp up vp esize tspace m);
             v \<leftarrow> rd m (vp + esize);
             (m, cy_limb) \<leftarrow> mpn_addmul_1 (prodp + esize) up esize v m;
             m \<leftarrow> wr m (prodp + esize + esize) cy_limb;
             u \<leftarrow> rd m (up + esize);
             (m, cy_limb) \<leftarrow> mpn_addmul_1 (prodp + esize) vp sz u m;
             wr m (prodp + esize + sz) cy_limb }
      else
        do { let hsize = sz div 2;
             m \<leftarrow> (if hsize < KARATSUBA_THRESHOLD then impn_mul_n_basecase (prodp + sz) (up + hsize) (vp + hsize) hsize m
                   else impn_mul_n (prodp + sz) (up + hsize) (vp + hsize) hsize tspace m);
             (m, uneg) \<leftarrow> sub_abs prodp (up + hsize) up hsize m;
             (m, vneg) \<leftarrow> sub_abs (prodp + hsize) (vp + hsize) vp hsize m;
             let negflg = (if vneg then uneg else \<not> uneg);
             m \<leftarrow> (if hsize < KARATSUBA_THRESHOLD then impn_mul_n_basecase tspace prodp (prodp + hsize) hsize m
                   else impn_mul_n tspace prodp (prodp + hsize) hsize (tspace + sz) m);
             (m, cy) \<leftarrow> add_product_H prodp sz hsize m;
             (m, cy) \<leftarrow> add_product_M negflg prodp sz hsize tspace cy m;
             m \<leftarrow> (if hsize < KARATSUBA_THRESHOLD then impn_mul_n_basecase tspace up vp hsize m
                   else impn_mul_n tspace up vp hsize (tspace + sz) m);
             add_product_L prodp sz hsize tspace cy m })"

declare impn_mul_n.simps [code]

definition impn_sqr_n_basecase :: "nat \<Rightarrow> nat \<Rightarrow> nat \<Rightarrow> mem \<Rightarrow> mem option" where
  "impn_sqr_n_basecase prodp up sz m =
     do { v_limb \<leftarrow> rd m up;
          (m, cy_limb) \<leftarrow> mul_first prodp up sz v_limb m;
          m \<leftarrow> wr m (prodp + sz) cy_limb;
          (m, cy_limb) \<leftarrow> mul_rows (prodp + 1) up sz (up + 1) (sz - 1) cy_limb m;
          Some m }"

partial_function (option) impn_sqr_n :: "nat \<Rightarrow> nat \<Rightarrow> nat \<Rightarrow> nat \<Rightarrow> mem \<Rightarrow> mem option" where
  "impn_sqr_n prodp up sz tspace m =
     (if odd sz then
        do { let esize = sz - 1;
             m \<leftarrow> (if esize < KARATSUBA_THRESHOLD then impn_sqr_n_basecase prodp up esize m
                   else impn_sqr_n prodp up esize tspace m);
             v \<leftarrow> rd m (up + esize);
             (m, cy_limb) \<leftarrow> mpn_addmul_1 (prodp + esize) up esize v m;
             m \<leftarrow> wr m (prodp + esize + esize) cy_limb;
             u \<leftarrow> rd m (up + esize);
             (m, cy_limb) \<leftarrow> mpn_addmul_1 (prodp + esize) up sz u m;
             wr m (prodp + esize + sz) cy_limb }
      else
        do { let hsize = sz div 2;
             m \<leftarrow> (if hsize < KARATSUBA_THRESHOLD then impn_sqr_n_basecase (prodp + sz) (up + hsize) hsize m
                   else impn_sqr_n (prodp + sz) (up + hsize) hsize tspace m);
             (m, uneg) \<leftarrow> sub_abs prodp (up + hsize) up hsize m;
             m \<leftarrow> (if hsize < KARATSUBA_THRESHOLD then impn_sqr_n_basecase tspace prodp hsize m
                   else impn_sqr_n tspace prodp hsize (tspace + sz) m);
             (m, cy) \<leftarrow> add_product_H prodp sz hsize m;
             (m, cy) \<leftarrow> add_product_M True prodp sz hsize tspace cy m;
             m \<leftarrow> (if hsize < KARATSUBA_THRESHOLD then impn_sqr_n_basecase tspace up hsize m
                   else impn_sqr_n tspace up hsize (tspace + sz) m);
             add_product_L prodp sz hsize tspace cy m })"

declare impn_sqr_n.simps [code]

text \<open>
  \<open>TMP_ALLOC\<close> is \<open>alloca\<close>: it extends the memory, and what it allocated is gone when the function
  returns, at \<open>TMP_FREE\<close>; \<open>garbage\<close> tells what a fresh cell holds.
\<close>

definition TMP_ALLOC :: "(nat \<Rightarrow> limb) \<Rightarrow> nat \<Rightarrow> mem \<Rightarrow> mem \<times> nat" where
  "TMP_ALLOC garbage n m = (m @ map garbage [length m..<length m + n], length m)"

definition TMP_FREE :: "nat \<Rightarrow> mem \<Rightarrow> mem" where
  "TMP_FREE marker m = take marker m"

definition mpn_mul_n :: "(nat \<Rightarrow> limb) \<Rightarrow> nat \<Rightarrow> nat \<Rightarrow> nat \<Rightarrow> nat \<Rightarrow> mem \<Rightarrow> mem option" where
  "mpn_mul_n garbage prodp up vp sz m =
     do { let marker = length m;
          m \<leftarrow> (if up = vp then
                  (if sz < KARATSUBA_THRESHOLD then impn_sqr_n_basecase prodp up sz m
                   else do { let (m, tspace) = TMP_ALLOC garbage (2 * sz) m; impn_sqr_n prodp up sz tspace m })
                else
                  (if sz < KARATSUBA_THRESHOLD then impn_mul_n_basecase prodp up vp sz m
                   else do { let (m, tspace) = TMP_ALLOC garbage (2 * sz) m; impn_mul_n prodp up vp sz tspace m }));
          Some (TMP_FREE marker m) }"

text \<open>The loop of \<open>mpn_mul\<close> over the pieces of \<open>up\<close> that have \<open>vsize\<close> limbs.\<close>

partial_function (option) mul_pieces ::
  "nat \<Rightarrow> nat \<Rightarrow> nat \<Rightarrow> nat \<Rightarrow> nat \<Rightarrow> nat \<Rightarrow> nat \<Rightarrow> mem \<Rightarrow> (mem \<times> nat \<times> nat \<times> nat) option" where
  "mul_pieces prodp up usize vp vsize tspace tp m =
     do { m \<leftarrow> (if vsize < KARATSUBA_THRESHOLD then impn_mul_n_basecase tp up vp vsize m
                else impn_mul_n tp up vp vsize tspace m);
          (m, cy) \<leftarrow> mpn_add_n prodp prodp tp vsize m;
          (m, _) \<leftarrow> mpn_add_1 (prodp + vsize) (tp + vsize) vsize cy m;
          let prodp = prodp + vsize; let up = up + vsize; let usize = usize - vsize;
          if vsize \<le> usize then mul_pieces prodp up usize vp vsize tspace tp m
          else Some (m, prodp, up, usize) }"

declare mul_pieces.simps [code]

partial_function (option) mpn_mul ::
  "(nat \<Rightarrow> limb) \<Rightarrow> nat \<Rightarrow> nat \<Rightarrow> nat \<Rightarrow> nat \<Rightarrow> nat \<Rightarrow> mem \<Rightarrow> (mem \<times> limb) option" where
  "mpn_mul garbage prodp up usize vp vsize m =
     (if vsize < KARATSUBA_THRESHOLD then
        if vsize = 0 then Some (m, 0)
        else do { v_limb \<leftarrow> rd m vp;
                  (m, cy_limb) \<leftarrow> mul_first prodp up usize v_limb m;
                  m \<leftarrow> wr m (prodp + usize) cy_limb;
                  mul_rows (prodp + 1) up usize (vp + 1) (vsize - 1) cy_limb m }
      else
        do { let prod_endp = prodp + usize + vsize - 1;
             let marker = length m;
             let (m, tspace) = TMP_ALLOC garbage (2 * vsize) m;
             m \<leftarrow> (if vsize < KARATSUBA_THRESHOLD then impn_mul_n_basecase prodp up vp vsize m
                   else impn_mul_n prodp up vp vsize tspace m);
             let prodp = prodp + vsize; let up = up + vsize; let usize = usize - vsize;
             (m, prodp, up, usize) \<leftarrow>
               (if vsize \<le> usize then
                  do { let (m, tp) = TMP_ALLOC garbage (2 * vsize) m;
                       mul_pieces prodp up usize vp vsize tspace tp m }
                else Some (m, prodp, up, usize));
             m \<leftarrow> (if usize \<noteq> 0 then
                     do { (m, _) \<leftarrow> mpn_mul garbage tspace vp vsize up usize m;
                          (m, cy) \<leftarrow> mpn_add_n prodp prodp tspace vsize m;
                          (m, _) \<leftarrow> mpn_add_1 (prodp + vsize) (tspace + vsize) usize cy m;
                          Some m }
                   else Some m);
             let m = TMP_FREE marker m;
             x \<leftarrow> rd m prod_endp;
             Some (m, x) })"

declare mpn_mul.simps [code]

subsection \<open>The schoolbook method\<close>

definition apart :: "nat \<Rightarrow> nat \<Rightarrow> nat \<Rightarrow> nat \<Rightarrow> bool" where
  "apart p n q k \<longleftrightarrow> p + n \<le> q \<or> q + k \<le> p"

lemma apart_ahead: "apart p n q k \<Longrightarrow> j \<le> n \<Longrightarrow> j \<le> k \<Longrightarrow> ahead p q j"
  by (auto simp: apart_def ahead_def)

lemma limb_cases: "(v :: limb) = 0 \<or> v = 1 \<or> \<not> v \<le> 1"
  by (auto simp: word_le_nat_alt word_unat_eq_iff)

lemma mul_first_correct:
  assumes "0 < n" "p + n \<le> length m" "u + n \<le> length m" "apart p n u n"
  shows "\<exists>m' c. mul_first p u n v m = Some (m', c) \<and> changes m m' p n \<and>
    mpn_val m' p n + \<beta> ^ n * unat c = mpn_val m u n * unat v"
proof -
  have a: "ahead p u n" using assms(4) by (rule apart_ahead) simp_all
  consider "v = 0" | "v = 1" | "\<not> v \<le> 1" using limb_cases by blast
  then show ?thesis
  proof cases
    case 1
    with MPN_ZERO_correct [OF assms(2)] show ?thesis by (auto simp: mul_first_def)
  next
    case 2
    with MPN_COPY_INCR_correct [OF assms(2,3) a] show ?thesis by (auto simp: mul_first_def copied_val)
  next
    case 3
    with mpn_mul_1_correct [OF assms(1-3) a, of v] show ?thesis by (simp add: mul_first_def)
  qed
qed

lemma mul_row_correct:
  assumes "0 < n" "p + n \<le> length m" "u + n \<le> length m" "apart p n u n"
  shows "\<exists>m' c. mul_row p u n v m = Some (m', c) \<and> changes m m' p n \<and>
    mpn_val m' p n + \<beta> ^ n * unat c = mpn_val m p n + mpn_val m u n * unat v"
proof -
  have a: "ahead p u n" using assms(4) by (rule apart_ahead) simp_all
  consider "v = 0" | "v = 1" | "\<not> v \<le> 1" using limb_cases by blast
  then show ?thesis
  proof cases
    case 1
    then show ?thesis by (simp add: mul_row_def)
  next
    case 2
    with mpn_add_n_correct [OF assms(1,2,2,3) ahead_refl a] show ?thesis by (auto simp: mul_row_def)
  next
    case 3
    with mpn_addmul_1_correct [OF assms(1-3) a, of v] show ?thesis by (simp add: mul_row_def)
  qed
qed

text \<open>Storing the carry above the limbs of a result.\<close>

lemma store_carry:
  assumes "changes m m' p n" "p + n < length m" "mpn_val m' p n + \<beta> ^ n * unat c = x"
  shows "changes m (m'[p + n := c]) p (Suc n)" "mpn_val (m'[p + n := c]) p (Suc n) = x"
  using changes_Suc [OF assms(1)] mpn_val_update_snoc [of p n m' c] changes_length [OF assms(1)] assms(2,3)
  by (simp_all add: mult.commute)

lemma mul_rows_correct:
  assumes "0 < n"
  shows "p + n + k \<le> length m \<Longrightarrow> u + n \<le> length m \<Longrightarrow> v + k \<le> length m \<Longrightarrow>
     apart p (n + k) u n \<Longrightarrow> apart p (n + k) v k \<Longrightarrow>
     \<exists>m' c'. mul_rows p u n v k c m = Some (m', c') \<and> changes m m' p (n + k) \<and>
       mpn_val m' p (n + k) = mpn_val m p n + mpn_val m u n * mpn_val m v k \<and>
       c' = (if k = 0 then c else m' ! (p + n + k - 1))"
proof (induction k arbitrary: p v c m)
  case (Suc k)
  have ap: "apart p n u n" using Suc.prems(4) by (auto simp: apart_def)
  obtain m1 c1 where m1: "mul_row p u n (m ! v) m = Some (m1, c1)" "changes m m1 p n"
    "mpn_val m1 p n + \<beta> ^ n * unat c1 = mpn_val m p n + mpn_val m u n * unat (m ! v)"
    using mul_row_correct [OF assms _ _ ap, of m "m ! v"] Suc.prems by auto
  let ?m = "m1[p + n := c1]"
  have "p + n < length m" using Suc.prems by simp
  note st = store_carry [OF m1(2) this m1(3)]
  have len: "length ?m = length m" using changes_length [OF m1(2)] by simp
  have "apart (p + 1) (n + k) u n" "apart (p + 1) (n + k) (v + 1) k" using Suc.prems(4,5) by (auto simp: apart_def)
  then obtain m' c' where m': "mul_rows (p + 1) u n (v + 1) k c1 ?m = Some (m', c')" "changes ?m m' (p + 1) (n + k)"
    "mpn_val m' (p + 1) (n + k) = mpn_val ?m (p + 1) n + mpn_val ?m u n * mpn_val ?m (v + 1) k"
    "c' = (if k = 0 then c1 else m' ! (p + 1 + n + k - 1))"
    using Suc.IH [of "p + 1" ?m "v + 1" c1] Suc.prems len by auto
  have src: "mpn_val ?m u n = mpn_val m u n" "mpn_val ?m (v + 1) k = mpn_val m (v + 1) k"
    using Suc.prems(4,5) by (auto intro!: changes_val [OF st(1)] simp: apart_def)
  have "m' ! p = ?m ! p" using changes_nth [OF m'(2)] by simp
  then have "mpn_val m' p (n + Suc k) = mpn_val ?m p (Suc n) + \<beta> * (mpn_val m u n * mpn_val m (v + 1) k)"
    using mpn_val_Cons [of m' p "n + k"] m'(3) [unfolded src] by (simp add: mpn_val_Cons distrib_left)
  also have "\<dots> = mpn_val m p n + mpn_val m u n * mpn_val m v (Suc k)"
    unfolding st(2) by (simp add: mpn_val_Cons algebra_simps)
  finally have "mpn_val m' p (n + Suc k) = mpn_val m p n + mpn_val m u n * mpn_val m v (Suc k)" .
  moreover have "changes m m' p (n + Suc k)" using changes_comp [OF st(1) m'(2)] by simp
  moreover have "c' = m' ! (p + n + Suc k - 1)"
    using m'(1,4) changes_length [OF m1(2)] Suc.prems by (cases k) auto
  moreover have "mul_rows p u n v (Suc k) c m = Some (m', c')"
    using m'(1) m1(1) Suc.prems changes_length [OF m1(2)] by (simp add: mem_simps)
  ultimately show ?case by auto
qed simp

lemma mul_schoolbook:
  assumes "0 < n" "0 < k" "p + n + k \<le> length m" "u + n \<le> length m" "v + k \<le> length m"
    "apart p (n + k) u n" "apart p (n + k) v k"
  shows "\<exists>m' c. do { v_limb \<leftarrow> rd m v;
                   (m, cy_limb) \<leftarrow> mul_first p u n v_limb m;
                   m \<leftarrow> wr m (p + n) cy_limb;
                   mul_rows (p + 1) u n (v + 1) (k - 1) cy_limb m } = Some (m', c) \<and>
    changes m m' p (n + k) \<and> mpn_val m' p (n + k) = mpn_val m u n * mpn_val m v k \<and> c = m' ! (p + n + k - 1)"
proof -
  obtain j where k: "k = Suc j" using assms(2) by (cases k) auto
  have ap: "apart p n u n" using assms(6) by (auto simp: apart_def)
  obtain m1 c1 where m1: "mul_first p u n (m ! v) m = Some (m1, c1)" "changes m m1 p n"
    "mpn_val m1 p n + \<beta> ^ n * unat c1 = mpn_val m u n * unat (m ! v)"
    using mul_first_correct [OF assms(1) _ _ ap, of m "m ! v"] assms by auto
  let ?m = "m1[p + n := c1]"
  have "p + n < length m" using assms by simp
  note st = store_carry [OF m1(2) this m1(3)]
  have len: "length ?m = length m" using changes_length [OF m1(2)] by simp
  have "apart (p + 1) (n + j) u n" "apart (p + 1) (n + j) (v + 1) j" using assms(6,7) k by (auto simp: apart_def)
  then obtain m' c' where m': "mul_rows (p + 1) u n (v + 1) j c1 ?m = Some (m', c')" "changes ?m m' (p + 1) (n + j)"
    "mpn_val m' (p + 1) (n + j) = mpn_val ?m (p + 1) n + mpn_val ?m u n * mpn_val ?m (v + 1) j"
    "c' = (if j = 0 then c1 else m' ! (p + 1 + n + j - 1))"
    using mul_rows_correct [OF assms(1), of "p + 1" j ?m u "v + 1" c1] assms len k by auto
  have src: "mpn_val ?m u n = mpn_val m u n" "mpn_val ?m (v + 1) j = mpn_val m (v + 1) j"
    using assms(6,7) k by (auto intro!: changes_val [OF st(1)] simp: apart_def)
  have "m' ! p = ?m ! p" using changes_nth [OF m'(2)] by simp
  then have "mpn_val m' p (n + k) = mpn_val ?m p (Suc n) + \<beta> * (mpn_val m u n * mpn_val m (v + 1) j)"
    using mpn_val_Cons [of m' p "n + j"] m'(3) [unfolded src] by (simp add: k mpn_val_Cons distrib_left)
  also have "\<dots> = mpn_val m u n * mpn_val m v k" unfolding st(2) by (simp add: k mpn_val_Cons algebra_simps)
  finally have "mpn_val m' p (n + k) = mpn_val m u n * mpn_val m v k" .
  moreover have "changes m m' p (n + k)" using changes_comp [OF st(1) m'(2)] k by simp
  moreover have "c' = m' ! (p + n + k - 1)"
    using m'(1,4) changes_length [OF m1(2)] assms k by (cases j) auto
  ultimately show ?thesis
    using m'(1) m1(1) assms changes_length [OF m1(2)] k by (intro exI [of _ m'] exI [of _ c']) (simp add: mem_simps)
qed

lemma impn_mul_n_basecase_correct:
  assumes "0 < n" "p + 2 * n \<le> length m" "u + n \<le> length m" "v + n \<le> length m" "apart p (2 * n) u n" "apart p (2 * n) v n"
  shows "\<exists>m'. impn_mul_n_basecase p u v n m = Some m' \<and> changes m m' p (2 * n) \<and>
    mpn_val m' p (2 * n) = mpn_val m u n * mpn_val m v n"
  using mul_schoolbook [of n n p m u v] assms unfolding impn_mul_n_basecase_def mult_2 add.assoc
  by (auto simp: bind_eq_Some_conv split: prod.splits)

subsection \<open>The steps of Karatsuba's method\<close>

definition only :: "mem \<Rightarrow> mem \<Rightarrow> nat set \<Rightarrow> bool" where
  "only m m' S \<longleftrightarrow> length m' = length m \<and> (\<forall>i. i \<notin> S \<longrightarrow> m' ! i = m ! i)"

lemma changes_only: "changes m m' p n \<Longrightarrow> {p..<p + n} \<subseteq> S \<Longrightarrow> only m m' S"
  unfolding changes_def only_def by (metis atLeastLessThan_iff not_le subsetD)

lemma only_mono: "only m m' S \<Longrightarrow> S \<subseteq> S' \<Longrightarrow> only m m' S'"
  by (auto simp: only_def)

lemma only_trans: "only m m' S \<Longrightarrow> only m' m'' S \<Longrightarrow> only m m'' S"
  by (auto simp: only_def)

lemma only_length: "only m m' S \<Longrightarrow> length m' = length m"
  by (simp add: only_def)

lemma only_val: "only m m' S \<Longrightarrow> {q..<q + k} \<inter> S = {} \<Longrightarrow> mpn_val m' q k = mpn_val m q k"
  by (rule mpn_val_cong) (auto simp: only_def disjoint_iff)

lemma uint_le_1: "unat (b :: limb) \<le> 1 \<Longrightarrow> uint b \<le> 1"
  by (metis of_nat_le_iff of_nat_1 of_nat_unat)

lemma sub_abs_correct:
  assumes "0 < n" "d + n \<le> length m" "a + n \<le> length m" "b + n \<le> length m" "apart d n a n" "apart d n b n"
  shows "\<exists>m' neg. sub_abs d a b n m = Some (m', neg) \<and> changes m m' d n \<and>
    int (mpn_val m a n) - int (mpn_val m b n) = (if neg then - int (mpn_val m' d n) else int (mpn_val m' d n))"
proof -
  have ah: "ahead d a n" "ahead d b n" using assms(5,6) by (auto intro: apart_ahead)
  have sub: "\<exists>m' c. mpn_sub_n d x y n m = Some (m', c) \<and> changes m m' d n \<and> mpn_val m' d n = mpn_val m x n - mpn_val m y n"
    if xy: "mpn_val m y n \<le> mpn_val m x n" "x + n \<le> length m" "y + n \<le> length m" "ahead d x n" "ahead d y n" for x y
  proof -
    obtain m' c where m': "mpn_sub_n d x y n m = Some (m', c)" "changes m m' d n" "unat c \<le> 1"
      "mpn_val m' d n + mpn_val m y n = mpn_val m x n + \<beta> ^ n * unat c"
      using mpn_sub_n_correct [OF assms(1,2) xy(2-5)] by blast
    have "\<beta> ^ n * unat c < \<beta> ^ n * 1" using m'(4) mpn_val_less [of m' d n] xy(1) by linarith
    then have "unat c = 0" by simp
    then show ?thesis using m' by auto
  qed
  show ?thesis
  proof (cases "mpn_val m b n \<le> mpn_val m a n")
    case True
    then have "\<exists>c. mpn_cmp a b n m = Some c \<and> 0 \<le> c" using mpn_cmp_correct [OF assms(3,4)] by auto
    moreover obtain m' c where "mpn_sub_n d a b n m = Some (m', c)" "changes m m' d n" "mpn_val m' d n = mpn_val m a n - mpn_val m b n"
      using sub [OF True assms(3,4) ah] by blast
    ultimately show ?thesis using True by (intro exI [of _ m'] exI [of _ False]) (auto simp: sub_abs_def of_nat_diff)
  next
    case False
    then have "\<exists>c. mpn_cmp a b n m = Some c \<and> \<not> 0 \<le> c" using mpn_cmp_correct [OF assms(3,4)] by auto
    moreover obtain m' c where "mpn_sub_n d b a n m = Some (m', c)" "changes m m' d n" "mpn_val m' d n = mpn_val m b n - mpn_val m a n"
      using sub [OF _ assms(4,3) ah(2,1)] False by auto
    ultimately show ?thesis using False by (intro exI [of _ m'] exI [of _ True]) (auto simp: sub_abs_def of_nat_diff)
  qed
qed

lemma val_2: "mpn_val m p (2 * h) = mpn_val m p h + \<beta> ^ h * mpn_val m (p + h) h"
  by (simp add: mult_2 mpn_val_split)

lemma val_3: "mpn_val m p (3 * h) = mpn_val m p h + \<beta> ^ h * mpn_val m (p + h) h + \<beta> ^ (2 * h) * mpn_val m (p + 2 * h) h"
proof -
  have e: "3 * h = h + (h + h)" "2 * h = h + h" by simp_all
  show ?thesis unfolding e mpn_val_split power_add by (simp add: algebra_simps)
qed

lemma add_product_H_correct:
  assumes "0 < h" "p + 4 * h \<le> length m"
  shows "\<exists>m' c. add_product_H p (2 * h) h m = Some (m', c) \<and> changes m m' (p + h) (2 * h) \<and> unat c \<le> 1 \<and>
    mpn_val m' (p + h) (3 * h) + \<beta> ^ (2 * h) * unat c = (1 + \<beta> ^ h) * mpn_val m (p + 2 * h) (2 * h)"
proof -
  have "ahead (p + h) (p + 2 * h) h" by (simp add: ahead_def)
  then obtain m1 where m1: "MPN_COPY_INCR (p + h) (p + 2 * h) h m = Some m1" "changes m m1 (p + h) h"
    "mpn_val m1 (p + h) h = mpn_val m (p + 2 * h) h"
    using MPN_COPY_INCR_val [of "p + h" h m "p + 2 * h"] assms by auto
  have len: "length m1 = length m" using changes_length [OF m1(2)] .
  have "ahead (p + 2 * h) (p + 2 * h + h) h" by (simp add: ahead_def)
  then obtain m' c where m': "mpn_add_n (p + 2 * h) (p + 2 * h) (p + 2 * h + h) h m1 = Some (m', c)"
    "changes m1 m' (p + 2 * h) h" "unat c \<le> 1"
    "mpn_val m' (p + 2 * h) h + \<beta> ^ h * unat c = mpn_val m1 (p + 2 * h) h + mpn_val m1 (p + 2 * h + h) h"
    using mpn_add_n_correct [of h "p + 2 * h" m1 "p + 2 * h" "p + 2 * h + h"] assms len by auto
  have v: "mpn_val m1 (p + 2 * h) h = mpn_val m (p + 2 * h) h" "mpn_val m1 (p + 2 * h + h) h = mpn_val m (p + 2 * h + h) h"
    "mpn_val m' (p + h) h = mpn_val m1 (p + h) h" "mpn_val m' (p + 2 * h + h) h = mpn_val m1 (p + 2 * h + h) h"
    by (auto intro: changes_val [OF m1(2)] changes_val [OF m'(2)])
  have ix: "p + h + h = p + 2 * h" "p + h + 2 * h = p + 2 * h + h" by simp_all
  define b x y z where bxy: "b = \<beta> ^ h" "x = mpn_val m (p + 2 * h) h" "y = mpn_val m (p + 2 * h + h) h" "z = mpn_val m' (p + 2 * h) h"
  have z: "z + b * unat c = x + y" using m'(4) unfolding v bxy .
  have N: "\<beta> ^ (2 * h) = b * b" by (simp add: bxy mult_2 power_add)
  have "mpn_val m' (p + h) (3 * h) = x + b * z + b * b * y" unfolding val_3 ix v m1(3) N bxy ..
  then have "mpn_val m' (p + h) (3 * h) + \<beta> ^ (2 * h) * unat c = x + b * (z + b * unat c) + b * b * y"
    unfolding N by (simp add: algebra_simps)
  also have "\<dots> = x + b * (x + y) + b * b * y" unfolding z ..
  also have "\<dots> = (1 + b) * (x + b * y)" by (simp add: algebra_simps)
  also have "x + b * y = mpn_val m (p + 2 * h) (2 * h)" unfolding val_2 bxy ..
  finally have "mpn_val m' (p + h) (3 * h) + \<beta> ^ (2 * h) * unat c = (1 + \<beta> ^ h) * mpn_val m (p + 2 * h) (2 * h)"
    unfolding bxy .
  moreover have "changes m m' (p + h) (2 * h)" using changes_comp [OF m1(2) m'(2)] by simp
  ultimately show ?thesis using m1(1) m'(1,3) by (intro exI [of _ m'] exI [of _ c]) (simp add: add_product_H_def)
qed

text \<open>The middle product is added or subtracted; the carry is a small number of either sign.\<close>

lemma val_low_high: "mpn_val m p (3 * h) = mpn_val m p (2 * h) + \<beta> ^ (2 * h) * mpn_val m (p + 2 * h) h"
  using mpn_val_split [of m p "2 * h" h] by simp

lemma add_product_M_correct:
  assumes "0 < h" "p + 4 * h \<le> length m" "t + 2 * h \<le> length m" "apart p (4 * h) t (2 * h)" "cy = word_of_int c"
  shows "\<exists>m' c'. add_product_M neg p (2 * h) h t cy m = Some (m', word_of_int c') \<and> changes m m' (p + h) (2 * h) \<and>
    \<bar>c' - c\<bar> \<le> 1 \<and>
    int (mpn_val m' (p + h) (3 * h)) + int (\<beta> ^ (2 * h)) * c' =
    int (mpn_val m (p + h) (3 * h)) + int (\<beta> ^ (2 * h)) * c + (if neg then - int (mpn_val m t (2 * h)) else int (mpn_val m t (2 * h)))"
proof -
  let ?N = "\<beta> ^ (2 * h)"
  have ah: "ahead (p + h) t (2 * h)" using assms(4) by (auto simp: ahead_def apart_def)
  have pre: "0 < 2 * h" "p + h + 2 * h \<le> length m" using assms by simp_all
  have top: "mpn_val m' (p + h + 2 * h) h = mpn_val m (p + h + 2 * h) h" if "changes m m' (p + h) (2 * h)" for m'
    by (rule changes_val [OF that]) simp
  show ?thesis
  proof (cases neg)
    case True
    obtain m' b where m': "mpn_sub_n (p + h) (p + h) t (2 * h) m = Some (m', b)" "changes m m' (p + h) (2 * h)" "unat b \<le> 1"
      "mpn_val m' (p + h) (2 * h) + mpn_val m t (2 * h) = mpn_val m (p + h) (2 * h) + ?N * unat b"
      using mpn_sub_n_correct [OF pre pre(2) assms(3) ahead_refl ah] by blast
    have "cy - b = word_of_int (c - uint b)" by (simp add: assms(5))
    moreover have "uint b \<le> 1" using uint_le_1 [OF m'(3)] .
    moreover have "int (mpn_val m' (p + h) (2 * h)) + int (mpn_val m t (2 * h)) = int (mpn_val m (p + h) (2 * h)) + int ?N * uint b"
      using arg_cong [OF m'(4), of int] by simp
    ultimately show ?thesis using m'(1,2) True top [OF m'(2)]
      by (intro exI [of _ m'] exI [of _ "c - uint b"])
        (simp add: add_product_M_def val_low_high right_diff_distrib distrib_left)
  next
    case False
    obtain m' b where m': "mpn_add_n (p + h) (p + h) t (2 * h) m = Some (m', b)" "changes m m' (p + h) (2 * h)" "unat b \<le> 1"
      "mpn_val m' (p + h) (2 * h) + ?N * unat b = mpn_val m (p + h) (2 * h) + mpn_val m t (2 * h)"
      using mpn_add_n_correct [OF pre pre(2) assms(3) ahead_refl ah] by blast
    have "cy + b = word_of_int (c + uint b)" by (simp add: assms(5))
    moreover have "uint b \<le> 1" using uint_le_1 [OF m'(3)] .
    moreover have "int (mpn_val m' (p + h) (2 * h)) + int ?N * uint b = int (mpn_val m (p + h) (2 * h)) + int (mpn_val m t (2 * h))"
      using arg_cong [OF m'(4), of int] by simp
    ultimately show ?thesis using m'(1,2) False top [OF m'(2)]
      by (intro exI [of _ m'] exI [of _ "c + uint b"])
        (simp add: add_product_M_def val_low_high distrib_left)
  qed
qed

lemma val_1_2: "mpn_val m p (3 * h) = mpn_val m p h + \<beta> ^ h * mpn_val m (p + h) (2 * h)"
  using mpn_val_split [of m p h "2 * h"] by simp

lemma val_1_3: "mpn_val m p (4 * h) = mpn_val m p h + \<beta> ^ h * mpn_val m (p + h) (3 * h)"
  using mpn_val_split [of m p h "3 * h"] by simp

lemma add_1_if:
  assumes "0 < n" "r + n \<le> length m"
  shows "\<exists>m' c'. (if b \<noteq> 0 then do { (m, _) \<leftarrow> mpn_add_1 r r n b m; Some m } else Some m) = Some m' \<and>
    changes m m' r n \<and> mpn_val m' r n + \<beta> ^ n * c' = mpn_val m r n + unat b"
proof (cases "b = 0")
  case False
  obtain m' c where "mpn_add_1 r r n b m = Some (m', c)" "changes m m' r n" "mpn_val m' r n + \<beta> ^ n * unat c = mpn_val m r n + unat b"
    using mpn_add_1_correct [OF assms(1,2,2) ahead_refl] by blast
  with False show ?thesis by (intro exI [of _ m'] exI [of _ "unat c"]) simp
qed (auto intro: exI [of _ 0])

lemma no_carry: "(x :: nat) + b * c = y \<Longrightarrow> y < b \<Longrightarrow> x = y"
  by (cases c) auto

lemma add_product_L_high_correct:
  fixes c :: int
  assumes h: "0 < h" and len: "p + 4 * h \<le> length m" "t + 2 * h \<le> length m" and ap: "apart p (4 * h) t (2 * h)"
    and cy: "cy = word_of_int c" "- 1 \<le> c" "c \<le> 2"
  defines "Z \<equiv> int (mpn_val m (p + h) (3 * h)) + int (\<beta> ^ (2 * h)) * c + int (mpn_val m t (2 * h))"
  assumes low: "int (\<beta> ^ (2 * h) * mpn_val m (p + h + 2 * h) h) \<le> Z" and high: "Z < int (\<beta> ^ (3 * h))"
  shows "\<exists>m'. add_product_L_high p (2 * h) h t cy m = Some m' \<and> changes m m' (p + h) (3 * h) \<and>
    int (mpn_val m' (p + h) (3 * h)) = Z"
proof -
  define N where "N = \<beta> ^ (2 * h)"
  define top where "top = mpn_val m (p + h + 2 * h) h"
  have N3: "\<beta> ^ (3 * h) = N * \<beta> ^ h" by (simp add: N_def flip: power_add)
  have ah: "ahead (p + h) t (2 * h)" using ap by (auto simp: ahead_def apart_def)
  have pre: "0 < 2 * h" "p + h + 2 * h \<le> length m" using h len by simp_all
  obtain m1 b where m1: "mpn_add_n (p + h) (p + h) t (2 * h) m = Some (m1, b)" "changes m m1 (p + h) (2 * h)" "unat b \<le> 1"
    "mpn_val m1 (p + h) (2 * h) + N * unat b = mpn_val m (p + h) (2 * h) + mpn_val m t (2 * h)"
    using mpn_add_n_correct [OF pre pre(2) len(2) ahead_refl ah] unfolding N_def by blast
  define c1 where "c1 = c + uint b"
  have top1: "mpn_val m1 (p + h + 2 * h) h = top" unfolding top_def by (rule changes_val [OF m1(2)]) simp
  have Z: "int (mpn_val m1 (p + h) (2 * h)) + int N * (int top + c1) = Z"
    using arg_cong [OF m1(4), of int] unfolding Z_def val_low_high c1_def N_def [symmetric] top_def [symmetric]
    by (simp add: algebra_simps)
  have lo: "int (mpn_val m1 (p + h) (2 * h)) < int N" using mpn_val_less [of m1 "p + h" "2 * h"] by (simp add: N_def)
  have "int N * int top < int N * (int top + c1 + 1)" using low Z lo unfolding N_def [symmetric] top_def [symmetric] of_nat_mult distrib_left by linarith
  then have c1: "0 \<le> c1" "c1 \<le> 3" using cy uint_le_1 [OF m1(3)] by (auto simp: c1_def N_def mult_less_cancel_left)
  have word: "cy + b = word_of_int c1" "unat (cy + b) = nat c1"
  proof -
    show "cy + b = word_of_int c1" by (simp add: cy c1_def)
    then show "unat (cy + b) = nat c1" using c1 by (simp add: unat_eq_nat_uint uint_word_of_int take_bit_int_eq_self)
  qed
  have len1: "length m1 = length m" using changes_length [OF m1(2)] .
  obtain m2 c2 where m2: "(if cy + b \<noteq> 0 then do { (m, _) \<leftarrow> mpn_add_1 (p + h + 2 * h) (p + h + 2 * h) h (cy + b) m1; Some m } else Some m1) = Some m2"
    "changes m1 m2 (p + h + 2 * h) h" "mpn_val m2 (p + h + 2 * h) h + \<beta> ^ h * c2 = top + nat c1"
    using add_1_if [of h "p + h + 2 * h" m1 "cy + b"] h len len1 unfolding word(2) top1 by auto
  have "int N * (int top + c1) < int N * int (\<beta> ^ h)" using Z high unfolding N3 by (simp add: algebra_simps)
  then have "int top + c1 < int (\<beta> ^ h)" by (simp add: N_def)
  then have "top + nat c1 < \<beta> ^ h" using c1(1) by linarith
  then have top2: "mpn_val m2 (p + h + 2 * h) h = top + nat c1" using no_carry [OF m2(3)] by simp
  have "mpn_val m2 (p + h) (2 * h) = mpn_val m1 (p + h) (2 * h)" by (rule changes_val [OF m2(2)]) simp
  then have "int (mpn_val m2 (p + h) (3 * h)) = Z"
    using Z c1(1) unfolding val_low_high top2 by (simp add: N_def)
  moreover have "changes m m2 (p + h) (3 * h)" using changes_comp [OF m1(2) m2(2)] by simp
  moreover have "add_product_L_high p (2 * h) h t cy m = Some m2"
    using m1(1) m2(1) by (simp add: add_product_L_high_def Let_def)
  ultimately show ?thesis by blast
qed

lemma add_product_L_low_correct:
  assumes h: "0 < h" and len: "p + 4 * h \<le> length m" "t + 2 * h \<le> length m" and ap: "apart p (4 * h) t (2 * h)"
    and high: "mpn_val m (p + h) (3 * h) + mpn_val m (t + h) h < \<beta> ^ (3 * h)"
  shows "\<exists>m'. add_product_L_low p (2 * h) h t m = Some m' \<and> changes m m' p (4 * h) \<and>
    mpn_val m' p (4 * h) = mpn_val m t h + \<beta> ^ h * (mpn_val m (p + h) (3 * h) + mpn_val m (t + h) h)"
proof -
  have N3: "\<beta> ^ (3 * h) = \<beta> ^ h * \<beta> ^ (2 * h)" by (simp flip: power_add)
  have "ahead p t h" using ap by (auto simp: ahead_def apart_def)
  then obtain m3 where m3: "MPN_COPY_INCR p t h m = Some m3" "changes m m3 p h" "mpn_val m3 p h = mpn_val m t h"
    using MPN_COPY_INCR_val [of p h m t] len by auto
  have len3: "length m3 = length m" using changes_length [OF m3(2)] by simp
  have "ahead (p + h) (t + h) h" using ap by (auto simp: ahead_def apart_def)
  then obtain m4 c4 where m4: "mpn_add_n (p + h) (p + h) (t + h) h m3 = Some (m4, c4)" "changes m3 m4 (p + h) h" "unat c4 \<le> 1"
    "mpn_val m4 (p + h) h + \<beta> ^ h * unat c4 = mpn_val m3 (p + h) h + mpn_val m3 (t + h) h"
    using mpn_add_n_correct [of h "p + h" m3 "p + h" "t + h"] h len len3 by auto
  have len4: "length m4 = length m" using changes_length [OF m4(2)] len3 by simp
  obtain m5 c5 where m5: "(if c4 \<noteq> 0 then do { (m, _) \<leftarrow> mpn_add_1 (p + 2 * h) (p + 2 * h) (2 * h) c4 m4; Some m } else Some m4) = Some m5"
    "changes m4 m5 (p + 2 * h) (2 * h)" "mpn_val m5 (p + 2 * h) (2 * h) + \<beta> ^ (2 * h) * c5 = mpn_val m4 (p + 2 * h) (2 * h) + unat c4"
    using add_1_if [of "2 * h" "p + 2 * h" m4 c4] h len len4 by auto
  have c4: "c4 \<noteq> 0 \<Longrightarrow> c4 = 1" using m4(3) limb_cases [of c4] by (auto simp: word_le_nat_alt)
  have ix: "p + h + h = p + 2 * h" by simp
  have v: "mpn_val m3 (p + h) (3 * h) = mpn_val m (p + h) (3 * h)" "mpn_val m3 (t + h) h = mpn_val m (t + h) h"
    "mpn_val m4 (p + 2 * h) (2 * h) = mpn_val m3 (p + 2 * h) (2 * h)"
    "mpn_val m5 (p + h) h = mpn_val m4 (p + h) h" "mpn_val m5 p h = mpn_val m3 p h"
  proof -
    show "mpn_val m3 (p + h) (3 * h) = mpn_val m (p + h) (3 * h)" by (rule changes_val [OF m3(2)]) simp
    show "mpn_val m3 (t + h) h = mpn_val m (t + h) h"
      using ap by (subst changes_val [OF m3(2)]) (auto simp: apart_def)
    show "mpn_val m4 (p + 2 * h) (2 * h) = mpn_val m3 (p + 2 * h) (2 * h)" by (rule changes_val [OF m4(2)]) simp
    show "mpn_val m5 (p + h) h = mpn_val m4 (p + h) h" by (rule changes_val [OF m5(2)]) simp
    show "mpn_val m5 p h = mpn_val m3 p h"
      using changes_val [OF m5(2), of p h] changes_val [OF m4(2), of p h] by simp
  qed
  have "mpn_val m5 (p + h) (3 * h) + \<beta> ^ (3 * h) * c5 =
    mpn_val m4 (p + h) h + \<beta> ^ h * (mpn_val m5 (p + 2 * h) (2 * h) + \<beta> ^ (2 * h) * c5)"
    unfolding val_1_2 ix v(4) N3 by (simp add: algebra_simps)
  also have "\<dots> = mpn_val m4 (p + h) h + \<beta> ^ h * unat c4 + \<beta> ^ h * mpn_val m3 (p + 2 * h) (2 * h)"
    unfolding m5(3) v(3) by (simp add: algebra_simps)
  also have "\<dots> = mpn_val m (p + h) (3 * h) + mpn_val m (t + h) h"
    using v(1,2) unfolding m4(4) val_1_2 ix by simp
  finally have "mpn_val m5 (p + h) (3 * h) + \<beta> ^ (3 * h) * c5 = mpn_val m (p + h) (3 * h) + mpn_val m (t + h) h" .
  from no_carry [OF this high] have "mpn_val m5 p (4 * h) = mpn_val m t h + \<beta> ^ h * (mpn_val m (p + h) (3 * h) + mpn_val m (t + h) h)"
    unfolding val_1_3 v(5) m3(3) by simp
  moreover have "changes m m5 p (4 * h)"
    using changes_comp [OF m3(2) changes_comp [OF m4(2) m5(2), of p "4 * h"], of p "4 * h"] by simp
  moreover have "add_product_L_low p (2 * h) h t m = Some m5"
    using m3(1) m4(1) m5(1) c4 by (auto simp: add_product_L_low_def split: if_splits)
  ultimately show ?thesis by blast
qed

lemma add_product_L_correct:
  fixes c :: int
  assumes h: "0 < h" and len: "p + 4 * h \<le> length m" "t + 2 * h \<le> length m" and ap: "apart p (4 * h) t (2 * h)"
    and cy: "cy = word_of_int c" "- 1 \<le> c" "c \<le> 2"
  defines "Z \<equiv> int (mpn_val m (p + h) (3 * h)) + int (\<beta> ^ (2 * h)) * c + int (mpn_val m t (2 * h))"
  assumes low: "int (\<beta> ^ (2 * h) * mpn_val m (p + h + 2 * h) h) \<le> Z"
    and high: "Z + int (mpn_val m (t + h) h) < int (\<beta> ^ (3 * h))"
  shows "\<exists>m'. add_product_L p (2 * h) h t cy m = Some m' \<and> changes m m' p (4 * h) \<and>
    int (mpn_val m' p (4 * h)) = int (mpn_val m t h) + int (\<beta> ^ h) * (Z + int (mpn_val m (t + h) h))"
proof -
  have "Z < int (\<beta> ^ (3 * h))" using high by linarith
  then obtain m1 where m1: "add_product_L_high p (2 * h) h t cy m = Some m1" "changes m m1 (p + h) (3 * h)"
    "int (mpn_val m1 (p + h) (3 * h)) = Z"
    using add_product_L_high_correct [OF h len ap cy low [unfolded Z_def]] unfolding Z_def by blast
  have t: "mpn_val m1 t h = mpn_val m t h" "mpn_val m1 (t + h) h = mpn_val m (t + h) h"
    using ap by (auto intro!: changes_val [OF m1(2)] simp: apart_def)
  have "mpn_val m1 (p + h) (3 * h) + mpn_val m1 (t + h) h < \<beta> ^ (3 * h)" using high m1(3) t by linarith
  then obtain m' where m': "add_product_L_low p (2 * h) h t m1 = Some m'" "changes m1 m' p (4 * h)"
    "mpn_val m' p (4 * h) = mpn_val m1 t h + \<beta> ^ h * (mpn_val m1 (p + h) (3 * h) + mpn_val m1 (t + h) h)"
    using add_product_L_low_correct [OF h _ _ ap, of m1] len changes_length [OF m1(2)] by auto
  have "int (mpn_val m' p (4 * h)) = int (mpn_val m t h) + int (\<beta> ^ h) * (Z + int (mpn_val m (t + h) h))"
    unfolding m'(3) t by (simp add: m1(3))
  moreover have "changes m m' p (4 * h)" using changes_comp [OF m1(2) m'(2)] by simp
  ultimately show ?thesis using m1(1) m'(1) by (simp add: add_product_L_def)
qed

subsection \<open>Karatsuba's method\<close>

lemma karatsuba_identity:
  fixes b u0 u1 v0 v1 :: int
  shows "(1 + b) * (u1 * v1) + (u1 - u0) * (v0 - v1) + u0 * v0 = b * (u1 * v1) + (u1 * v0 + u0 * v1)"
  by (simp add: algebra_simps)

text \<open>
  From the three products to the whole one.  \<open>f\<close> stands for the computation of the low product,
  which comes after the other two have been added.
\<close>

lemma karatsuba_finish:
  fixes U0 U1 V0 V1 :: nat and f :: "mem \<Rightarrow> mem option"
  assumes h: "0 < h" and len: "p + 4 * h \<le> length m" "t + 4 * h \<le> length m" and ap: "apart p (4 * h) t (4 * h)"
    and H: "mpn_val m (p + 2 * h) (2 * h) = U1 * V1"
    and M: "(if neg then - int (mpn_val m t (2 * h)) else int (mpn_val m t (2 * h))) = (int U1 - int U0) * (int V0 - int V1)"
    and lt: "U0 < \<beta> ^ h" "U1 < \<beta> ^ h" "V0 < \<beta> ^ h" "V1 < \<beta> ^ h"
    and f: "\<And>m'. only m m' {p..<p + 4 * h} \<Longrightarrow>
      \<exists>m''. f m' = Some m'' \<and> only m' m'' {t..<t + 4 * h} \<and> mpn_val m'' t (2 * h) = U0 * V0"
  shows "\<exists>m'. do { (m, cy) \<leftarrow> add_product_H p (2 * h) h m;
                  (m, cy) \<leftarrow> add_product_M neg p (2 * h) h t cy m;
                  m \<leftarrow> f m;
                  add_product_L p (2 * h) h t cy m } = Some m' \<and>
    only m m' ({p..<p + 4 * h} \<union> {t..<t + 4 * h}) \<and> mpn_val m' p (4 * h) = (U0 + \<beta> ^ h * U1) * (V0 + \<beta> ^ h * V1)"
proof -
  define b where "b = \<beta> ^ h"
  have N: "\<beta> ^ (2 * h) = b * b" "\<beta> ^ (3 * h) = b * b * b" by (simp_all add: b_def numeral_eq_Suc power_add)
  have ap2: "apart p (4 * h) t (2 * h)" using ap by (auto simp: apart_def)
  obtain m1 c1 where m1: "add_product_H p (2 * h) h m = Some (m1, c1)" "changes m m1 (p + h) (2 * h)" "unat c1 \<le> 1"
    "mpn_val m1 (p + h) (3 * h) + \<beta> ^ (2 * h) * unat c1 = (1 + \<beta> ^ h) * (U1 * V1)"
    using add_product_H_correct [OF h len(1)] unfolding H by blast
  have len1: "length m1 = length m" using changes_length [OF m1(2)] .
  have t1: "mpn_val m1 t (2 * h) = mpn_val m t (2 * h)" using ap by (intro changes_val [OF m1(2)]) (auto simp: apart_def)
  obtain m2 c2 where m2: "add_product_M neg p (2 * h) h t c1 m1 = Some (m2, word_of_int c2)" "changes m1 m2 (p + h) (2 * h)"
    "\<bar>c2 - uint c1\<bar> \<le> 1"
    "int (mpn_val m2 (p + h) (3 * h)) + int (\<beta> ^ (2 * h)) * c2 =
      int (mpn_val m1 (p + h) (3 * h)) + int (\<beta> ^ (2 * h)) * uint c1 + (int U1 - int U0) * (int V0 - int V1)"
    using add_product_M_correct [OF h _ _ ap2, of m1 c1 "uint c1" neg] len len1 M unfolding t1 by auto
  have c2: "- 1 \<le> c2" "c2 \<le> 2" using m2(3) uint_le_1 [OF m1(3)] uint_ge_0 [of c1] by linarith+
  have ch2: "changes m m2 (p + h) (2 * h)" using changes_trans [OF m1(2) m2(2)] .
  obtain m3 where m3: "f m2 = Some m3" "only m2 m3 {t..<t + 4 * h}" "mpn_val m3 t (2 * h) = U0 * V0"
    using f [OF changes_only [OF ch2]] by auto
  have len3: "length m3 = length m" using only_length [OF m3(2)] changes_length [OF ch2] by simp
  have v3: "mpn_val m3 q k = mpn_val m2 q k" if "p \<le> q" "q + k \<le> p + 4 * h" for q k
    using that ap by (intro only_val [OF m3(2)]) (auto simp: apart_def)
  have top: "mpn_val m3 (p + h + 2 * h) h = mpn_val m (p + h + 2 * h) h"
    using v3 [of "p + h + 2 * h" h] changes_val [OF ch2, of "p + h + 2 * h" h] by simp
  define Z where "Z = int (mpn_val m3 (p + h) (3 * h)) + int (\<beta> ^ (2 * h)) * c2 + int (mpn_val m3 t (2 * h))"
  have "int (mpn_val m1 (p + h) (3 * h)) + int (\<beta> ^ (2 * h)) * uint c1 = (1 + int b) * (int U1 * int V1)"
    using arg_cong [OF m1(4), of int] by (simp add: b_def distrib_right)
  then have "Z = (1 + int b) * (int U1 * int V1) + (int U1 - int U0) * (int V0 - int V1) + int U0 * int V0"
    unfolding Z_def m3(3) using m2(4) v3 [of "p + h" "3 * h"] by simp
  also note karatsuba_identity
  finally have Z: "Z = int b * (int U1 * int V1) + (int U1 * int V0 + int U0 * int V1)" .
  have hp: "U1 * V1 = mpn_val m (p + 2 * h) h + b * mpn_val m (p + h + 2 * h) h"
    using H unfolding val_2 b_def by (simp add: add.commute add.left_commute)
  have "b * b * mpn_val m (p + h + 2 * h) h \<le> b * (U1 * V1)" unfolding hp by (simp add: distrib_left)
  also have "\<dots> \<le> b * (U1 * V1) + (U1 * V0 + U0 * V1)" by simp
  finally have low: "int (\<beta> ^ (2 * h) * mpn_val m3 (p + h + 2 * h) h) \<le> Z"
    unfolding Z N top by (simp flip: of_nat_mult of_nat_add)
  define Ll Lh where L: "Ll = mpn_val m3 t h" "Lh = mpn_val m3 (t + h) h"
  have LL: "U0 * V0 = Ll + b * Lh" using m3(3) unfolding val_2 L b_def by simp
  have whole: "int Ll + int b * (Z + int Lh) = int ((U0 + b * U1) * (V0 + b * V1))"
  proof -
    have "int Ll + int b * (Z + int Lh) = int (Ll + b * Lh) + int b * Z" by (simp add: distrib_left)
    also have "\<dots> = int ((U0 + b * U1) * (V0 + b * V1))" unfolding LL [symmetric] Z by (simp add: algebra_simps)
    finally show ?thesis .
  qed
  have digits: "x + b * y < b * b" if "x < b" "y < b" for x y :: nat
  proof -
    have "b * (y + 1) \<le> b * b" using that by (intro mult_le_mono2) simp
    with that show ?thesis by simp
  qed
  have "(U0 + b * U1) * (V0 + b * V1) < (b * b) * (b * b)"
    using digits [of U0 U1] digits [of V0 V1] lt unfolding b_def by (intro mult_strict_mono) auto
  then have "int b * (Z + int Lh) < int b * int (b * b * b)"
    using whole by (simp add: mult.assoc flip: of_nat_mult) 
  then have high: "Z + int (mpn_val m3 (t + h) h) < int (\<beta> ^ (3 * h))"
    unfolding N L by (simp add: mult_less_cancel_left b_def)
  obtain m' where m': "add_product_L p (2 * h) h t (word_of_int c2) m3 = Some m'" "changes m3 m' p (4 * h)"
    "int (mpn_val m' p (4 * h)) = int Ll + int b * (Z + int Lh)"
    using add_product_L_correct [OF h _ _ ap2 refl c2, of m3] len len3 low high unfolding Z_def L b_def by auto
  have "mpn_val m' p (4 * h) = (U0 + b * U1) * (V0 + b * V1)" using m'(3) whole by (simp only: of_nat_eq_iff)
  moreover have "only m m' ({p..<p + 4 * h} \<union> {t..<t + 4 * h})"
    by (rule only_trans [OF only_trans [OF changes_only [OF ch2] only_mono [OF m3(2)]] changes_only [OF m'(2)]]) auto
  ultimately show ?thesis using m1(1) m2(1) m3(1) m'(1) unfolding b_def by auto
qed

text \<open>
  Where the operands and the work space of a multiplication lie: the result and the work space
  have twice the size of the operands and overlap nothing.
\<close>

definition mul_layout :: "mem \<Rightarrow> nat \<Rightarrow> nat \<Rightarrow> nat \<Rightarrow> nat \<Rightarrow> nat \<Rightarrow> bool" where
  "mul_layout m p u v n t \<longleftrightarrow> p + 2 * n \<le> length m \<and> t + 2 * n \<le> length m \<and> u + n \<le> length m \<and> v + n \<le> length m \<and>
     apart p (2 * n) u n \<and> apart p (2 * n) v n \<and> apart p (2 * n) t (2 * n) \<and> apart t (2 * n) u n \<and> apart t (2 * n) v n"

lemma apart_sub:
  "apart p n q k \<Longrightarrow> p \<le> p' \<Longrightarrow> p' + n' \<le> p + n \<Longrightarrow> q \<le> q' \<Longrightarrow> q' + k' \<le> q + k \<Longrightarrow> apart p' n' q' k'"
  by (auto simp: apart_def)

lemma apart_sym: "apart p n q k \<Longrightarrow> apart q k p n"
  by (auto simp: apart_def)

lemma only_val_apart:
  "only m m' ({p..<p + a} \<union> {t..<t + b}) \<Longrightarrow> apart p a q k \<Longrightarrow> apart t b q k \<Longrightarrow> mpn_val m' q k = mpn_val m q k"
  by (rule only_val) (auto simp: apart_def)

lemma mul_layoutD:
  assumes "mul_layout m p u v n t"
  shows "p + 2 * n \<le> length m" "t + 2 * n \<le> length m" "u + n \<le> length m" "v + n \<le> length m"
    "apart p (2 * n) u n" "apart p (2 * n) v n" "apart p (2 * n) t (2 * n)" "apart t (2 * n) u n" "apart t (2 * n) v n"
  using assms by (simp_all add: mul_layout_def)

text \<open>The layouts of the recursive calls.\<close>

lemma mul_layout_odd:
  assumes "mul_layout m p u v (Suc e) t"
  shows "mul_layout m p u v e t"
proof -
  note d = mul_layoutD [OF assms]
  have "apart p (2 * e) u e" by (rule apart_sub [OF d(5)]) simp_all
  moreover have "apart p (2 * e) v e" by (rule apart_sub [OF d(6)]) simp_all
  moreover have "apart p (2 * e) t (2 * e)" by (rule apart_sub [OF d(7)]) simp_all
  moreover have "apart t (2 * e) u e" by (rule apart_sub [OF d(8)]) simp_all
  moreover have "apart t (2 * e) v e" by (rule apart_sub [OF d(9)]) simp_all
  ultimately show ?thesis using d(1-4) by (simp add: mul_layout_def)
qed

lemma mul_layout_even:
  assumes "mul_layout m p u v (2 * h) t" "length m' = length m"
  shows "mul_layout m' (p + 2 * h) (u + h) (v + h) h t" "mul_layout m' t p (p + h) h (t + 2 * h)"
    "mul_layout m' t u v h (t + 2 * h)"
proof -
  note d = mul_layoutD [OF assms(1)]
  have u: "apart p' (2 * h) u' h" "apart t' (2 * h) u' h"
    if "p \<le> p'" "p' \<le> p + 2 * h" "t \<le> t'" "t' \<le> t + 2 * h" "u \<le> u'" "u' \<le> u + h" for p' t' u'
    by (rule apart_sub [OF d(5)], use that in simp_all) (rule apart_sub [OF d(8)], use that in simp_all)
  have v: "apart p' (2 * h) v' h" "apart t' (2 * h) v' h"
    if "p \<le> p'" "p' \<le> p + 2 * h" "t \<le> t'" "t' \<le> t + 2 * h" "v \<le> v'" "v' \<le> v + h" for p' t' v'
    by (rule apart_sub [OF d(6)], use that in simp_all) (rule apart_sub [OF d(9)], use that in simp_all)
  have pt: "apart p' k t' (2 * h)" "apart t' (2 * h) p' k"
    if "p \<le> p'" "p' + k \<le> p + 4 * h" "t \<le> t'" "t' \<le> t + 2 * h" for p' t' k
    by (rule apart_sub [OF d(7)], use that in simp_all) (rule apart_sub [OF apart_sym [OF d(7)]], use that in simp_all)
  have own: "apart t (2 * h) (t + 2 * h) (2 * h)" by (simp add: apart_def)
  show "mul_layout m' (p + 2 * h) (u + h) (v + h) h t" unfolding mul_layout_def
    using d(1-4) assms(2) u [of "p + 2 * h" t "u + h"] v [of "p + 2 * h" t "v + h"] pt [of "p + 2 * h" "2 * h" t] by simp
  show "mul_layout m' t p (p + h) h (t + 2 * h)" unfolding mul_layout_def
    using d(1-4) assms(2) own pt [of p h t] pt [of "p + h" h t] pt [of p h "t + 2 * h"] pt [of "p + h" h "t + 2 * h"] by simp
  show "mul_layout m' t u v h (t + 2 * h)" unfolding mul_layout_def
    using d(1-4) assms(2) own u [of p t u] u [of p "t + 2 * h" u] v [of p t v] v [of p "t + 2 * h" v] by simp
qed

lemma mul_layout_halves:
  assumes "mul_layout m p u v (2 * h) t"
  shows "apart p (4 * h) u h" "apart p (4 * h) (u + h) h" "apart p (4 * h) v h" "apart p (4 * h) (v + h) h"
    "apart t (4 * h) u h" "apart t (4 * h) (u + h) h" "apart t (4 * h) v h" "apart t (4 * h) (v + h) h"
proof -
  note d = mul_layoutD(5,6,8,9) [OF assms]
  show "apart p (4 * h) u h" "apart p (4 * h) (u + h) h" by (rule apart_sub [OF d(1)]; simp)+
  show "apart p (4 * h) v h" "apart p (4 * h) (v + h) h" by (rule apart_sub [OF d(2)]; simp)+
  show "apart t (4 * h) u h" "apart t (4 * h) (u + h) h" by (rule apart_sub [OF d(3)]; simp)+
  show "apart t (4 * h) v h" "apart t (4 * h) (v + h) h" by (rule apart_sub [OF d(4)]; simp)+
qed

text \<open>Adding one more row to a product, with its carry.\<close>

lemma addmul_store:
  assumes "0 < n" "r + n < length m" "s + n \<le> length m" "apart r n s n"
  shows "\<exists>m'. do { (m, c) \<leftarrow> mpn_addmul_1 r s n v m; wr m (r + n) c } = Some m' \<and> changes m m' r (Suc n) \<and>
    mpn_val m' r (Suc n) = mpn_val m r n + mpn_val m s n * unat v"
proof -
  have ah: "ahead r s n" using assms(4) by (rule apart_ahead) simp_all
  obtain m1 c where m1: "mpn_addmul_1 r s n v m = Some (m1, c)" "changes m m1 r n"
    "mpn_val m1 r n + \<beta> ^ n * unat c = mpn_val m r n + mpn_val m s n * unat v"
    using mpn_addmul_1_correct [OF assms(1) _ assms(3) ah, of v] assms(2) by auto
  show ?thesis
    using store_carry [OF m1(2) assms(2) m1(3)] m1(1) assms(2) changes_length [OF m1(2)]
    by (intro exI [of _ "m1[r + n := c]"]) (simp add: mem_simps)
qed

text \<open>The last step for an odd size: the products with the two highest limbs.\<close>

lemma odd_finish:
  assumes e: "0 < e" and len: "p + 2 * Suc e \<le> length m" "u + Suc e \<le> length m" "v + Suc e \<le> length m"
    and ap: "apart p (2 * Suc e) u (Suc e)" "apart p (2 * Suc e) v (Suc e)"
    and prod: "mpn_val m p (2 * e) = mpn_val m u e * mpn_val m v e"
  shows "\<exists>m'. do { x \<leftarrow> rd m (v + e);
                  (m, c) \<leftarrow> mpn_addmul_1 (p + e) u e x m;
                  m \<leftarrow> wr m (p + e + e) c;
                  y \<leftarrow> rd m (u + e);
                  (m, c) \<leftarrow> mpn_addmul_1 (p + e) v (Suc e) y m;
                  wr m (p + e + Suc e) c } = Some m' \<and>
    changes m m' p (2 * Suc e) \<and> mpn_val m' p (2 * Suc e) = mpn_val m u (Suc e) * mpn_val m v (Suc e)"
proof -
  define U V x y where UV: "U = mpn_val m u e" "V = mpn_val m v e" "x = unat (m ! (v + e))" "y = unat (m ! (u + e))"
  have "apart (p + e) e u e" using ap by (auto simp: apart_def)
  then obtain m1 where m1: "do { (m, c) \<leftarrow> mpn_addmul_1 (p + e) u e (m ! (v + e)) m; wr m (p + e + e) c } = Some m1"
    "changes m m1 (p + e) (Suc e)" "mpn_val m1 (p + e) (Suc e) = mpn_val m (p + e) e + U * x"
    using addmul_store [of e "p + e" m u "m ! (v + e)"] e len unfolding UV by auto
  have len1: "length m1 = length m" using changes_length [OF m1(2)] .
  have s1: "m1 ! (u + e) = m ! (u + e)" "mpn_val m1 v (Suc e) = mpn_val m v (Suc e)" "mpn_val m1 p e = mpn_val m p e"
    using ap by (auto intro!: changes_val [OF m1(2)] changes_nth [OF m1(2)] simp: apart_def)
  have "apart (p + e) (Suc e) v (Suc e)" using ap by (auto simp: apart_def)
  then obtain m2 where m2: "do { (m, c) \<leftarrow> mpn_addmul_1 (p + e) v (Suc e) (m ! (u + e)) m1; wr m (p + e + Suc e) c } = Some m2"
    "changes m1 m2 (p + e) (Suc (Suc e))" "mpn_val m2 (p + e) (Suc (Suc e)) = mpn_val m1 (p + e) (Suc e) + mpn_val m v (Suc e) * y"
    using addmul_store [of "Suc e" "p + e" m1 v "m ! (u + e)"] len len1 s1 unfolding UV by auto
  have p2: "mpn_val m2 p e = mpn_val m p e" using changes_val [OF m2(2), of p e] s1(3) by simp
  have "mpn_val m2 p (2 * Suc e) = mpn_val m2 p e + \<beta> ^ e * mpn_val m2 (p + e) (Suc (Suc e))"
    using mpn_val_split [of m2 p e "Suc (Suc e)"] by (simp add: mult_2)
  also have "\<dots> = (mpn_val m p e + \<beta> ^ e * mpn_val m (p + e) e) + \<beta> ^ e * (U * x + mpn_val m v (Suc e) * y)"
    unfolding p2 m2(3) m1(3) by (simp add: algebra_simps)
  also have "mpn_val m p e + \<beta> ^ e * mpn_val m (p + e) e = U * V" using prod unfolding val_2 UV .
  also have "U * V + \<beta> ^ e * (U * x + mpn_val m v (Suc e) * y) = mpn_val m u (Suc e) * mpn_val m v (Suc e)"
    unfolding mpn_val_snoc UV [symmetric] by (simp add: algebra_simps)
  finally have "mpn_val m2 p (2 * Suc e) = mpn_val m u (Suc e) * mpn_val m v (Suc e)" .
  moreover have "changes m m2 p (2 * Suc e)" using changes_comp [OF m1(2) m2(2)] by simp
  ultimately show ?thesis using m1(1) m2(1) len len1 s1(1)
    by (intro exI [of _ m2]) (auto simp: mem_simps bind_eq_Some_conv split: prod.splits)
qed

text \<open>The two absolute differences.\<close>

lemma sub_abs_pair:
  assumes h: "0 < h" and len: "p + 2 * h \<le> length m" "u + 2 * h \<le> length m" "v + 2 * h \<le> length m"
    and ap: "apart p (2 * h) u (2 * h)" "apart p (2 * h) v (2 * h)"
  shows "\<exists>m' uneg m'' vneg. sub_abs p (u + h) u h m = Some (m', uneg) \<and> sub_abs (p + h) (v + h) v h m' = Some (m'', vneg) \<and>
    changes m m'' p (2 * h) \<and>
    (let x = int (mpn_val m'' p h * mpn_val m'' (p + h) h) in if (if vneg then uneg else \<not> uneg) then - x else x) =
    (int (mpn_val m (u + h) h) - int (mpn_val m u h)) * (int (mpn_val m v h) - int (mpn_val m (v + h) h))"
proof -
  have "apart p h (u + h) h" "apart p h u h" using ap by (auto simp: apart_def)
  then obtain m1 uneg where m1: "sub_abs p (u + h) u h m = Some (m1, uneg)" "changes m m1 p h"
    "int (mpn_val m (u + h) h) - int (mpn_val m u h) = (if uneg then - int (mpn_val m1 p h) else int (mpn_val m1 p h))"
    using sub_abs_correct [of h p m "u + h" u] h len by auto
  have "apart (p + h) h (v + h) h" "apart (p + h) h v h" using ap by (auto simp: apart_def)
  then obtain m2 vneg where m2: "sub_abs (p + h) (v + h) v h m1 = Some (m2, vneg)" "changes m1 m2 (p + h) h"
    "int (mpn_val m1 (v + h) h) - int (mpn_val m1 v h) = (if vneg then - int (mpn_val m2 (p + h) h) else int (mpn_val m2 (p + h) h))"
    using sub_abs_correct [of h "p + h" m1 "v + h" v] h len changes_length [OF m1(2)] by auto
  have v: "mpn_val m1 (v + h) h = mpn_val m (v + h) h" "mpn_val m1 v h = mpn_val m v h" "mpn_val m2 p h = mpn_val m1 p h"
    using ap by (auto intro!: changes_val [OF m1(2)] changes_val [OF m2(2)] simp: apart_def)
  have "int (mpn_val m v h) - int (mpn_val m (v + h) h) =
    (if vneg then int (mpn_val m2 (p + h) h) else - int (mpn_val m2 (p + h) h))"
    using m2(3) unfolding v by (cases vneg; simp; linarith)
  then have "(let x = int (mpn_val m2 p h * mpn_val m2 (p + h) h) in if (if vneg then uneg else \<not> uneg) then - x else x) =
    (int (mpn_val m (u + h) h) - int (mpn_val m u h)) * (int (mpn_val m v h) - int (mpn_val m (v + h) h))"
    unfolding m1(3) v by (cases uneg; cases vneg) (simp_all add: Let_def)
  moreover have "changes m m2 p (2 * h)" using changes_comp [OF m1(2) m2(2)] by simp
  ultimately show ?thesis using m1(1) m2(1) by blast
qed

theorem impn_mul_n_computes:
  assumes "2 \<le> n" "mul_layout m p u v n t"
  shows "\<exists>m'. impn_mul_n p u v n t m = Some m' \<and> only m m' ({p..<p + 2 * n} \<union> {t..<t + 2 * n}) \<and>
    mpn_val m' p (2 * n) = mpn_val m u n * mpn_val m v n"
  using assms
proof (induction n arbitrary: m p u v t rule: less_induct)
  case (less n)
  have rec: "\<exists>m'. (if k < KARATSUBA_THRESHOLD then impn_mul_n_basecase p u v k m else impn_mul_n p u v k t m) = Some m' \<and>
      only m m' ({p..<p + 2 * k} \<union> {t..<t + 2 * k}) \<and> mpn_val m' p (2 * k) = mpn_val m u k * mpn_val m v k"
    if k: "0 < k" "k < n" "mul_layout m p u v k t" for k m p u v t
  proof (cases "k < KARATSUBA_THRESHOLD")
    case True
    then obtain m' where "impn_mul_n_basecase p u v k m = Some m'" "changes m m' p (2 * k)" "mpn_val m' p (2 * k) = mpn_val m u k * mpn_val m v k"
      using impn_mul_n_basecase_correct [of k p m u v] k by (auto simp: mul_layout_def)
    with True changes_only [of m m' p "2 * k"] show ?thesis by auto
  next
    case False
    then have "2 \<le> k" by (simp add: KARATSUBA_THRESHOLD_def)
    with less.IH [OF k(2) _ k(3)] False show ?thesis by simp
  qed
  let ?S = "{p..<p + 2 * n} \<union> {t..<t + 2 * n}"
  show ?case
  proof (cases "odd n")
    case True
    then obtain e where n: "n = Suc e" "0 < e" using less.prems(1) by (cases n) auto
    have lay: "mul_layout m p u v e t" using mul_layout_odd less.prems(2) n by blast
    note d = mul_layoutD [OF less.prems(2)]
    obtain m1 where m1: "(if e < KARATSUBA_THRESHOLD then impn_mul_n_basecase p u v e m else impn_mul_n p u v e t m) = Some m1"
      "only m m1 ({p..<p + 2 * e} \<union> {t..<t + 2 * e})" "mpn_val m1 p (2 * e) = mpn_val m u e * mpn_val m v e"
      using rec [OF n(2) _ lay] n(1) by auto
    have src: "mpn_val m1 u k = mpn_val m u k" "mpn_val m1 v k = mpn_val m v k" if "k \<le> n" for k
    proof -
      show "mpn_val m1 u k = mpn_val m u k"
        by (rule only_val_apart [OF m1(2) apart_sub [OF d(5)] apart_sub [OF d(8)]]) (use that n in simp_all)
      show "mpn_val m1 v k = mpn_val m v k"
        by (rule only_val_apart [OF m1(2) apart_sub [OF d(6)] apart_sub [OF d(9)]]) (use that n in simp_all)
    qed
    obtain m2 where m2: "do { x \<leftarrow> rd m1 (v + e);
                  (m, c) \<leftarrow> mpn_addmul_1 (p + e) u e x m1;
                  m \<leftarrow> wr m (p + e + e) c;
                  y \<leftarrow> rd m (u + e);
                  (m, c) \<leftarrow> mpn_addmul_1 (p + e) v (Suc e) y m;
                  wr m (p + e + Suc e) c } = Some m2"
      "changes m1 m2 p (2 * Suc e)" "mpn_val m2 p (2 * Suc e) = mpn_val m1 u (Suc e) * mpn_val m1 v (Suc e)"
      using odd_finish [OF n(2), of p m1 u v] d only_length [OF m1(2)] m1(3) src n by auto
    have "only m m2 ?S"
      by (rule only_trans [OF only_mono [OF m1(2)] changes_only [OF m2(2)]]) (auto simp: n)
    moreover have "impn_mul_n p u v n t m = Some m2"
      using True m1(1) m2(1) by (subst impn_mul_n.simps) (simp add: n Let_def)
    ultimately show ?thesis using m2(3) src n by simp
  next
    case False
    then obtain h where n: "n = 2 * h" by blast
    have h: "0 < h" "h < n" using less.prems(1) n by simp_all
    note L = less.prems(2) [unfolded n]
    note d = mul_layoutD [OF L]
    note hv = mul_layout_halves [OF L]
    obtain m1 where m1: "(if h < KARATSUBA_THRESHOLD then impn_mul_n_basecase (p + 2 * h) (u + h) (v + h) h m
        else impn_mul_n (p + 2 * h) (u + h) (v + h) h t m) = Some m1"
      "only m m1 ({p + 2 * h..<p + 2 * h + 2 * h} \<union> {t..<t + 2 * h})"
      "mpn_val m1 (p + 2 * h) (2 * h) = mpn_val m (u + h) h * mpn_val m (v + h) h"
      using rec [OF h mul_layout_even(1) [OF L refl]] by auto
    have len1: "length m1 = length m" using only_length [OF m1(2)] .
    have src1: "mpn_val m1 u h = mpn_val m u h" "mpn_val m1 (u + h) h = mpn_val m (u + h) h"
      "mpn_val m1 v h = mpn_val m v h" "mpn_val m1 (v + h) h = mpn_val m (v + h) h"
      by ((rule only_val_apart [OF m1(2) apart_sub [OF hv(1)] apart_sub [OF hv(5)]]; simp),
        (rule only_val_apart [OF m1(2) apart_sub [OF hv(2)] apart_sub [OF hv(6)]]; simp),
        (rule only_val_apart [OF m1(2) apart_sub [OF hv(3)] apart_sub [OF hv(7)]]; simp),
        (rule only_val_apart [OF m1(2) apart_sub [OF hv(4)] apart_sub [OF hv(8)]]; simp))
    have "apart p (2 * h) u (2 * h)" "apart p (2 * h) v (2 * h)" using apart_sub [OF d(5)] apart_sub [OF d(6)] by auto
    then obtain m2 uneg m3 vneg where m3: "sub_abs p (u + h) u h m1 = Some (m2, uneg)" "sub_abs (p + h) (v + h) v h m2 = Some (m3, vneg)"
      "changes m1 m3 p (2 * h)"
      "(let x = int (mpn_val m3 p h * mpn_val m3 (p + h) h) in if (if vneg then uneg else \<not> uneg) then - x else x) =
       (int (mpn_val m (u + h) h) - int (mpn_val m u h)) * (int (mpn_val m v h) - int (mpn_val m (v + h) h))"
      using sub_abs_pair [OF h(1), of p m1 u v] d(1-4) len1 unfolding src1 by auto
    have len3: "length m3 = length m" using changes_length [OF m3(3)] len1 by simp
    obtain m4 where m4: "(if h < KARATSUBA_THRESHOLD then impn_mul_n_basecase t p (p + h) h m3
        else impn_mul_n t p (p + h) h (t + 2 * h) m3) = Some m4"
      "only m3 m4 ({t..<t + 2 * h} \<union> {t + 2 * h..<t + 2 * h + 2 * h})" "mpn_val m4 t (2 * h) = mpn_val m3 p h * mpn_val m3 (p + h) h"
      using rec [OF h mul_layout_even(2) [OF L len3]] by auto
    let ?f = "\<lambda>m. if h < KARATSUBA_THRESHOLD then impn_mul_n_basecase t u v h m else impn_mul_n t u v h (t + 2 * h) m"
    have o4: "only m m4 ?S"
      by (rule only_trans [OF only_trans [OF only_mono [OF m1(2)] changes_only [OF m3(3)]] only_mono [OF m4(2)]]) (auto simp: n)
    have f: "\<exists>m''. ?f m' = Some m'' \<and> only m' m'' {t..<t + 4 * h} \<and> mpn_val m'' t (2 * h) = mpn_val m u h * mpn_val m v h"
      if o': "only m4 m' {p..<p + 4 * h}" for m'
    proof -
      have o'': "only m m' ?S" by (rule only_trans [OF o4 only_mono [OF o']]) (auto simp: n)
      obtain m'' where m'': "?f m' = Some m''" "only m' m'' ({t..<t + 2 * h} \<union> {t + 2 * h..<t + 2 * h + 2 * h})"
        "mpn_val m'' t (2 * h) = mpn_val m' u h * mpn_val m' v h"
        using rec [OF h mul_layout_even(3) [OF L only_length [OF o'']]] by auto
      have "mpn_val m' u h = mpn_val m u h" "mpn_val m' v h = mpn_val m v h"
        using hv(1,3,5,7) by (simp_all add: n only_val_apart [OF o''])
      moreover have "only m' m'' {t..<t + 4 * h}" by (rule only_mono [OF m''(2)]) auto
      ultimately show ?thesis using m'' by simp
    qed
    have H4: "mpn_val m4 (p + 2 * h) (2 * h) = mpn_val m (u + h) h * mpn_val m (v + h) h"
    proof -
      have "mpn_val m4 (p + 2 * h) (2 * h) = mpn_val m3 (p + 2 * h) (2 * h)"
        by (rule only_val_apart [OF m4(2)]) (auto intro: apart_sub [OF apart_sym [OF d(7)]])
      then show ?thesis using m1(3) changes_val [OF m3(3), of "p + 2 * h" "2 * h"] by simp
    qed
    have M4: "(if (if vneg then uneg else \<not> uneg) then - int (mpn_val m4 t (2 * h)) else int (mpn_val m4 t (2 * h))) =
      (int (mpn_val m (u + h) h) - int (mpn_val m u h)) * (int (mpn_val m v h) - int (mpn_val m (v + h) h))"
      using m3(4) unfolding m4(3) Let_def .
    have "apart p (4 * h) t (4 * h)" "p + 4 * h \<le> length m4" "t + 4 * h \<le> length m4"
      using d(1,2,7) only_length [OF o4] by simp_all
    from karatsuba_finish [OF h(1) this(2,3,1) H4 M4 mpn_val_less mpn_val_less mpn_val_less mpn_val_less f]
    obtain m' where m': "do { (m, cy) \<leftarrow> add_product_H p (2 * h) h m4;
                  (m, cy) \<leftarrow> add_product_M (if vneg then uneg else \<not> uneg) p (2 * h) h t cy m;
                  m \<leftarrow> ?f m;
                  add_product_L p (2 * h) h t cy m } = Some m'"
      "only m4 m' ({p..<p + 4 * h} \<union> {t..<t + 4 * h})"
      "mpn_val m' p (4 * h) = (mpn_val m u h + \<beta> ^ h * mpn_val m (u + h) h) * (mpn_val m v h + \<beta> ^ h * mpn_val m (v + h) h)"
      by blast
    have "only m m' ?S" by (rule only_trans [OF o4 only_mono [OF m'(2)]]) (auto simp: n)
    moreover have "impn_mul_n p u v n t m = Some m'"
      using False m1(1) m3(1,2) m4(1) m'(1) unfolding n by (subst impn_mul_n.simps) (simp add: Let_def)
    moreover have "mpn_val m' p (2 * n) = mpn_val m u n * mpn_val m v n" using m'(3) unfolding n by (simp add: val_2)
    ultimately show ?thesis by blast
  qed
qed

text \<open>The macro \<open>MPN_MUL_N_RECURSE\<close> at any size.\<close>

lemma mul_n_recurse:
  assumes "0 < n" "mul_layout m p u v n t"
  shows "\<exists>m'. (if n < KARATSUBA_THRESHOLD then impn_mul_n_basecase p u v n m else impn_mul_n p u v n t m) = Some m' \<and>
    only m m' ({p..<p + 2 * n} \<union> {t..<t + 2 * n}) \<and> mpn_val m' p (2 * n) = mpn_val m u n * mpn_val m v n"
proof (cases "n < KARATSUBA_THRESHOLD")
  case True
  obtain m' where "impn_mul_n_basecase p u v n m = Some m'" "changes m m' p (2 * n)" "mpn_val m' p (2 * n) = mpn_val m u n * mpn_val m v n"
    using impn_mul_n_basecase_correct [OF assms(1) mul_layoutD(1,3,4,5,6) [OF assms(2)]] by blast
  with True changes_only [of m m' p "2 * n"] show ?thesis by auto
next
  case False
  then have "2 \<le> n" by (simp add: KARATSUBA_THRESHOLD_def)
  with impn_mul_n_computes [OF _ assms(2)] False show ?thesis by simp
qed

subsection \<open>Squaring\<close>

lemma impn_sqr_n_basecase_eq: "impn_sqr_n_basecase p u n m = impn_mul_n_basecase p u u n m"
  by (simp add: impn_sqr_n_basecase_def impn_mul_n_basecase_def)

text \<open>Squaring does the same as multiplication, with one difference instead of two.\<close>

theorem impn_sqr_n_computes:
  assumes "2 \<le> n" "mul_layout m p u u n t"
  shows "\<exists>m'. impn_sqr_n p u n t m = Some m' \<and> only m m' ({p..<p + 2 * n} \<union> {t..<t + 2 * n}) \<and>
    mpn_val m' p (2 * n) = mpn_val m u n * mpn_val m u n"
  using assms
proof (induction n arbitrary: m p u t rule: less_induct)
  case (less n)
  have rec: "\<exists>m'. (if k < KARATSUBA_THRESHOLD then impn_sqr_n_basecase p u k m else impn_sqr_n p u k t m) = Some m' \<and>
      only m m' ({p..<p + 2 * k} \<union> {t..<t + 2 * k}) \<and> mpn_val m' p (2 * k) = mpn_val m u k * mpn_val m u k"
    if k: "0 < k" "k < n" "mul_layout m p u u k t" for k m p u t
  proof (cases "k < KARATSUBA_THRESHOLD")
    case True
    with mul_n_recurse [OF k(1,3)] show ?thesis by (simp add: impn_sqr_n_basecase_eq)
  next
    case False
    then have "2 \<le> k" by (simp add: KARATSUBA_THRESHOLD_def)
    with less.IH [OF k(2) _ k(3)] False show ?thesis by simp
  qed
  let ?S = "{p..<p + 2 * n} \<union> {t..<t + 2 * n}"
  show ?case
  proof (cases "odd n")
    case True
    then obtain e where n: "n = Suc e" "0 < e" using less.prems(1) by (cases n) auto
    have lay: "mul_layout m p u u e t" using mul_layout_odd less.prems(2) n by blast
    note d = mul_layoutD [OF less.prems(2)]
    obtain m1 where m1: "(if e < KARATSUBA_THRESHOLD then impn_sqr_n_basecase p u e m else impn_sqr_n p u e t m) = Some m1"
      "only m m1 ({p..<p + 2 * e} \<union> {t..<t + 2 * e})" "mpn_val m1 p (2 * e) = mpn_val m u e * mpn_val m u e"
      using rec [OF n(2) _ lay] n(1) by auto
    have src: "mpn_val m1 u k = mpn_val m u k" if "k \<le> n" for k
      by (rule only_val_apart [OF m1(2) apart_sub [OF d(5)] apart_sub [OF d(8)]]) (use that n in simp_all)
    obtain m2 where m2: "do { x \<leftarrow> rd m1 (u + e);
                  (m, c) \<leftarrow> mpn_addmul_1 (p + e) u e x m1;
                  m \<leftarrow> wr m (p + e + e) c;
                  y \<leftarrow> rd m (u + e);
                  (m, c) \<leftarrow> mpn_addmul_1 (p + e) u (Suc e) y m;
                  wr m (p + e + Suc e) c } = Some m2"
      "changes m1 m2 p (2 * Suc e)" "mpn_val m2 p (2 * Suc e) = mpn_val m1 u (Suc e) * mpn_val m1 u (Suc e)"
      using odd_finish [OF n(2), of p m1 u u] d only_length [OF m1(2)] m1(3) src n by auto
    have "only m m2 ?S"
      by (rule only_trans [OF only_mono [OF m1(2)] changes_only [OF m2(2)]]) (auto simp: n)
    moreover have "impn_sqr_n p u n t m = Some m2"
      using True m1(1) m2(1) by (subst impn_sqr_n.simps) (simp add: n Let_def)
    ultimately show ?thesis using m2(3) src n by simp
  next
    case False
    then obtain h where n: "n = 2 * h" by blast
    have h: "0 < h" "h < n" using less.prems(1) n by simp_all
    note L = less.prems(2) [unfolded n]
    note d = mul_layoutD [OF L]
    note hv = mul_layout_halves [OF L]
    obtain m1 where m1: "(if h < KARATSUBA_THRESHOLD then impn_sqr_n_basecase (p + 2 * h) (u + h) h m
        else impn_sqr_n (p + 2 * h) (u + h) h t m) = Some m1"
      "only m m1 ({p + 2 * h..<p + 2 * h + 2 * h} \<union> {t..<t + 2 * h})"
      "mpn_val m1 (p + 2 * h) (2 * h) = mpn_val m (u + h) h * mpn_val m (u + h) h"
      using rec [OF h mul_layout_even(1) [OF L refl]] by auto
    have len1: "length m1 = length m" using only_length [OF m1(2)] .
    have src1: "mpn_val m1 u h = mpn_val m u h" "mpn_val m1 (u + h) h = mpn_val m (u + h) h"
      by ((rule only_val_apart [OF m1(2) apart_sub [OF hv(1)] apart_sub [OF hv(5)]]; simp),
        (rule only_val_apart [OF m1(2) apart_sub [OF hv(2)] apart_sub [OF hv(6)]]; simp))
    have "apart p h (u + h) h" "apart p h u h" using apart_sub [OF hv(1)] apart_sub [OF hv(2)] by auto
    then obtain m3 uneg where m3: "sub_abs p (u + h) u h m1 = Some (m3, uneg)" "changes m1 m3 p h"
      "int (mpn_val m (u + h) h) - int (mpn_val m u h) = (if uneg then - int (mpn_val m3 p h) else int (mpn_val m3 p h))"
      using sub_abs_correct [of h p m1 "u + h" u] h d(1-4) len1 unfolding src1 by auto
    have len3: "length m3 = length m" using changes_length [OF m3(2)] len1 by simp
    have "apart t (2 * h) p h" "apart (t + 2 * h) (2 * h) p h" using apart_sub [OF apart_sym [OF d(7)]] by auto
    then have lay3: "mul_layout m3 t p p h (t + 2 * h)"
      using d(1-4) len3 unfolding mul_layout_def by (simp add: apart_def [of t _ "t + 2 * h"])
    obtain m4 where m4: "(if h < KARATSUBA_THRESHOLD then impn_sqr_n_basecase t p h m3
        else impn_sqr_n t p h (t + 2 * h) m3) = Some m4"
      "only m3 m4 ({t..<t + 2 * h} \<union> {t + 2 * h..<t + 2 * h + 2 * h})" "mpn_val m4 t (2 * h) = mpn_val m3 p h * mpn_val m3 p h"
      using rec [OF h lay3] by auto
    let ?f = "\<lambda>m. if h < KARATSUBA_THRESHOLD then impn_sqr_n_basecase t u h m else impn_sqr_n t u h (t + 2 * h) m"
    have o4: "only m m4 ?S"
      by (rule only_trans [OF only_trans [OF only_mono [OF m1(2)] changes_only [OF m3(2)]] only_mono [OF m4(2)]]) (auto simp: n)
    have f: "\<exists>m''. ?f m' = Some m'' \<and> only m' m'' {t..<t + 4 * h} \<and> mpn_val m'' t (2 * h) = mpn_val m u h * mpn_val m u h"
      if o': "only m4 m' {p..<p + 4 * h}" for m'
    proof -
      have o'': "only m m' ?S" by (rule only_trans [OF o4 only_mono [OF o']]) (auto simp: n)
      obtain m'' where m'': "?f m' = Some m''" "only m' m'' ({t..<t + 2 * h} \<union> {t + 2 * h..<t + 2 * h + 2 * h})"
        "mpn_val m'' t (2 * h) = mpn_val m' u h * mpn_val m' u h"
        using rec [OF h mul_layout_even(3) [OF L only_length [OF o'']]] by auto
      have "mpn_val m' u h = mpn_val m u h"
        using hv(1,5) by (simp add: n only_val_apart [OF o''])
      moreover have "only m' m'' {t..<t + 4 * h}" by (rule only_mono [OF m''(2)]) auto
      ultimately show ?thesis using m'' by simp
    qed
    have H4: "mpn_val m4 (p + 2 * h) (2 * h) = mpn_val m (u + h) h * mpn_val m (u + h) h"
    proof -
      have "mpn_val m4 (p + 2 * h) (2 * h) = mpn_val m3 (p + 2 * h) (2 * h)"
        by (rule only_val_apart [OF m4(2)]) (auto intro: apart_sub [OF apart_sym [OF d(7)]])
      then show ?thesis using m1(3) changes_val [OF m3(2), of "p + 2 * h" "2 * h"] by simp
    qed
    have M4: "(if True then - int (mpn_val m4 t (2 * h)) else int (mpn_val m4 t (2 * h))) =
      (int (mpn_val m (u + h) h) - int (mpn_val m u h)) * (int (mpn_val m u h) - int (mpn_val m (u + h) h))"
    proof -
      define x where "x = int (mpn_val m (u + h) h) - int (mpn_val m u h)"
      have "x * x = int (mpn_val m3 p h) * int (mpn_val m3 p h)" using m3(3) unfolding x_def by (cases uneg) simp_all
      moreover have "x * (- x) = - (x * x)" by simp
      ultimately show ?thesis unfolding m4(3) minus_diff_eq [symmetric, of "int (mpn_val m u h)"] x_def [symmetric] by simp
    qed
    have "apart p (4 * h) t (4 * h)" "p + 4 * h \<le> length m4" "t + 4 * h \<le> length m4"
      using d(1,2,7) only_length [OF o4] by simp_all
    from karatsuba_finish [OF h(1) this(2,3,1) H4 M4 mpn_val_less mpn_val_less mpn_val_less mpn_val_less f]
    obtain m' where m': "do { (m, cy) \<leftarrow> add_product_H p (2 * h) h m4;
                  (m, cy) \<leftarrow> add_product_M True p (2 * h) h t cy m;
                  m \<leftarrow> ?f m;
                  add_product_L p (2 * h) h t cy m } = Some m'"
      "only m4 m' ({p..<p + 4 * h} \<union> {t..<t + 4 * h})"
      "mpn_val m' p (4 * h) = (mpn_val m u h + \<beta> ^ h * mpn_val m (u + h) h) * (mpn_val m u h + \<beta> ^ h * mpn_val m (u + h) h)"
      by blast
    have "only m m' ?S" by (rule only_trans [OF o4 only_mono [OF m'(2)]]) (auto simp: n)
    moreover have "impn_sqr_n p u n t m = Some m'"
      using False m1(1) m3(1) m4(1) m'(1) unfolding n by (subst impn_sqr_n.simps) (simp add: Let_def)
    moreover have "mpn_val m' p (2 * n) = mpn_val m u n * mpn_val m u n" using m'(3) unfolding n by (simp add: val_2)
    ultimately show ?thesis by blast
  qed
qed

subsection \<open>The entry points\<close>

lemma val_append: "q + k \<le> length m \<Longrightarrow> mpn_val (m @ xs) q k = mpn_val m q k"
  by (rule mpn_val_cong) (simp add: nth_append)

lemma val_take: "q + k \<le> n \<Longrightarrow> n \<le> length m \<Longrightarrow> mpn_val (take n m) q k = mpn_val m q k"
  by (rule mpn_val_cong) simp

lemma nth_past: "length xs \<le> i \<Longrightarrow> xs ! i = [] ! (i - length xs)"
proof (induction xs arbitrary: i)
  case (Cons x xs)
  then show ?case by (cases i) auto
qed simp

text \<open>What is left of a change of the extended memory when the temporary space is freed.\<close>

lemma free_changes:
  assumes o: "only (m @ xs) m' ({p..<p + n} \<union> {length m..})"
  shows "changes m (TMP_FREE (length m) m') p n" "q + k \<le> length m \<Longrightarrow> mpn_val (TMP_FREE (length m) m') q k = mpn_val m' q k"
proof -
  have len: "length m' = length m + length xs" using o by (simp add: only_def)
  have "take (length m) m' ! i = m ! i" if "i < p \<or> p + n \<le> i" for i
  proof (cases "i < length m")
    case True
    with that have "i \<notin> {p..<p + n} \<union> {length m..}" by auto
    with o have "m' ! i = (m @ xs) ! i" unfolding only_def by blast
    with True show ?thesis by (simp add: nth_append)
  next
    case False
    then show ?thesis using len nth_past [of "take (length m) m'" i] nth_past [of m i] by simp
  qed
  then show "changes m (TMP_FREE (length m) m') p n" using len by (simp add: changes_def TMP_FREE_def)
  show "mpn_val (TMP_FREE (length m) m') q k = mpn_val m' q k" if "q + k \<le> length m"
    unfolding TMP_FREE_def using that len by (intro val_take) simp_all
qed

theorem mpn_mul_n_computes:
  assumes n: "0 < n" and len: "p + 2 * n \<le> length m" "u + n \<le> length m" "v + n \<le> length m"
    and ap: "apart p (2 * n) u n" "apart p (2 * n) v n"
  shows "\<exists>m'. mpn_mul_n garbage p u v n m = Some m' \<and> changes m m' p (2 * n) \<and>
    mpn_val m' p (2 * n) = mpn_val m u n * mpn_val m v n"
proof (cases "n < KARATSUBA_THRESHOLD")
  case True
  obtain m' where m': "impn_mul_n_basecase p u v n m = Some m'" "changes m m' p (2 * n)"
    "mpn_val m' p (2 * n) = mpn_val m u n * mpn_val m v n"
    using impn_mul_n_basecase_correct [OF n len ap] by blast
  moreover from this have "mpn_mul_n garbage p u v n m = Some m'"
    using True changes_length [OF m'(2)] by (auto simp: mpn_mul_n_def impn_sqr_n_basecase_eq TMP_FREE_def)
  ultimately show ?thesis by blast
next
  case False
  then have n2: "2 \<le> n" by (simp add: KARATSUBA_THRESHOLD_def)
  define xs where "xs = map garbage [length m..<length m + 2 * n]"
  have lay: "mul_layout (m @ xs) p u v n (length m)"
    using len ap by (simp add: mul_layout_def xs_def apart_def)
  have "\<exists>m1. (if u = v then impn_sqr_n p u n (length m) (m @ xs) else impn_mul_n p u v n (length m) (m @ xs)) = Some m1 \<and>
    only (m @ xs) m1 ({p..<p + 2 * n} \<union> {length m..<length m + 2 * n}) \<and>
    mpn_val m1 p (2 * n) = mpn_val (m @ xs) u n * mpn_val (m @ xs) v n"
    using impn_mul_n_computes [OF n2 lay] impn_sqr_n_computes [OF n2, of "m @ xs" p u "length m"] lay by (cases "u = v") simp_all
  then obtain m1 where m1: "(if u = v then impn_sqr_n p u n (length m) (m @ xs) else impn_mul_n p u v n (length m) (m @ xs)) = Some m1"
    "only (m @ xs) m1 ({p..<p + 2 * n} \<union> {length m..<length m + 2 * n})" "mpn_val m1 p (2 * n) = mpn_val m u n * mpn_val m v n"
    using val_append len by auto
  have "only (m @ xs) m1 ({p..<p + 2 * n} \<union> {length m..})" by (rule only_mono [OF m1(2)]) auto
  note fr = free_changes [OF this]
  have "mpn_mul_n garbage p u v n m = Some (TMP_FREE (length m) m1)"
    using m1(1) False by (auto simp: mpn_mul_n_def TMP_ALLOC_def Let_def xs_def)
  then show ?thesis using fr(1) fr(2) [OF len(1)] m1(3) by simp
qed

text \<open>Adding a product of two pieces to what is already there, with room for the carry.\<close>

lemma add_piece:
  assumes k: "0 < k" and r: "0 < r" "r \<le> k"
    and len: "p + k + r \<le> length m" "t + k + r \<le> length m" and ap: "apart p (k + r) t (k + r)"
    and prod: "mpn_val m t (k + r) = a * b" "a < \<beta> ^ k" "b < \<beta> ^ r"
  shows "\<exists>m'. do { (m, cy) \<leftarrow> mpn_add_n p p t k m;
                  (m, _) \<leftarrow> mpn_add_1 (p + k) (t + k) r cy m;
                  Some m } = Some m' \<and> changes m m' p (k + r) \<and> mpn_val m' p (k + r) = mpn_val m p k + a * b"
proof -
  have ah: "ahead p t k" using ap by (auto simp: ahead_def apart_def)
  obtain m1 c where m1: "mpn_add_n p p t k m = Some (m1, c)" "changes m m1 p k" "unat c \<le> 1"
    "mpn_val m1 p k + \<beta> ^ k * unat c = mpn_val m p k + mpn_val m t k"
    using mpn_add_n_correct [of k p m p t] k len ah by auto
  have ah': "ahead (p + k) (t + k) r" using ap by (auto simp: ahead_def apart_def)
  obtain m2 c2 where m2: "mpn_add_1 (p + k) (t + k) r c m1 = Some (m2, c2)" "changes m1 m2 (p + k) r"
    "mpn_val m2 (p + k) r + \<beta> ^ r * unat c2 = mpn_val m1 (t + k) r + unat c"
    using mpn_add_1_correct [OF r(1) _ _ ah', of m1 c] len changes_length [OF m1(2)] by auto
  have t: "mpn_val m1 (t + k) r = mpn_val m (t + k) r" using ap by (intro changes_val [OF m1(2)]) (auto simp: apart_def)
  have low: "mpn_val m2 p k = mpn_val m1 p k" by (rule changes_val [OF m2(2)]) simp
  have "mpn_val m2 p (k + r) + \<beta> ^ (k + r) * unat c2 = mpn_val m1 p k + \<beta> ^ k * (mpn_val m2 (p + k) r + \<beta> ^ r * unat c2)"
    by (simp add: mpn_val_split low power_add distrib_left)
  also have "\<dots> = mpn_val m p k + mpn_val m t (k + r)"
    unfolding m2(3) t mpn_val_split using m1(4) by (simp add: distrib_left)
  finally have eq: "mpn_val m2 p (k + r) + \<beta> ^ (k + r) * unat c2 = mpn_val m p k + a * b" unfolding prod .
  have "a * b \<le> (\<beta> ^ k - 1) * (\<beta> ^ r - 1)" using prod(2,3) by (intro mult_le_mono) linarith+
  moreover have "(\<beta> ^ k - 1) * (\<beta> ^ r - 1) + \<beta> ^ k \<le> \<beta> ^ (k + r)"
  proof -
    obtain K R where KR: "\<beta> ^ k = Suc K" "\<beta> ^ r = Suc R" using not0_implies_Suc [of "\<beta> ^ k"] not0_implies_Suc [of "\<beta> ^ r"] by auto
    have "\<beta> ^ 1 \<le> \<beta> ^ r" using r by (intro power_increasing) (simp_all add: Suc_leI)
    then have "1 \<le> R" using KR beta_pos(2) by (simp add: power_one_right)
    then show ?thesis unfolding power_add KR by (cases R) simp_all
  qed
  ultimately have "mpn_val m p k + a * b < \<beta> ^ (k + r)" using mpn_val_less [of m p k] by linarith
  then have "mpn_val m2 p (k + r) = mpn_val m p k + a * b" by (rule no_carry [OF eq])
  moreover have "changes m m2 p (k + r)" using changes_comp [OF m1(2) m2(2)] by simp
  ultimately show ?thesis using m1(1) m2(1) by simp
qed

lemma below_apart: "p + n \<le> q \<Longrightarrow> apart p n q k" "p + n \<le> q \<Longrightarrow> apart q k p n"
  by (simp_all add: apart_def)

lemma mul_pieces_correct:
  assumes "0 < k" "k \<le> n" "p + (n + k) \<le> T" "u + n \<le> T" "v + k \<le> T" "T + 4 * k \<le> length m"
    "apart p (n + k) u n" "apart p (n + k) v k"
  shows "\<exists>m' q r. n = q * k + r \<and> r < k \<and> mul_pieces p u n v k T (T + 2 * k) m = Some (m', p + q * k, u + q * k, r) \<and>
    only m m' ({p..<p + (q * k + k)} \<union> {T..}) \<and>
    mpn_val m' p (q * k + k) = mpn_val m p k + mpn_val m u (q * k) * mpn_val m v k"
  using assms
proof (induction n arbitrary: p u m rule: less_induct)
  case (less n)
  let ?V = "mpn_val m v k"
  have lay: "mul_layout m (T + 2 * k) u v k T"
    using less.prems unfolding mul_layout_def by (simp add: apart_def)
  obtain m1 where m1: "(if k < KARATSUBA_THRESHOLD then impn_mul_n_basecase (T + 2 * k) u v k m else impn_mul_n (T + 2 * k) u v k T m) = Some m1"
    "only m m1 ({T + 2 * k..<T + 2 * k + 2 * k} \<union> {T..<T + 2 * k})" "mpn_val m1 (T + 2 * k) (2 * k) = mpn_val m u k * ?V"
    using mul_n_recurse [OF less.prems(1) lay] by blast
  have len1: "length m1 = length m" using only_length [OF m1(2)] .
  have p1: "mpn_val m1 p k = mpn_val m p k" by (rule only_val [OF m1(2)]) (use less.prems in auto)
  obtain m2 where m2: "do { (m, cy) \<leftarrow> mpn_add_n p p (T + 2 * k) k m1;
                  (m, _) \<leftarrow> mpn_add_1 (p + k) (T + 2 * k + k) k cy m;
                  Some m } = Some m2"
    "changes m1 m2 p (k + k)" "mpn_val m2 p (k + k) = mpn_val m p k + mpn_val m u k * ?V"
    using add_piece [OF less.prems(1,1) order_refl, of p m1 "T + 2 * k" "mpn_val m u k" ?V] less.prems len1 p1 m1(3)
    by (auto simp: mult_2 mpn_val_less below_apart)
  have o2: "only m m2 ({p..<p + (k + k)} \<union> {T..})"
    by (rule only_trans [OF only_mono [OF m1(2)] changes_only [OF m2(2)]]) auto
  have len2: "length m2 = length m" using only_length [OF o2] .
  have step: "mul_pieces p u n v k T (T + 2 * k) m =
    (if k \<le> n - k then mul_pieces (p + k) (u + k) (n - k) v k T (T + 2 * k) m2 else Some (m2, p + k, u + k, n - k))"
    using m1(1) m2(1) by (subst mul_pieces.simps) (auto simp: Let_def bind_eq_Some_conv split: prod.splits)
  show ?case
  proof (cases "k \<le> n - k")
    case False
    then show ?thesis using step m2(3) o2 less.prems(2) by (intro exI [of _ m2] exI [of _ 1] exI [of _ "n - k"]) auto
  next
    case True
    have ap: "apart (p + k) (n - k + k) (u + k) (n - k)" by (rule apart_sub [OF less.prems(7)]) (use True in auto)
    have ap': "apart (p + k) (n - k + k) v k" by (rule apart_sub [OF less.prems(8)]) (use True in auto)
    obtain m' q r where m': "n - k = q * k + r" "r < k"
      "mul_pieces (p + k) (u + k) (n - k) v k T (T + 2 * k) m2 = Some (m', p + k + q * k, u + k + q * k, r)"
      "only m2 m' ({p + k..<p + k + (q * k + k)} \<union> {T..})"
      "mpn_val m' (p + k) (q * k + k) = mpn_val m2 (p + k) k + mpn_val m2 (u + k) (q * k) * mpn_val m2 v k"
      using less.IH [OF _ less.prems(1) True _ _ less.prems(5) _ ap ap', of m2] less.prems True len2 by auto
    have n: "n = Suc q * k + r" using m'(1) True by simp
    have src: "mpn_val m2 (u + k) (q * k) = mpn_val m (u + k) (q * k)" "mpn_val m2 v k = ?V" "mpn_val m' p k = mpn_val m2 p k"
    proof -
      have "apart p (k + k) (u + k) (q * k)" by (rule apart_sub [OF less.prems(7)]) (use n True in auto)
      then show "mpn_val m2 (u + k) (q * k) = mpn_val m (u + k) (q * k)"
        using less.prems(4) n by (intro only_val [OF o2]) (auto simp: apart_def)
      have "apart p (k + k) v k" by (rule apart_sub [OF less.prems(8)]) (use n True in auto)
      then show "mpn_val m2 v k = ?V" using less.prems(5) by (intro only_val [OF o2]) (auto simp: apart_def)
      show "mpn_val m' p k = mpn_val m2 p k" by (rule only_val [OF m'(4)]) (use less.prems(3) in auto)
    qed
    have "mpn_val m' p (Suc q * k + k) = mpn_val m' p k + \<beta> ^ k * mpn_val m' (p + k) (q * k + k)"
      using mpn_val_split [of m' p k "q * k + k"] by (simp add: add.assoc)
    also have "\<dots> = mpn_val m2 p (k + k) + \<beta> ^ k * (mpn_val m (u + k) (q * k) * ?V)"
      unfolding m'(5) src mpn_val_split [of m2 p k k] by (simp add: distrib_left)
    also have "\<dots> = mpn_val m p k + mpn_val m u (k + q * k) * ?V"
      unfolding m2(3) mpn_val_split [of m u k "q * k"] by (simp add: algebra_simps)
    finally have "mpn_val m' p (Suc q * k + k) = mpn_val m p k + mpn_val m u (Suc q * k) * ?V" by simp
    moreover have "only m m' ({p..<p + (Suc q * k + k)} \<union> {T..})"
      by (rule only_trans [OF only_mono [OF o2] only_mono [OF m'(4)]]) auto
    ultimately show ?thesis using step True m'(2,3) n
      by (intro exI [of _ m'] exI [of _ "Suc q"] exI [of _ r]) (simp add: add.assoc)
  qed
qed

text \<open>The pieces of equal size: the first product and the loop.\<close>

definition mul_even :: "(nat \<Rightarrow> limb) \<Rightarrow> nat \<Rightarrow> nat \<Rightarrow> nat \<Rightarrow> nat \<Rightarrow> nat \<Rightarrow> nat \<Rightarrow> mem \<Rightarrow> (mem \<times> nat \<times> nat \<times> nat) option" where
  "mul_even garbage p u n v k T m =
     do { m \<leftarrow> (if k < KARATSUBA_THRESHOLD then impn_mul_n_basecase p u v k m else impn_mul_n p u v k T m);
          (if k \<le> n - k then
             do { let (m, tp) = TMP_ALLOC garbage (2 * k) m;
                  mul_pieces (p + k) (u + k) (n - k) v k T tp m }
           else Some (m, p + k, u + k, n - k)) }"

lemma mul_even_correct:
  assumes k: "0 < k" "k \<le> n" and len: "p + (n + k) \<le> T" "u + n \<le> T" "v + k \<le> T" "length m = T + 2 * k"
    and ap: "apart p (n + k) u n" "apart p (n + k) v k"
  shows "\<exists>m' xs q r. n = q * k + r \<and> r < k \<and> 0 < q \<and> mul_even garbage p u n v k T m = Some (m', p + q * k, u + q * k, r) \<and>
    only (m @ xs) m' ({p..<p + (q * k + k)} \<union> {T..}) \<and> mpn_val m' p (q * k + k) = mpn_val m u (q * k) * mpn_val m v k"
proof -
  let ?V = "mpn_val m v k"
  have "apart p (2 * k) u k" "apart p (2 * k) v k" using apart_sub [OF ap(1)] apart_sub [OF ap(2)] k by auto
  then have lay: "mul_layout m p u v k T" using len k unfolding mul_layout_def by (simp add: apart_def)
  obtain m1 where m1: "(if k < KARATSUBA_THRESHOLD then impn_mul_n_basecase p u v k m else impn_mul_n p u v k T m) = Some m1"
    "only m m1 ({p..<p + 2 * k} \<union> {T..<T + 2 * k})" "mpn_val m1 p (2 * k) = mpn_val m u k * ?V"
    using mul_n_recurse [OF k(1) lay] by blast
  have len1: "length m1 = T + 2 * k" using only_length [OF m1(2)] len by simp
  show ?thesis
  proof (cases "k \<le> n - k")
    case False
    moreover have "only (m @ []) m1 ({p..<p + (1 * k + k)} \<union> {T..})" unfolding append_Nil2 by (rule only_mono [OF m1(2)]) auto
    ultimately show ?thesis using m1(1,3) k
      by (intro exI [of _ m1] exI [of _ "[]"] exI [of _ 1] exI [of _ "n - k"]) (simp add: mul_even_def mult_2)
  next
    case True
    define xs where "xs = map garbage [length m1..<length m1 + 2 * k]"
    have tp: "TMP_ALLOC garbage (2 * k) m1 = (m1 @ xs, T + 2 * k)" by (simp add: TMP_ALLOC_def xs_def len1)
    have a: "apart (p + k) (n - k + k) (u + k) (n - k)" by (rule apart_sub [OF ap(1)]) (use True in auto)
    have a': "apart (p + k) (n - k + k) v k" by (rule apart_sub [OF ap(2)]) (use True in auto)
    obtain m' q r where m': "n - k = q * k + r" "r < k"
      "mul_pieces (p + k) (u + k) (n - k) v k T (T + 2 * k) (m1 @ xs) = Some (m', p + k + q * k, u + k + q * k, r)"
      "only (m1 @ xs) m' ({p + k..<p + k + (q * k + k)} \<union> {T..})"
      "mpn_val m' (p + k) (q * k + k) = mpn_val (m1 @ xs) (p + k) k + mpn_val (m1 @ xs) (u + k) (q * k) * mpn_val (m1 @ xs) v k"
      using mul_pieces_correct [OF k(1) True _ _ len(3) _ a a', of "m1 @ xs"] len len1 True by (auto simp: xs_def)
    have n: "n = Suc q * k + r" using m'(1) True by simp
    have app: "mpn_val (m1 @ xs) w j = mpn_val m1 w j" if "w + j \<le> T" for w j
      using that len1 by (intro val_append) simp
    have src: "mpn_val (m1 @ xs) (u + k) (q * k) = mpn_val m (u + k) (q * k)" "mpn_val (m1 @ xs) v k = ?V"
      "mpn_val m' p k = mpn_val m1 p k" "mpn_val (m1 @ xs) (p + k) k = mpn_val m1 (p + k) k"
    proof -
      have "apart p (2 * k) (u + k) (q * k)" by (rule apart_sub [OF ap(1)]) (use n True in auto)
      then show "mpn_val (m1 @ xs) (u + k) (q * k) = mpn_val m (u + k) (q * k)"
        using len(2) n only_val_apart [OF m1(2), of "u + k" "q * k"] by (simp add: app below_apart)
      have "apart p (2 * k) v k" by (rule apart_sub [OF ap(2)]) (use n True in auto)
      then show "mpn_val (m1 @ xs) v k = ?V"
        using len(3) only_val_apart [OF m1(2), of v k] by (simp add: app below_apart)
      have "mpn_val m' p k = mpn_val (m1 @ xs) p k" by (rule only_val [OF m'(4)]) (use len in auto)
      then show "mpn_val m' p k = mpn_val m1 p k" using app [of p k] len k by simp
      show "mpn_val (m1 @ xs) (p + k) k = mpn_val m1 (p + k) k" using app [of "p + k" k] len k by simp
    qed
    have "mpn_val m' p (Suc q * k + k) = mpn_val m' p k + \<beta> ^ k * mpn_val m' (p + k) (q * k + k)"
      using mpn_val_split [of m' p k "q * k + k"] by (simp add: add.assoc)
    also have "\<dots> = mpn_val m1 p (2 * k) + \<beta> ^ k * (mpn_val m (u + k) (q * k) * ?V)"
      unfolding m'(5) src val_2 by (simp add: distrib_left)
    also have "\<dots> = mpn_val m u (k + q * k) * ?V"
      unfolding m1(3) mpn_val_split [of m u k "q * k"] by (simp add: algebra_simps)
    finally have "mpn_val m' p (Suc q * k + k) = mpn_val m u (Suc q * k) * ?V" by simp
    moreover have "only (m @ xs) (m1 @ xs) ({p..<p + (Suc q * k + k)} \<union> {T..})"
      using m1(2) unfolding only_def by (auto simp: nth_append)
    then have "only (m @ xs) m' ({p..<p + (Suc q * k + k)} \<union> {T..})"
      by (rule only_trans) (rule only_mono [OF m'(4)], auto)
    ultimately show ?thesis using True m1(1) m'(2,3) n tp
      by (intro exI [of _ m'] exI [of _ xs] exI [of _ "Suc q"] exI [of _ r]) (simp add: add.assoc mul_even_def)
  qed
qed

lemma mpn_mul_unfold:
  assumes "\<not> k < KARATSUBA_THRESHOLD"
  shows "mpn_mul garbage p u n v k m =
    do { (m', p', u', r) \<leftarrow> mul_even garbage p u n v k (length m) (fst (TMP_ALLOC garbage (2 * k) m));
         m' \<leftarrow> (if r \<noteq> 0 then
                 do { (m', _) \<leftarrow> mpn_mul garbage (length m) v k u' r m';
                      (m', cy) \<leftarrow> mpn_add_n p' p' (length m) k m';
                      (m', _) \<leftarrow> mpn_add_1 (p' + k) (length m + k) r cy m';
                      Some m' }
               else Some m');
         x \<leftarrow> rd (TMP_FREE (length m) m') (p + n + k - 1);
         Some (TMP_FREE (length m) m', x) }"
  using assms by (subst mpn_mul.simps) (simp add: mul_even_def TMP_ALLOC_def Let_def bind_assoc if_distrib [of "\<lambda>x. Option.bind x _"] cong: if_cong)

text \<open>The remaining limbs, fewer than a piece.\<close>

lemma mpn_mul_computes:
  assumes "0 < k" "k \<le> n" "p + (n + k) \<le> length m" "u + n \<le> length m" "v + k \<le> length m"
    "apart p (n + k) u n" "apart p (n + k) v k"
  shows "\<exists>m' c. mpn_mul garbage p u n v k m = Some (m', c) \<and> changes m m' p (n + k) \<and>
    mpn_val m' p (n + k) = mpn_val m u n * mpn_val m v k \<and> c = m' ! (p + n + k - 1)"
  using assms
proof (induction k arbitrary: p u n v m rule: less_induct)
  case (less k)
  show ?case
  proof (cases "k < KARATSUBA_THRESHOLD")
    case True
    then show ?thesis
      using mul_schoolbook [of n k p m u v] less.prems by (subst mpn_mul.simps) (simp add: add.assoc)
  next
    case False
    define T where "T = length m"
    define m0 where "m0 = fst (TMP_ALLOC garbage (2 * k) m)"
    define ys where "ys = map garbage [length m..<length m + 2 * k]"
    have m0: "m0 = m @ ys" "length m0 = T + 2 * k" by (simp_all add: m0_def T_def TMP_ALLOC_def ys_def)
    have v0: "mpn_val m0 w j = mpn_val m w j" if "w + j \<le> T" for w j unfolding m0 using that by (simp add: val_append T_def)
    obtain m1 xs q r where m1: "n = q * k + r" "r < k" "0 < q"
      "mul_even garbage p u n v k T m0 = Some (m1, p + q * k, u + q * k, r)"
      "only (m0 @ xs) m1 ({p..<p + (q * k + k)} \<union> {T..})" "mpn_val m1 p (q * k + k) = mpn_val m u (q * k) * mpn_val m v k"
      using mul_even_correct [OF less.prems(1,2) _ _ _ m0(2) less.prems(6,7), of garbage] less.prems(3-5) v0
      unfolding T_def [symmetric] by auto
    have len1: "length m1 = T + 2 * k + length xs" using only_length [OF m1(5)] m0 by simp
    have src1: "mpn_val m1 w j = mpn_val m w j" if "w + j \<le> T" "apart p (n + k) w j" for w j
    proof -
      have "apart p (q * k + k) w j" by (rule apart_sub [OF that(2)]) (use m1(1) in auto)
      then have "mpn_val m1 w j = mpn_val (m0 @ xs) w j" using that(1) by (intro only_val [OF m1(5)]) (auto simp: apart_def)
      then show ?thesis using that(1) m0(2) v0 by (simp add: val_append)
    qed
    have "\<exists>m2. (if r \<noteq> 0 then
          do { (m, _) \<leftarrow> mpn_mul garbage T v k (u + q * k) r m1;
               (m, cy) \<leftarrow> mpn_add_n (p + q * k) (p + q * k) T k m;
               (m, _) \<leftarrow> mpn_add_1 (p + q * k + k) (T + k) r cy m;
               Some m }
          else Some m1) = Some m2 \<and> only (m0 @ xs) m2 ({p..<p + (n + k)} \<union> {T..}) \<and>
        mpn_val m2 p (n + k) = mpn_val m u n * mpn_val m v k"
    proof (cases "r = 0")
      case True
      then show ?thesis using m1 by simp
    next
      case r: False
      have "apart p (n + k) (u + q * k) r" by (rule apart_sub [OF less.prems(6)]) (use m1(1) in auto)
      then have vu: "mpn_val m1 (u + q * k) r = mpn_val m (u + q * k) r" "mpn_val m1 v k = mpn_val m v k"
        using less.prems m1(1) by (auto intro!: src1 simp: T_def)
      obtain m2 c where m2: "mpn_mul garbage T v k (u + q * k) r m1 = Some (m2, c)" "changes m1 m2 T (k + r)"
        "mpn_val m2 T (k + r) = mpn_val m v k * mpn_val m (u + q * k) r"
        using less.IH [OF m1(2), of k T m1 v "u + q * k"] r m1(1,2) len1 less.prems(4,5) unfolding vu
        by (auto simp: T_def below_apart)
      have len2: "length m2 = length m1" using changes_length [OF m2(2)] .
      have p2: "mpn_val m2 (p + q * k) k = mpn_val m1 (p + q * k) k" "mpn_val m2 p (q * k) = mpn_val m1 p (q * k)"
        using less.prems(3) m1(1) by (auto intro!: changes_val [OF m2(2)] simp: T_def)
      have ap: "apart (p + q * k) (k + r) T (k + r)" using less.prems(3) m1(1) by (intro below_apart) (simp add: T_def)
      obtain m3 where m3: "do { (m, cy) \<leftarrow> mpn_add_n (p + q * k) (p + q * k) T k m2;
                   (m, _) \<leftarrow> mpn_add_1 (p + q * k + k) (T + k) r cy m;
                   Some m } = Some m3"
        "changes m2 m3 (p + q * k) (k + r)"
        "mpn_val m3 (p + q * k) (k + r) = mpn_val m2 (p + q * k) k + mpn_val m v k * mpn_val m (u + q * k) r"
        using add_piece [OF less.prems(1) _ _ _ _ ap m2(3) mpn_val_less mpn_val_less] r m1(1,2) len2 len1 less.prems(3)
        by (auto simp: T_def)
      have n: "n + k = q * k + (k + r)" using m1(1) by simp
      have "mpn_val m3 p (q * k) = mpn_val m1 p (q * k)" using changes_val [OF m3(2), of p "q * k"] p2 by simp
      then have "mpn_val m3 p (n + k) = mpn_val m1 p (q * k + k) + \<beta> ^ (q * k) * (mpn_val m v k * mpn_val m (u + q * k) r)"
        unfolding n mpn_val_split [of m3 p "q * k"] m3(3) p2 mpn_val_split [of m1 p "q * k" k] by (simp add: distrib_left)
      also have "\<dots> = mpn_val m u n * mpn_val m v k"
        unfolding m1(1,6) mpn_val_split [of m u "q * k" r] by (simp add: algebra_simps)
      finally have "mpn_val m3 p (n + k) = mpn_val m u n * mpn_val m v k" .
      moreover have "only (m0 @ xs) m3 ({p..<p + (n + k)} \<union> {T..})"
        by (rule only_trans [OF only_trans [OF only_mono [OF m1(5)] changes_only [OF m2(2)]] changes_only [OF m3(2)]])
          (use m1(1) in auto)
      ultimately show ?thesis using m2(1) m3(1) r by auto
    qed
    then obtain m2 where m2: "(if r \<noteq> 0 then
          do { (m, _) \<leftarrow> mpn_mul garbage T v k (u + q * k) r m1;
               (m, cy) \<leftarrow> mpn_add_n (p + q * k) (p + q * k) T k m;
               (m, _) \<leftarrow> mpn_add_1 (p + q * k + k) (T + k) r cy m;
               Some m }
          else Some m1) = Some m2" "only (m0 @ xs) m2 ({p..<p + (n + k)} \<union> {T..})"
        "mpn_val m2 p (n + k) = mpn_val m u n * mpn_val m v k" by blast
    note fr = free_changes [OF m2(2) [unfolded m0 append_assoc T_def]]
    let ?m' = "TMP_FREE (length m) m2"
    have "p + n + k - 1 < length ?m'" using changes_length [OF fr(1)] less.prems(1,3) by simp
    then have "mpn_mul garbage p u n v k m = Some (?m', ?m' ! (p + n + k - 1))"
      using m2(1) m1(4) unfolding mpn_mul_unfold [OF False] m0_def [symmetric] T_def [symmetric]
      by (simp add: mem_simps cong: if_cong)
    with fr(1) fr(2) [OF less.prems(3)] m2(3) show ?thesis by simp
  qed
qed

subsection \<open>Properties\<close>

text \<open>
  C5: \<open>mpn_mul\<close> multiplies.  For operands of any size, the first not shorter than the second, and
  a result area that overlaps neither, it returns, changes only the result area, leaves the
  product there and returns its highest limb.  The schoolbook method, Karatsuba's method on
  pieces and the recursion for what remains are all covered, whatever the temporary space holds.
\<close>

theorem mpn_mul_correct:
  assumes "0 < vsize" "vsize \<le> usize" "prodp + (usize + vsize) \<le> length m" "up + usize \<le> length m" "vp + vsize \<le> length m"
    "apart prodp (usize + vsize) up usize" "apart prodp (usize + vsize) vp vsize"
  shows "\<exists>m' c. mpn_mul garbage prodp up usize vp vsize m = Some (m', c) \<and> changes m m' prodp (usize + vsize) \<and>
    mpn_val m' prodp (usize + vsize) = mpn_val m up usize * mpn_val m vp vsize \<and> c = m' ! (prodp + usize + vsize - 1)"
  using mpn_mul_computes [OF assms] .

theorem mpn_mul_witness:
  "\<exists>m' c. mpn_mul (\<lambda>_. 7) 0 3 2 5 1 [0, 0, 0, 5, 9, - 1] = Some (m', c) \<and> changes [0, 0, 0, 5, 9, - 1] m' 0 (2 + 1) \<and>
     mpn_val m' 0 (2 + 1) = mpn_val [0, 0, 0, 5, 9, - 1] 3 2 * mpn_val [0, 0, 0, 5, 9, - 1] 5 1 \<and> c = m' ! (0 + 2 + 1 - 1)"
  by (rule mpn_mul_correct) (simp_all add: apart_def)

text \<open>
  C19: \<open>mpn_mul_n\<close> agrees with the schoolbook method.  For two operands of the same size, equal
  pointers included (then it squares), Karatsuba's recursion leaves the same number in the result
  area as the base case routine, and changes nothing else.
\<close>

theorem mpn_mul_n_is_schoolbook:
  assumes "0 < n" "p + 2 * n \<le> length m" "u + n \<le> length m" "v + n \<le> length m" "apart p (2 * n) u n" "apart p (2 * n) v n"
  shows "\<exists>m' m''. mpn_mul_n garbage p u v n m = Some m' \<and> impn_mul_n_basecase p u v n m = Some m'' \<and>
    mpn_val m' p (2 * n) = mpn_val m'' p (2 * n) \<and> changes m m' p (2 * n) \<and>
    mpn_val m' p (2 * n) = mpn_val m u n * mpn_val m v n"
proof -
  obtain m' where "mpn_mul_n garbage p u v n m = Some m'" "changes m m' p (2 * n)" "mpn_val m' p (2 * n) = mpn_val m u n * mpn_val m v n"
    using mpn_mul_n_computes [OF assms, of garbage] by blast
  moreover obtain m'' where "impn_mul_n_basecase p u v n m = Some m''" "mpn_val m'' p (2 * n) = mpn_val m u n * mpn_val m v n"
    using impn_mul_n_basecase_correct [OF assms] by blast
  ultimately show ?thesis by (intro exI [of _ m'] exI [of _ m'']) simp
qed

theorem mpn_mul_n_witness:
  "\<exists>m' m''. mpn_mul_n (\<lambda>_. 7) 0 4 4 2 [0, 0, 0, 0, - 1, 3] = Some m' \<and>
     impn_mul_n_basecase 0 4 4 2 [0, 0, 0, 0, - 1, 3] = Some m'' \<and>
     mpn_val m' 0 (2 * 2) = mpn_val m'' 0 (2 * 2) \<and> changes [0, 0, 0, 0, - 1, 3] m' 0 (2 * 2) \<and>
     mpn_val m' 0 (2 * 2) = mpn_val [0, 0, 0, 0, - 1, 3] 4 2 * mpn_val [0, 0, 0, 0, - 1, 3] 4 2"
  by (rule mpn_mul_n_is_schoolbook) (simp_all add: apart_def)

end
