(* ===== verification/Mpn_Div_1.thy ===== *)
theory Mpn_Div_1
  imports Mpn_Mul
begin

text \<open>
  Division of a number by one limb: \<open>mpn_divmod_1\<close> and \<open>mpn_mod_1\<close> of \<^verbatim>\<open>src/original/stdlib/divmod_1.c\<close>
  and \<^verbatim>\<open>mod_1.c\<close>, with the leading-zero count of \<^verbatim>\<open>longlong.h\<close> and the division by a
  multiplication with a precomputed inverse of \<^verbatim>\<open>gmp-impl.h\<close>.

  The two routines choose their inner division by the constants \<open>UMUL_TIME\<close> and \<open>UDIV_TIME\<close>, which
  every processor may define for itself: they are arguments here.  The division of two limbs by one is
  the portable one, so \<open>UDIV_NEEDS_NORMALIZATION\<close> is set.
\<close>

subsection \<open>The routines\<close>

text \<open>The table \<open>__clz_tab\<close>: the number of significant bits of a byte, written by its runs.\<close>

definition clz_tab :: "nat list" where
  "clz_tab = [0, 1] @ replicate 2 2 @ replicate 4 3 @ replicate 8 4 @ replicate 16 5 @ replicate 32 6 @
     replicate 64 7 @ replicate 128 8"

fun clz_scan :: "limb \<Rightarrow> nat \<Rightarrow> nat" where
  "clz_scan xr 0 = 0"
| "clz_scan xr (Suc k) = (if drop_bit (8 * Suc k) xr AND 0xff \<noteq> 0 then 8 * Suc k else clz_scan xr k)"

definition count_leading_zeros :: "limb \<Rightarrow> nat option" where
  "count_leading_zeros xr =
     (let a = clz_scan xr 7 in
      do { t \<leftarrow> rd clz_tab (unat (drop_bit a xr)); Some (64 - (t + a)) })"

definition udiv_qrnnd_preinv :: "limb \<Rightarrow> limb \<Rightarrow> limb \<Rightarrow> limb \<Rightarrow> limb \<times> limb" where
  "udiv_qrnnd_preinv nh nl d di =
     (let (q, ql) = umul_ppmm nh di;
          q = q + nh;
          (xh, xl) = umul_ppmm q d;
          (xh, r) = sub_ddmmss nh nl xh xl;
          (q, xh, r) = (if xh \<noteq> 0
            then let (xh, r) = sub_ddmmss xh r 0 d; q = q + 1 in
                 if xh \<noteq> 0 then let (xh, r) = sub_ddmmss xh r 0 d in (q + 1, xh, r) else (q, xh, r)
            else (q, xh, r))
      in if d \<le> r then (q + 1, r - d) else (q, r))"

text \<open>
  The inner loops.  Their division of a limb pair is an argument: \<open>udiv_qrnnd\<close> or
  \<open>udiv_qrnnd_preinv\<close>, with the divisor.  The shifted loop divides the dividend moved up by \<open>s\<close> bits,
  without storing it.
\<close>

type_synonym divider = "limb \<Rightarrow> limb \<Rightarrow> (limb \<times> limb) option"

fun div_limbs :: "divider \<Rightarrow> nat \<Rightarrow> nat \<Rightarrow> nat \<Rightarrow> limb \<Rightarrow> mem \<Rightarrow> (mem \<times> limb) option" where
  "div_limbs dv qp up 0 r m = Some (m, r)"
| "div_limbs dv qp up (Suc i) r m =
     do { n0 \<leftarrow> rd m (up + i);
          (q, r) \<leftarrow> dv r n0;
          m \<leftarrow> wr m (qp + i) q;
          div_limbs dv qp up i r m }"

fun div_shifted :: "divider \<Rightarrow> nat \<Rightarrow> nat \<Rightarrow> nat \<Rightarrow> nat \<Rightarrow> limb \<Rightarrow> limb \<Rightarrow> mem \<Rightarrow> (mem \<times> limb) option" where
  "div_shifted dv s qp up 0 n1 r m =
     do { (q, r) \<leftarrow> dv r (push_bit s n1);
          m \<leftarrow> wr m qp q;
          Some (m, drop_bit s r) }"
| "div_shifted dv s qp up (Suc i) n1 r m =
     do { n0 \<leftarrow> rd m (up + i);
          (q, r) \<leftarrow> dv r (push_bit s n1 OR drop_bit (64 - s) n0);
          m \<leftarrow> wr m (qp + (i + 1)) q;
          div_shifted dv s qp up i n0 r m }"

definition divmod_normal :: "divider \<Rightarrow> limb \<Rightarrow> nat \<Rightarrow> nat \<Rightarrow> nat \<Rightarrow> mem \<Rightarrow> (mem \<times> limb) option" where
  "divmod_normal dv d qp up n m =
     (let i = n - 1 in
      do { r \<leftarrow> rd m (up + i);
           if d \<le> r then div_limbs dv qp up (i + 1) 0 m
           else do { m \<leftarrow> wr m (qp + i) 0; div_limbs dv qp up i r m } })"

definition divmod_shifted :: "divider \<Rightarrow> nat \<Rightarrow> nat \<Rightarrow> nat \<Rightarrow> nat \<Rightarrow> mem \<Rightarrow> (mem \<times> limb) option" where
  "divmod_shifted dv s qp up n m =
     do { n1 \<leftarrow> rd m (up + (n - 1));
          let r = drop_bit (64 - s) n1;
          div_shifted dv s qp up (n - 1) n1 r m }"

text \<open>The inverse of a divisor with its highest bit set, without the leading bit.\<close>

definition invert_divisor :: "limb \<Rightarrow> limb option" where
  "invert_divisor d =
     (if push_bit 1 d = 0 then Some (NOT 0)
      else do { (di, dummy) \<leftarrow> udiv_qrnnd_c (- d) 0 d; Some di })"

text \<open>
  A shift of a limb by its width is undefined.  It would happen for a divisor zero only.
\<close>

definition shift_divisor :: "limb \<Rightarrow> nat \<Rightarrow> limb option" where
  "shift_divisor d s = (if s < 64 then Some (push_bit s d) else None)"

definition mpn_divmod_1 :: "nat \<Rightarrow> nat \<Rightarrow> nat \<Rightarrow> nat \<Rightarrow> nat \<Rightarrow> limb \<Rightarrow> mem \<Rightarrow> (mem \<times> limb) option" where
  "mpn_divmod_1 umul_time udiv_time qp up n d m =
     (if n = 0 then Some (m, 0)
      else if 2 * umul_time + 6 < udiv_time \<and> udiv_time < (udiv_time - (2 * umul_time + 6)) * n
      then do { s \<leftarrow> count_leading_zeros d;
                if s \<noteq> 0
                then do { d \<leftarrow> shift_divisor d s;
                          di \<leftarrow> invert_divisor d;
                          divmod_shifted (\<lambda>nh nl. Some (udiv_qrnnd_preinv nh nl d di)) s qp up n m }
                else do { di \<leftarrow> invert_divisor d;
                          divmod_normal (\<lambda>nh nl. Some (udiv_qrnnd_preinv nh nl d di)) d qp up n m } }
      else do { s \<leftarrow> count_leading_zeros d;
                if s \<noteq> 0
                then do { d \<leftarrow> shift_divisor d s;
                          divmod_shifted (\<lambda>nh nl. udiv_qrnnd_c nh nl d) s qp up n m }
                else divmod_normal (\<lambda>nh nl. udiv_qrnnd_c nh nl d) d qp up n m })"

text \<open>The same loops without the quotient, for \<open>mpn_mod_1\<close>.\<close>

fun mod_limbs :: "divider \<Rightarrow> nat \<Rightarrow> nat \<Rightarrow> limb \<Rightarrow> mem \<Rightarrow> limb option" where
  "mod_limbs dv up 0 r m = Some r"
| "mod_limbs dv up (Suc i) r m =
     do { n0 \<leftarrow> rd m (up + i);
          (dummy, r) \<leftarrow> dv r n0;
          mod_limbs dv up i r m }"

fun mod_shifted_loop :: "divider \<Rightarrow> nat \<Rightarrow> nat \<Rightarrow> nat \<Rightarrow> limb \<Rightarrow> limb \<Rightarrow> mem \<Rightarrow> limb option" where
  "mod_shifted_loop dv s up 0 n1 r m =
     do { (dummy, r) \<leftarrow> dv r (push_bit s n1); Some (drop_bit s r) }"
| "mod_shifted_loop dv s up (Suc i) n1 r m =
     do { n0 \<leftarrow> rd m (up + i);
          (dummy, r) \<leftarrow> dv r (push_bit s n1 OR drop_bit (64 - s) n0);
          mod_shifted_loop dv s up i n0 r m }"

definition mod_normal :: "divider \<Rightarrow> limb \<Rightarrow> nat \<Rightarrow> nat \<Rightarrow> mem \<Rightarrow> limb option" where
  "mod_normal dv d up n m =
     (let i = n - 1 in
      do { r \<leftarrow> rd m (up + i);
           if d \<le> r then mod_limbs dv up (i + 1) 0 m else mod_limbs dv up i r m })"

definition mod_shifted :: "divider \<Rightarrow> nat \<Rightarrow> nat \<Rightarrow> nat \<Rightarrow> mem \<Rightarrow> limb option" where
  "mod_shifted dv s up n m =
     do { n1 \<leftarrow> rd m (up + (n - 1));
          let r = drop_bit (64 - s) n1;
          mod_shifted_loop dv s up (n - 1) n1 r m }"

definition mpn_mod_1 :: "nat \<Rightarrow> nat \<Rightarrow> nat \<Rightarrow> nat \<Rightarrow> limb \<Rightarrow> mem \<Rightarrow> limb option" where
  "mpn_mod_1 umul_time udiv_time up n d m =
     (if n = 0 then Some 0
      else if 2 * umul_time + 6 < udiv_time \<and> udiv_time < (udiv_time - (2 * umul_time + 6)) * n
      then do { s \<leftarrow> count_leading_zeros d;
                if s \<noteq> 0
                then do { d \<leftarrow> shift_divisor d s;
                          di \<leftarrow> invert_divisor d;
                          mod_shifted (\<lambda>nh nl. Some (udiv_qrnnd_preinv nh nl d di)) s up n m }
                else do { di \<leftarrow> invert_divisor d;
                          mod_normal (\<lambda>nh nl. Some (udiv_qrnnd_preinv nh nl d di)) d up n m } }
      else do { s \<leftarrow> count_leading_zeros d;
                if s \<noteq> 0
                then do { d \<leftarrow> shift_divisor d s;
                          mod_shifted (\<lambda>nh nl. udiv_qrnnd_c nh nl d) s up n m }
                else mod_normal (\<lambda>nh nl. udiv_qrnnd_c nh nl d) d up n m })"

subsection \<open>Leading zeros\<close>

lemma clz_tab_entry:
  assumes "b < 256"
  shows "\<exists>t \<le> 8. rd clz_tab b = Some t \<and> b < 2 ^ t \<and> (b \<noteq> 0 \<longrightarrow> 2 ^ t \<le> 2 * b)"
proof -
  have "list_all (\<lambda>b. case rd clz_tab b of None \<Rightarrow> False | Some t \<Rightarrow> t \<le> 8 \<and> b < 2 ^ t \<and> (b \<noteq> 0 \<longrightarrow> 2 ^ t \<le> 2 * b)) [0..<256]"
    by code_simp
  then have "case rd clz_tab b of None \<Rightarrow> False | Some t \<Rightarrow> t \<le> 8 \<and> b < 2 ^ t \<and> (b \<noteq> 0 \<longrightarrow> 2 ^ t \<le> 2 * b)"
    using assms by (simp add: list_all_iff)
  then show ?thesis by (auto split: option.splits)
qed

lemma clz_scan_correct:
  "unat xr < 2 ^ (8 * k + 8) \<Longrightarrow>
     clz_scan xr k \<le> 8 * k \<and> unat xr div 2 ^ clz_scan xr k < 256 \<and> (unat xr \<noteq> 0 \<longrightarrow> 0 < unat xr div 2 ^ clz_scan xr k)"
proof (induction k)
  case (Suc k)
  let ?b = "unat xr div 2 ^ (8 * Suc k)"
  have b: "?b < 256"
    using Suc.prems by (intro less_mult_imp_div_less) (simp add: power_add)
  have "(0xff :: limb) = mask 8" by (simp add: mask_eq_exp_minus_1)
  then have "drop_bit (8 * Suc k) xr AND 0xff = take_bit 8 (drop_bit (8 * Suc k) xr)"
    by (simp only: take_bit_eq_mask)
  then have "unat (drop_bit (8 * Suc k) xr AND 0xff) = ?b mod 256"
    by (simp only: take_bit_eq_mod unat_mod_distrib unat_drop_bit) simp
  with b have nz: "drop_bit (8 * Suc k) xr AND 0xff \<noteq> 0 \<longleftrightarrow> ?b \<noteq> 0"
    by (metis mod_less unat_eq_0)
  show ?case
  proof (cases "?b = 0")
    case True
    then have "unat xr < 2 ^ (8 * k + 8)" by (simp add: div_eq_0_iff add.commute)
    from Suc.IH [OF this] True nz show ?thesis by (simp del: mult_Suc_right) simp
  qed (use b nz in \<open>simp del: mult_Suc_right\<close>)
qed simp

lemma count_leading_zeros_correct:
  assumes "d \<noteq> 0"
  obtains s where "count_leading_zeros d = Some s" "s < 64" "2 ^ s * unat d < \<beta>" "\<beta> \<le> 2 * (2 ^ s * unat d)"
proof -
  define a b where "a = clz_scan d 7" and "b = unat d div 2 ^ a"
  have ab: "a \<le> 56" "b < 256" "b \<noteq> 0"
    using clz_scan_correct [of d 7] limb_bound [of d] assms by (auto simp: a_def b_def \<beta>_def unat_eq_0)
  obtain t where t: "t \<le> 8" "rd clz_tab b = Some t" "b < 2 ^ t" "2 ^ t \<le> 2 * b"
    using clz_tab_entry [OF ab(2)] ab(3) by blast
  have "t \<noteq> 0" using t(3) ab(3) by (cases t) auto
  then have s: "64 - (t + a) < 64" by simp
  have beta: "\<beta> = 2 ^ (64 - (t + a)) * 2 ^ t * 2 ^ a"
    using t(1) ab(1) unfolding \<beta>_def by (simp add: power_add [symmetric])
  have lo: "b * 2 ^ a \<le> unat d" and hi: "unat d < (b + 1) * 2 ^ a"
    unfolding b_def by (simp_all add: dividend_less_div_times)
  have "(b + 1) * 2 ^ a \<le> 2 ^ t * 2 ^ a" using t(3) by (intro mult_le_mono1) simp
  with hi have "unat d < 2 ^ t * 2 ^ a" by linarith
  then have "2 ^ (64 - (t + a)) * unat d < \<beta>" unfolding beta by simp
  moreover have "\<beta> \<le> 2 * (2 ^ (64 - (t + a)) * unat d)"
  proof -
    have "2 ^ t * 2 ^ a \<le> 2 * b * 2 ^ a" using t(4) by simp
    also have "\<dots> \<le> 2 * unat d" using lo by simp
    finally have "2 ^ (64 - (t + a)) * (2 ^ t * 2 ^ a) \<le> 2 ^ (64 - (t + a)) * (2 * unat d)" by (rule mult_le_mono2)
    then show ?thesis unfolding beta by (simp add: ac_simps)
  qed
  moreover have "count_leading_zeros d = Some (64 - (t + a))"
    using t(2) by (simp add: count_leading_zeros_def a_def [symmetric] unat_drop_bit b_def)
  ultimately show ?thesis using s that by blast
qed

subsection \<open>Division by a multiplication with the inverse\<close>

lemma sub_ddmmss_correct:
  assumes "sub_ddmmss ah al bh bl = (h, l)" "unat bh * \<beta> + unat bl \<le> unat ah * \<beta> + unat al"
  shows "unat h * \<beta> + unat l + (unat bh * \<beta> + unat bl) = unat ah * \<beta> + unat al"
proof -
  have l: "l = al - bl" "h = ah - bh - of_bool (al < al - bl)"
    using assms(1) by (auto simp: sub_ddmmss_def Let_def)
  have lo: "unat l + unat bl = unat al + \<beta> * of_bool (al < al - bl)"
    using sub_borrow [of al bl] by (simp add: l)
  have "(unat bh + of_bool (al < al - bl)) * \<beta> < (unat ah + 1) * \<beta>"
    using lo assms(2) limb_bound [of al] limb_bound [of l] unfolding distrib_right
    by (cases "al < al - bl"; simp only: of_bool_eq mult_0 mult_0_right mult_1 mult_1_right; linarith)
  then have le: "unat bh + of_bool (al < al - bl) \<le> unat ah" by (simp only: mult_less_cancel2) simp
  have "bh \<le> ah" using le by (simp add: word_le_nat_alt)
  then have ab: "unat (ah - bh) = unat ah - unat bh" by (rule unat_sub)
  have "of_bool (al < al - bl) \<le> ah - bh" using le ab by (simp add: word_le_nat_alt)
  then have "unat h = unat ah - unat bh - of_bool (al < al - bl)" unfolding l by (subst unat_sub) (simp_all add: ab)
  then have "unat h + unat bh + of_bool (al < al - bl) = unat ah" using le by simp
  then have "unat ah * \<beta> = unat h * \<beta> + unat bh * \<beta> + of_bool (al < al - bl) * \<beta>" by (metis distrib_right)
  with lo show ?thesis by simp
qed

lemma udiv_qrnnd_preinv_correct:
  assumes nh: "nh < d" and d: "\<beta> \<le> 2 * unat d"
    and di: "(\<beta> + unat di) * unat d \<le> \<beta> * \<beta>" "\<beta> * \<beta> \<le> (\<beta> + unat di) * unat d + unat d"
  obtains q r where "udiv_qrnnd_preinv nh nl d di = (q, r)"
    "unat q * unat d + unat r = unat nh * \<beta> + unat nl" "r < d"
proof -
  let ?N = "unat nh * \<beta> + unat nl" and ?D = "unat d"
  have nhd: "unat nh < ?D" using nh by (simp add: word_less_nat_alt)
  obtain q0 ql where u1: "umul_ppmm nh di = (q0, ql)" by force
  define q1 where "q1 = q0 + nh"
  obtain xh xl where u2: "umul_ppmm q1 d = (xh, xl)" by force
  obtain yh yr where s1: "sub_ddmmss nh nl xh xl = (yh, yr)" by force
  obtain zh zr where s2: "sub_ddmmss yh yr 0 d = (zh, zr)" by force
  obtain wh wr' where s3: "sub_ddmmss zh zr 0 d = (wh, wr')" by force
  define Q where "Q = unat q0 + unat nh"
  have V: "Q * \<beta> + unat ql = unat nh * (\<beta> + unat di)"
    using umul_ppmm_correct [OF u1] by (simp add: Q_def algebra_simps)
  have QD: "Q * ?D * \<beta> \<le> unat nh * \<beta> * \<beta>"
  proof -
    have "Q * \<beta> * ?D \<le> unat nh * (\<beta> + unat di) * ?D" using V by (intro mult_le_mono1) linarith
    also have "\<dots> \<le> unat nh * (\<beta> * \<beta>)" using mult_le_mono2 [OF di(1), of "unat nh"] by (simp only: mult.assoc)
    finally show ?thesis by (simp add: ac_simps)
  qed
  then have Qlow: "Q * ?D \<le> unat nh * \<beta>" by simp
  have "unat nh * \<beta> < ?D * \<beta>" using nhd by simp
  then have "Q * ?D < \<beta> * ?D" using Qlow by (simp only: mult.commute [of \<beta>])
  then have "Q < \<beta>" by simp
  then have q1: "unat q1 = Q" unfolding q1_def Q_def by (rule unat_add)
  have Qhigh: "unat nh * \<beta> < Q * ?D + 2 * ?D"
  proof -
    have "unat nh * (\<beta> * \<beta>) \<le> unat nh * ((\<beta> + unat di) * ?D + ?D)" using di(2) by (rule mult_le_mono2)
    also have "\<dots> = (Q * \<beta> + unat ql) * ?D + unat nh * ?D" unfolding V by (simp add: algebra_simps)
    also have "\<dots> < (Q * \<beta> + \<beta>) * ?D + \<beta> * ?D"
    proof -
      have "(Q * \<beta> + unat ql) * ?D \<le> (Q * \<beta> + \<beta>) * ?D"
        using limb_bound [of ql] by (intro mult_le_mono1) linarith
      moreover have "unat nh * ?D < \<beta> * ?D" using nhd limb_bound [of nh] by (intro mult_strict_right_mono) auto
      ultimately show ?thesis by linarith
    qed
    finally have "unat nh * \<beta> * \<beta> < (Q * ?D + 2 * ?D) * \<beta>" by (simp add: algebra_simps)
    then show ?thesis by simp
  qed
  have x: "unat xh * \<beta> + unat xl = Q * ?D" using umul_ppmm_correct [OF u2] by (simp add: q1)
  have y: "unat yh * \<beta> + unat yr + Q * ?D = ?N"
    using sub_ddmmss_correct [OF s1] Qlow unfolding x by linarith
  have ylt: "unat yh * \<beta> + unat yr < \<beta> + 2 * ?D" using y Qhigh limb_bound [of nl] by linarith
  have high: "\<beta> \<le> unat h * \<beta> + unat l" if "h \<noteq> 0" for h l :: limb
  proof -
    have "1 \<le> unat h" using that by (simp add: Suc_le_eq unat_gt_0)
    then have "1 * \<beta> \<le> unat h * \<beta>" by (rule mult_le_mono1)
    then show ?thesis by linarith
  qed
  have D: "?D < \<beta>" by simp
  have z: "unat zh * \<beta> + unat zr + (Q + 1) * ?D = ?N" if "yh \<noteq> 0"
    using sub_ddmmss_correct [OF s2] high [OF that, of yr] D y by (simp only: unsigned_0 mult_0 add_0 distrib_right mult_1) linarith
  have w: "unat wh * \<beta> + unat wr' + (Q + 2) * ?D = ?N" if "yh \<noteq> 0" "zh \<noteq> 0"
    using sub_ddmmss_correct [OF s3] high [OF that(2), of zr] D z [OF that(1)] by (simp only: unsigned_0 mult_0 add_0 distrib_right mult_1) linarith
  have zero: "h = 0" if "unat h * \<beta> + unat l < \<beta>" for h l :: limb using high [of h l] that by (cases "h = 0") auto
  obtain q2 r2 h2 where st: "(q2, h2, r2) = (if yh \<noteq> 0 then if zh \<noteq> 0 then (q1 + 1 + 1, wh, wr') else (q1 + 1, zh, zr) else (q1, yh, yr))"
    by (cases "yh = 0"; cases "zh = 0") auto
  obtain k where k: "q2 = q1 + of_nat k" "k \<le> 2" "unat r2 + (Q + k) * ?D = ?N"
  proof -
    consider "yh = 0" | "yh \<noteq> 0" "zh = 0" | "yh \<noteq> 0" "zh \<noteq> 0" by blast
    then show thesis
    proof cases
      case 1
      then show ?thesis using y st that [of 0] by simp
    next
      case 2
      then show ?thesis using z st that [of 1] by simp
    next
      case 3
      have "unat wh * \<beta> + unat wr' < \<beta>" using w [OF 3] y ylt by (simp add: distrib_right)
      from zero [OF this] show ?thesis using w [OF 3] st 3 that [of 2] by simp
    qed
  qed
  have digit: "P < \<beta>" if "P * ?D \<le> ?N" for P
  proof -
    have "?N < (unat nh + 1) * \<beta>" using limb_bound [of nl] by (simp add: distrib_right)
    also have "\<dots> \<le> ?D * \<beta>" using nhd by (intro mult_le_mono1) simp
    finally have "P * ?D < \<beta> * ?D" using that by (simp only: mult.commute [of \<beta>])
    then show ?thesis by simp
  qed
  have plus: "unat (q1 + of_nat j) = Q + j" if "(Q + j) * ?D \<le> ?N" for j
  proof -
    have "Q + j < \<beta>" using digit [OF that] .
    then have "unat (of_nat j :: limb) = j" by (simp add: unat_of_nat \<beta>_def)
    with \<open>Q + j < \<beta>\<close> show ?thesis by (subst unat_add) (simp_all add: q1)
  qed
  have res: "udiv_qrnnd_preinv nh nl d di = (if d \<le> r2 then (q2 + 1, r2 - d) else (q2, r2))"
    using st unfolding udiv_qrnnd_preinv_def by (simp add: u1 q1_def [symmetric] u2 s1 s2 s3 Let_def split: if_splits)
  show thesis
  proof (cases "d \<le> r2")
    case True
    then have r: "unat (r2 - d) + ?D = unat r2" by (simp add: unat_sub word_le_nat_alt)
    with k(3) have e: "unat (r2 - d) + (Q + (k + 1)) * ?D = ?N" by (simp add: distrib_right)
    have "unat (q2 + 1) = Q + (k + 1)" using plus [of "k + 1"] e k(1) by (simp add: ac_simps)
    moreover have "unat (r2 - d) < ?D" using r d limb_bound [of r2] by linarith
    ultimately show ?thesis using True res e that by (simp add: word_less_nat_alt add.commute)
  next
    case False
    moreover have "unat q2 = Q + k" using plus [of k] k by simp
    ultimately show ?thesis using res k(3) that [of q2 r2] by (simp add: not_le add.commute)
  qed
qed

subsection \<open>What the inner loops rely on\<close>

text \<open>
  Both divisions of two limbs by one give quotient and remainder when the high limb is below the
  divisor.  The loops are correct for every such division.
\<close>

locale limb_divider =
  fixes dv :: divider and d :: limb
  assumes divides: "\<beta> \<le> 2 * unat d \<Longrightarrow> nh < d \<Longrightarrow>
    \<exists>q r. dv nh nl = Some (q, r) \<and> unat q * unat d + unat r = unat nh * \<beta> + unat nl \<and> r < d"
begin

lemma div_limbs_correct:
  assumes normal: "\<beta> \<le> 2 * unat d"
  shows "r < d \<Longrightarrow> qp + i \<le> length m \<Longrightarrow> up + i \<le> length m \<Longrightarrow> up \<le> qp \<or> qp + i \<le> up \<Longrightarrow>
     \<exists>m' r'. div_limbs dv qp up i r m = Some (m', r') \<and> r' < d \<and> changes m m' qp i \<and>
       mpn_val m' qp i * unat d + unat r' = unat r * \<beta> ^ i + mpn_val m up i"
proof (induction i arbitrary: r m)
  case (Suc i)
  obtain q r1 where q: "dv r (m ! (up + i)) = Some (q, r1)" "r1 < d"
    "unat q * unat d + unat r1 = unat r * \<beta> + unat (m ! (up + i))"
    using divides [OF normal Suc.prems(1)] by blast
  let ?m = "m[qp + i := q]"
  obtain m' r' where m': "div_limbs dv qp up i r1 ?m = Some (m', r')" "r' < d" "changes ?m m' qp i"
    "mpn_val m' qp i * unat d + unat r' = unat r1 * \<beta> ^ i + mpn_val ?m up i"
    using Suc.IH [OF q(2), of ?m] Suc.prems by auto
  have "mpn_val ?m up i = mpn_val m up i"
    using Suc.prems(4) by (intro changes_val [OF changes_update]) auto
  moreover have "m' ! (qp + i) = q"
    using changes_nth [OF m'(3), of "qp + i"] Suc.prems(2) by simp
  ultimately have "mpn_val m' qp (Suc i) * unat d + unat r' = (unat q * unat d + unat r1) * \<beta> ^ i + mpn_val m up i"
    using m'(4) by (simp add: mpn_val_snoc algebra_simps)
  also have "\<dots> = unat r * \<beta> ^ Suc i + mpn_val m up (Suc i)"
    unfolding q(3) by (simp add: mpn_val_snoc algebra_simps)
  finally have "mpn_val m' qp (Suc i) * unat d + unat r' = unat r * \<beta> ^ Suc i + mpn_val m up (Suc i)" .
  moreover have "changes m m' qp (Suc i)" by (rule changes_comp [OF changes_update m'(3)]) simp_all
  moreover have "div_limbs dv qp up (Suc i) r m = Some (m', r')"
    using q(1) m'(1) Suc.prems by (simp add: mem_simps)
  ultimately show ?case using m'(2) by blast
qed simp

lemma div_shifted_correct:
  assumes normal: "\<beta> \<le> 2 * unat d" and s: "0 < s" "s < 64"
  shows "r < d \<Longrightarrow> qp + Suc i \<le> length m \<Longrightarrow> up + i \<le> length m \<Longrightarrow> up \<le> qp + 1 \<or> qp + Suc i \<le> up \<Longrightarrow>
     \<exists>m' r'. div_shifted dv s qp up i n1 r m = Some (m', drop_bit s r') \<and> r' < d \<and> changes m m' qp (Suc i) \<and>
       mpn_val m' qp (Suc i) * unat d + unat r' =
         unat r * \<beta> ^ Suc i + unat (push_bit s n1) * \<beta> ^ i + 2 ^ s * mpn_val m up i"
proof (induction i arbitrary: r m n1)
  case 0
  obtain q r1 where q: "dv r (push_bit s n1) = Some (q, r1)" "r1 < d"
    "unat q * unat d + unat r1 = unat r * \<beta> + unat (push_bit s n1)"
    using divides [OF normal 0(1)] by blast
  moreover have "changes m (m[qp := q]) qp (Suc 0)" using changes_update by simp
  ultimately show ?case using 0 by (auto simp: mem_simps)
next
  case (Suc i)
  let ?n0 = "m ! (up + i)" and ?x = "push_bit s n1 OR drop_bit (64 - s) (m ! (up + i))"
  obtain q r1 where q: "dv r ?x = Some (q, r1)" "r1 < d" "unat q * unat d + unat r1 = unat r * \<beta> + unat ?x"
    using divides [OF normal Suc.prems(1)] by blast
  let ?m = "m[qp + Suc i := q]"
  obtain m' r' where m': "div_shifted dv s qp up i ?n0 r1 ?m = Some (m', drop_bit s r')" "r' < d" "changes ?m m' qp (Suc i)"
    "mpn_val m' qp (Suc i) * unat d + unat r' = unat r1 * \<beta> ^ Suc i + unat (push_bit s ?n0) * \<beta> ^ i + 2 ^ s * mpn_val ?m up i"
    using Suc.IH [OF q(2), of ?m ?n0] Suc.prems by auto
  have keep: "mpn_val ?m up i = mpn_val m up i"
    using Suc.prems(4) by (intro changes_val [OF changes_update]) auto
  have top: "m' ! (qp + Suc i) = q"
    using changes_nth [OF m'(3), of "qp + Suc i"] Suc.prems(2) by simp
  have x: "unat ?x = unat (push_bit s n1) + unat (drop_bit (64 - s) ?n0)" by (rule unat_funnel [OF s])
  have n0: "unat (push_bit s ?n0) + \<beta> * unat (drop_bit (64 - s) ?n0) = 2 ^ s * unat ?n0" using s by (intro shift_split) simp
  have "mpn_val m' qp (Suc (Suc i)) * unat d + unat r' =
    (unat q * unat d + unat r1) * \<beta> ^ Suc i + unat (push_bit s ?n0) * \<beta> ^ i + 2 ^ s * mpn_val m up i"
    unfolding mpn_val_snoc [of m' qp "Suc i"] top using m'(4) unfolding keep by (simp add: algebra_simps)
  also have "\<dots> = unat r * \<beta> ^ Suc (Suc i) + unat (push_bit s n1) * \<beta> ^ Suc i +
    (unat (push_bit s ?n0) + \<beta> * unat (drop_bit (64 - s) ?n0)) * \<beta> ^ i + 2 ^ s * mpn_val m up i"
    unfolding q(3) x by (simp add: algebra_simps)
  also have "\<dots> = unat r * \<beta> ^ Suc (Suc i) + unat (push_bit s n1) * \<beta> ^ Suc i + 2 ^ s * mpn_val m up (Suc i)"
    unfolding n0 by (simp add: mpn_val_snoc algebra_simps)
  finally have "mpn_val m' qp (Suc (Suc i)) * unat d + unat r' =
    unat r * \<beta> ^ Suc (Suc i) + unat (push_bit s n1) * \<beta> ^ Suc i + 2 ^ s * mpn_val m up (Suc i)" .
  moreover have "changes m m' qp (Suc (Suc i))" by (rule changes_comp [OF changes_update m'(3)]) simp_all
  moreover have "div_shifted dv s qp up (Suc i) n1 r m = Some (m', drop_bit s r')"
    using q(1) m'(1) Suc.prems by (simp add: mem_simps)
  ultimately show ?case using m'(2) by blast
qed

lemma divmod_normal_correct:
  assumes normal: "\<beta> \<le> 2 * unat d" and "0 < n" "qp + n \<le> length m" "up + n \<le> length m" "up \<le> qp \<or> qp + n \<le> up"
  shows "\<exists>m' r'. divmod_normal dv d qp up n m = Some (m', r') \<and> r' < d \<and> changes m m' qp n \<and>
    mpn_val m' qp n * unat d + unat r' = mpn_val m up n"
proof -
  obtain i where n: "n = Suc i" using assms(2) by (cases n) auto
  let ?r = "m ! (up + i)"
  have rd: "rd m (up + i) = Some ?r" using assms(4) by (simp add: n mem_simps)
  show ?thesis
  proof (cases "d \<le> ?r")
    case True
    have "0 < d" using normal by (cases "d = 0") (simp_all add: word_neq_0_conv)
    from div_limbs_correct [OF normal this assms(3-5)] True rd show ?thesis
      by (simp add: divmod_normal_def n)
  next
    case False
    then have r: "?r < d" by simp
    let ?m = "m[qp + i := 0]"
    obtain m' r' where m': "div_limbs dv qp up i ?r ?m = Some (m', r')" "r' < d" "changes ?m m' qp i"
      "mpn_val m' qp i * unat d + unat r' = unat ?r * \<beta> ^ i + mpn_val ?m up i"
      using div_limbs_correct [OF normal r, of qp i ?m up] assms by (auto simp: n)
    have "mpn_val ?m up i = mpn_val m up i"
      using assms(5) by (intro changes_val [OF changes_update]) (auto simp: n)
    moreover have "m' ! (qp + i) = 0"
      using changes_nth [OF m'(3), of "qp + i"] assms(3) by (simp add: n)
    ultimately have "mpn_val m' qp n * unat d + unat r' = mpn_val m up n"
      using m'(4) by (simp add: n mpn_val_snoc)
    moreover have "changes m m' qp n"
      by (rule changes_comp [OF changes_update m'(3)]) (simp_all add: n)
    moreover have "divmod_normal dv d qp up n m = Some (m', r')"
      using m'(1) False rd assms(3) by (simp add: divmod_normal_def n mem_simps)
    ultimately show ?thesis using m'(2) by blast
  qed
qed

lemma shifted_remainder:
  assumes "unat d = 2 ^ s * unat d0" "Q * unat d + unat r = 2 ^ s * U" "r < d"
  shows "Q * unat d0 + unat (drop_bit s r) = U" "drop_bit s r < d0"
proof -
  have r: "unat r < 2 ^ s * unat d0" using assms(1,3) by (simp add: word_less_nat_alt)
  have "2 ^ s dvd Q * unat d + unat r" "2 ^ s dvd Q * unat d" unfolding assms(2) by (simp_all add: assms(1))
  then have "2 ^ s dvd unat r" by (simp add: dvd_add_right_iff)
  then obtain k where k: "unat r = 2 ^ s * k" ..
  then have "2 ^ s * (Q * unat d0 + k) = 2 ^ s * U" using assms(1,2) by (simp add: algebra_simps)
  then show "Q * unat d0 + unat (drop_bit s r) = U" by (simp add: unat_drop_bit k)
  show "drop_bit s r < d0" using r by (simp add: word_less_nat_alt unat_drop_bit k)
qed

lemma shifted_start:
  assumes "0 < s" "s < 64" "unat d = 2 ^ s * unat d0" "d0 \<noteq> 0"
  shows "drop_bit (64 - s) n1 < d"
    "unat (drop_bit (64 - s) n1) * \<beta> ^ Suc i + unat (push_bit s n1) * \<beta> ^ i = 2 ^ s * (unat n1 * \<beta> ^ i)"
proof -
  have "unat n1 < 2 ^ s * 2 ^ (64 - s)" using limb_bound [of n1] beta_split [of s] assms by simp
  then have "unat n1 div 2 ^ (64 - s) < 2 ^ s" by (intro less_mult_imp_div_less)
  also have "\<dots> * 1 \<le> 2 ^ s * unat d0" using assms(4) by (intro mult_le_mono2) (simp add: Suc_le_eq unat_gt_0)
  finally show "drop_bit (64 - s) n1 < d" using assms(3) by (simp add: word_less_nat_alt unat_drop_bit)
  have "unat (drop_bit (64 - s) n1) * \<beta> ^ Suc i + unat (push_bit s n1) * \<beta> ^ i =
    (unat (push_bit s n1) + \<beta> * unat (drop_bit (64 - s) n1)) * \<beta> ^ i" by (simp add: algebra_simps)
  also have "\<dots> = 2 ^ s * (unat n1 * \<beta> ^ i)" using shift_split [of s n1] assms by (simp add: algebra_simps)
  finally show "unat (drop_bit (64 - s) n1) * \<beta> ^ Suc i + unat (push_bit s n1) * \<beta> ^ i = 2 ^ s * (unat n1 * \<beta> ^ i)" .
qed

lemma divmod_shifted_correct:
  assumes normal: "\<beta> \<le> 2 * unat d" and s: "0 < s" "s < 64" "unat d = 2 ^ s * unat d0" "d0 \<noteq> 0"
    and n: "0 < n" "qp + n \<le> length m" "up + n \<le> length m" "up \<le> qp \<or> qp + n \<le> up"
  shows "\<exists>m' r'. divmod_shifted dv s qp up n m = Some (m', r') \<and> r' < d0 \<and> changes m m' qp n \<and>
    mpn_val m' qp n * unat d0 + unat r' = mpn_val m up n"
proof -
  obtain i where i: "n = Suc i" using n(1) by (cases n) auto
  let ?n1 = "m ! (up + i)"
  note st = shifted_start [OF s, of ?n1]
  have lay: "qp + Suc i \<le> length m" "up + i \<le> length m" "up \<le> qp + 1 \<or> qp + Suc i \<le> up"
    using n(2-4) by (auto simp: i)
  obtain m' r' where m': "div_shifted dv s qp up i ?n1 (drop_bit (64 - s) ?n1) m = Some (m', drop_bit s r')" "r' < d"
    "changes m m' qp n" "mpn_val m' qp n * unat d + unat r' = 2 ^ s * (unat ?n1 * \<beta> ^ i) + 2 ^ s * mpn_val m up i"
    using div_shifted_correct [OF normal s(1,2) st(1) lay, of ?n1] unfolding st(2) i by blast
  have "mpn_val m' qp n * unat d + unat r' = 2 ^ s * mpn_val m up n"
    unfolding m'(4) by (simp add: i mpn_val_snoc algebra_simps)
  from shifted_remainder [OF s(3) this m'(2)] m'(1,3) show ?thesis
    using n(3) by (simp add: divmod_shifted_def i mem_simps)
qed

lemma mod_limbs_correct:
  assumes normal: "\<beta> \<le> 2 * unat d"
  shows "r < d \<Longrightarrow> up + i \<le> length m \<Longrightarrow>
     \<exists>r'. mod_limbs dv up i r m = Some r' \<and> r' < d \<and> (\<exists>Q. Q * unat d + unat r' = unat r * \<beta> ^ i + mpn_val m up i)"
proof (induction i arbitrary: r)
  case 0
  then show ?case by (auto intro: exI [of _ 0])
next
  case (Suc i)
  obtain q r1 where q: "dv r (m ! (up + i)) = Some (q, r1)" "r1 < d"
    "unat q * unat d + unat r1 = unat r * \<beta> + unat (m ! (up + i))"
    using divides [OF normal Suc.prems(1)] by blast
  obtain r' Q where r': "mod_limbs dv up i r1 m = Some r'" "r' < d" "Q * unat d + unat r' = unat r1 * \<beta> ^ i + mpn_val m up i"
    using Suc.IH [OF q(2)] Suc.prems by auto
  have "(unat q * \<beta> ^ i + Q) * unat d + unat r' = (unat q * unat d + unat r1) * \<beta> ^ i + mpn_val m up i"
    using r'(3) by (simp add: algebra_simps)
  also have "\<dots> = unat r * \<beta> ^ Suc i + mpn_val m up (Suc i)"
    unfolding q(3) by (simp add: mpn_val_snoc algebra_simps)
  finally show ?case using r'(1,2) q(1) Suc.prems by (auto simp: mem_simps)
qed

lemma mod_shifted_loop_correct:
  assumes normal: "\<beta> \<le> 2 * unat d" and s: "0 < s" "s < 64"
  shows "r < d \<Longrightarrow> up + i \<le> length m \<Longrightarrow>
     \<exists>r'. mod_shifted_loop dv s up i n1 r m = Some (drop_bit s r') \<and> r' < d \<and>
       (\<exists>Q. Q * unat d + unat r' = unat r * \<beta> ^ Suc i + unat (push_bit s n1) * \<beta> ^ i + 2 ^ s * mpn_val m up i)"
proof (induction i arbitrary: r n1)
  case 0
  obtain q r1 where "dv r (push_bit s n1) = Some (q, r1)" "r1 < d"
    "unat q * unat d + unat r1 = unat r * \<beta> + unat (push_bit s n1)"
    using divides [OF normal 0(1)] by blast
  then show ?case by auto
next
  case (Suc i)
  let ?n0 = "m ! (up + i)" and ?x = "push_bit s n1 OR drop_bit (64 - s) (m ! (up + i))"
  obtain q r1 where q: "dv r ?x = Some (q, r1)" "r1 < d" "unat q * unat d + unat r1 = unat r * \<beta> + unat ?x"
    using divides [OF normal Suc.prems(1)] by blast
  obtain r' Q where r': "mod_shifted_loop dv s up i ?n0 r1 m = Some (drop_bit s r')" "r' < d"
    "Q * unat d + unat r' = unat r1 * \<beta> ^ Suc i + unat (push_bit s ?n0) * \<beta> ^ i + 2 ^ s * mpn_val m up i"
    using Suc.IH [OF q(2), of ?n0] Suc.prems by auto
  have x: "unat ?x = unat (push_bit s n1) + unat (drop_bit (64 - s) ?n0)" by (rule unat_funnel [OF s])
  have n0: "unat (push_bit s ?n0) + \<beta> * unat (drop_bit (64 - s) ?n0) = 2 ^ s * unat ?n0" using s by (intro shift_split) simp
  have "(unat q * \<beta> ^ Suc i + Q) * unat d + unat r' =
    (unat q * unat d + unat r1) * \<beta> ^ Suc i + unat (push_bit s ?n0) * \<beta> ^ i + 2 ^ s * mpn_val m up i"
    using r'(3) by (simp add: algebra_simps)
  also have "\<dots> = unat r * \<beta> ^ Suc (Suc i) + unat (push_bit s n1) * \<beta> ^ Suc i +
    (unat (push_bit s ?n0) + \<beta> * unat (drop_bit (64 - s) ?n0)) * \<beta> ^ i + 2 ^ s * mpn_val m up i"
    unfolding q(3) x by (simp add: algebra_simps)
  also have "\<dots> = unat r * \<beta> ^ Suc (Suc i) + unat (push_bit s n1) * \<beta> ^ Suc i + 2 ^ s * mpn_val m up (Suc i)"
    unfolding n0 by (simp add: mpn_val_snoc algebra_simps)
  finally have "(unat q * \<beta> ^ Suc i + Q) * unat d + unat r' =
    unat r * \<beta> ^ Suc (Suc i) + unat (push_bit s n1) * \<beta> ^ Suc i + 2 ^ s * mpn_val m up (Suc i)" .
  moreover have "mod_shifted_loop dv s up (Suc i) n1 r m = Some (drop_bit s r')"
    using q(1) r'(1) Suc.prems by (simp add: mem_simps)
  ultimately show ?case using r'(2) by blast
qed

lemma mod_normal_correct:
  assumes normal: "\<beta> \<le> 2 * unat d" and "0 < n" "up + n \<le> length m"
  shows "\<exists>r'. mod_normal dv d up n m = Some r' \<and> r' < d \<and> (\<exists>Q. Q * unat d + unat r' = mpn_val m up n)"
proof -
  obtain i where n: "n = Suc i" using assms(2) by (cases n) auto
  have "0 < d" using normal by (cases "d = 0") (simp_all add: word_neq_0_conv)
  from mod_limbs_correct [OF normal this assms(3)] mod_limbs_correct [OF normal, of "m ! (up + i)" up i m] assms(3)
  show ?thesis
    by (cases "d \<le> m ! (up + i)") (auto simp: mod_normal_def n mem_simps mpn_val_snoc add.commute)
qed

lemma mod_shifted_correct:
  assumes normal: "\<beta> \<le> 2 * unat d" and s: "0 < s" "s < 64" "unat d = 2 ^ s * unat d0" "d0 \<noteq> 0" and n: "0 < n" "up + n \<le> length m"
  shows "\<exists>r'. mod_shifted dv s up n m = Some r' \<and> r' < d0 \<and> (\<exists>Q. Q * unat d0 + unat r' = mpn_val m up n)"
proof -
  obtain i where i: "n = Suc i" using n(1) by (cases n) auto
  let ?n1 = "m ! (up + i)"
  note st = shifted_start [OF s, of ?n1]
  obtain r' Q where r': "mod_shifted_loop dv s up i ?n1 (drop_bit (64 - s) ?n1) m = Some (drop_bit s r')" "r' < d"
    "Q * unat d + unat r' = 2 ^ s * (unat ?n1 * \<beta> ^ i) + 2 ^ s * mpn_val m up i"
    using mod_shifted_loop_correct [OF normal s(1,2) st(1), of up i m ?n1] n(2) unfolding st(2) i by auto
  have "Q * unat d + unat r' = 2 ^ s * mpn_val m up n"
    unfolding r'(3) by (simp add: i mpn_val_snoc algebra_simps)
  from shifted_remainder [OF s(3) this r'(2)] r'(1) show ?thesis
    using n(2) by (auto simp: mod_shifted_def i mem_simps)
qed

end

interpretation plain: limb_divider "\<lambda>nh nl. udiv_qrnnd_c nh nl d" d for d
proof
  fix nh nl :: limb
  assume "\<beta> \<le> 2 * unat d" "nh < d"
  then show "\<exists>q r. udiv_qrnnd_c nh nl d = Some (q, r) \<and> unat q * unat d + unat r = unat nh * \<beta> + unat nl \<and> r < d"
    using udiv_qrnnd_c_correct by metis
qed

lemma invert_divisor_correct:
  assumes d: "\<beta> \<le> 2 * unat d"
  obtains di where "invert_divisor d = Some di"
    "(\<beta> + unat di) * unat d \<le> \<beta> * \<beta>" "\<beta> * \<beta> \<le> (\<beta> + unat di) * unat d + unat d"
proof (cases "push_bit 1 d = 0")
  case True
  then have "2 * unat d mod \<beta> = 0" using unat_push_bit [of 1 d] by simp
  moreover have "2 * unat d < \<beta> + \<beta>" using limb_bound [of d] by linarith
  ultimately have e: "2 * unat d = \<beta>" using d by (metis add_diff_inverse_nat le_add_diff_inverse mod_add_self1 mod_less nat_add_left_cancel_less not_le add_0_right)
  have o: "unat (NOT 0 :: limb) + 1 = \<beta>" by (simp add: \<beta>_def unsigned_minus_1_eq_mask mask_eq_exp_minus_1)
  then have "(\<beta> + unat (NOT 0 :: limb) + 1) * unat d = \<beta> * \<beta>" using e by (metis add.assoc mult.commute mult_2 mult.assoc)
  then show ?thesis using True that [of "NOT 0"] by (simp add: invert_divisor_def distrib_right)
next
  case False
  have nd: "unat (- d) + unat d = \<beta>"
    using sub_borrow [of 0 d] d by (cases "0 < - d") (auto simp: word_gt_0)
  have "2 * unat d \<noteq> \<beta>" 
  proof
    assume "2 * unat d = \<beta>"
    then have "unat (push_bit 1 d) = 0" unfolding unat_push_bit by simp
    with False show False by (simp add: unat_eq_0)
  qed
  then have "- d < d" using nd d by (simp add: word_less_nat_alt)
  from udiv_qrnnd_c_correct [OF this d, of 0] obtain di r where
    q: "udiv_qrnnd_c (- d) 0 d = Some (di, r)" "unat di * unat d + unat r = unat (- d) * \<beta>" "r < d" by auto
  have "\<beta> * \<beta> = unat (- d) * \<beta> + unat d * \<beta>" using nd by (metis distrib_right)
  with q(2) have "\<beta> * \<beta> = (\<beta> + unat di) * unat d + unat r" by (simp add: algebra_simps)
  moreover have "unat r < unat d" using q(3) by (simp add: word_less_nat_alt)
  ultimately show ?thesis using q(1) False that [of di] by (simp add: invert_divisor_def)
qed

interpretation preinv: limb_divider "\<lambda>nh nl. Some (udiv_qrnnd_preinv nh nl d (the (invert_divisor d)))" d for d
proof
  fix nh nl :: limb
  assume d: "\<beta> \<le> 2 * unat d" "nh < d"
  obtain di where di: "invert_divisor d = Some di"
    "(\<beta> + unat di) * unat d \<le> \<beta> * \<beta>" "\<beta> * \<beta> \<le> (\<beta> + unat di) * unat d + unat d"
    by (rule invert_divisor_correct [OF d(1)])
  from udiv_qrnnd_preinv_correct [OF d(2,1) di(2,3)]
  show "\<exists>q r. Some (udiv_qrnnd_preinv nh nl d (the (invert_divisor d))) = Some (q, r) \<and>
    unat q * unat d + unat r = unat nh * \<beta> + unat nl \<and> r < d"
    unfolding di(1) by (metis option.sel)
qed

subsection \<open>The two routines\<close>

lemma shift_divisor_correct:
  assumes "s < 64" "2 ^ s * unat d < \<beta>"
  shows "shift_divisor d s = Some (push_bit s d)" "unat (push_bit s d) = 2 ^ s * unat d"
  using assms by (simp_all add: shift_divisor_def unat_push_bit)

lemma mpn_divmod_1_computes:
  assumes d: "d \<noteq> 0" and lay: "qp + n \<le> length m" "up + n \<le> length m" "up \<le> qp \<or> qp + n \<le> up"
  shows "\<exists>m' r. mpn_divmod_1 umul_time udiv_time qp up n d m = Some (m', r) \<and> r < d \<and> changes m m' qp n \<and>
    mpn_val m' qp n * unat d + unat r = mpn_val m up n"
proof (cases "n = 0")
  case True
  then show ?thesis using d by (simp add: mpn_divmod_1_def word_neq_0_conv)
next
  case False
  then have n: "0 < n" by simp
  obtain s where s: "count_leading_zeros d = Some s" "s < 64" "2 ^ s * unat d < \<beta>" "\<beta> \<le> 2 * (2 ^ s * unat d)"
    by (rule count_leading_zeros_correct [OF d])
  note sh = shift_divisor_correct [OF s(2,3)]
  have normal: "\<beta> \<le> 2 * unat (push_bit s d)" using s(4) unfolding sh(2) .
  obtain di where di: "invert_divisor (push_bit s d) = Some di" by (rule invert_divisor_correct [OF normal])
  show ?thesis
  proof (cases "s = 0")
    case True
    with normal di have "\<beta> \<le> 2 * unat d" "invert_divisor d = Some di" by simp_all
    with plain.divmod_normal_correct [OF _ n lay, of d] preinv.divmod_normal_correct [OF _ n lay, of d] True s(1) n
    show ?thesis by (simp add: mpn_divmod_1_def)
  next
    case False
    then have "0 < s" by simp
    from plain.divmod_shifted_correct [OF normal this s(2) sh(2) d n lay]
      preinv.divmod_shifted_correct [OF normal this s(2) sh(2) d n lay] s(1) sh(1) di False n
    show ?thesis by (simp add: mpn_divmod_1_def)
  qed
qed

lemma mpn_mod_1_computes:
  assumes d: "d \<noteq> 0" and lay: "up + n \<le> length m"
  shows "\<exists>r. mpn_mod_1 umul_time udiv_time up n d m = Some r \<and> r < d \<and> (\<exists>Q. Q * unat d + unat r = mpn_val m up n)"
proof (cases "n = 0")
  case True
  then show ?thesis using d by (simp add: mpn_mod_1_def word_neq_0_conv)
next
  case False
  then have n: "0 < n" by simp
  obtain s where s: "count_leading_zeros d = Some s" "s < 64" "2 ^ s * unat d < \<beta>" "\<beta> \<le> 2 * (2 ^ s * unat d)"
    by (rule count_leading_zeros_correct [OF d])
  note sh = shift_divisor_correct [OF s(2,3)]
  have normal: "\<beta> \<le> 2 * unat (push_bit s d)" using s(4) unfolding sh(2) .
  obtain di where di: "invert_divisor (push_bit s d) = Some di" by (rule invert_divisor_correct [OF normal])
  show ?thesis
  proof (cases "s = 0")
    case True
    with normal di have "\<beta> \<le> 2 * unat d" "invert_divisor d = Some di" by simp_all
    with plain.mod_normal_correct [OF _ n lay, of d] preinv.mod_normal_correct [OF _ n lay, of d] True s(1) n
    show ?thesis by (simp add: mpn_mod_1_def)
  next
    case False
    then have "0 < s" by simp
    from plain.mod_shifted_correct [OF normal this s(2) sh(2) d n lay]
      preinv.mod_shifted_correct [OF normal this s(2) sh(2) d n lay] s(1) sh(1) di False n
    show ?thesis by (simp add: mpn_mod_1_def)
  qed
qed

subsection \<open>Properties\<close>

text \<open>
  C20: division by one limb.  For every divisor but zero, whatever the cost constants of the processor
  make the code choose - dividing directly or multiplying with an inverse, with or without moving
  the dividend up - \<open>mpn_divmod_1\<close> stores the quotient, changes nothing else, and it and \<open>mpn_mod_1\<close>
  return the remainder.  The quotient may take the place of the dividend.
\<close>

theorem mpn_divmod_1_correct:
  assumes "d \<noteq> 0" "qp + n \<le> length m" "up + n \<le> length m" "up \<le> qp \<or> qp + n \<le> up"
  shows "\<exists>m' r. mpn_divmod_1 umul_time udiv_time qp up n d m = Some (m', r) \<and> changes m m' qp n \<and>
    mpn_val m' qp n = mpn_val m up n div unat d \<and> unat r = mpn_val m up n mod unat d \<and>
    mpn_mod_1 umul_time' udiv_time' up n d m = Some r"
proof -
  obtain m' r where q: "mpn_divmod_1 umul_time udiv_time qp up n d m = Some (m', r)" "r < d" "changes m m' qp n"
    "mpn_val m' qp n * unat d + unat r = mpn_val m up n" using mpn_divmod_1_computes [OF assms] by blast
  obtain r' Q where r': "mpn_mod_1 umul_time' udiv_time' up n d m = Some r'" "r' < d"
    "Q * unat d + unat r' = mpn_val m up n" using mpn_mod_1_computes [OF assms(1,3)] by blast
  have lt: "unat r < unat d" "unat r' < unat d" using q(2) r'(2) by (simp_all add: word_less_nat_alt)
  have "unat r = mpn_val m up n mod unat d" "mpn_val m' qp n = mpn_val m up n div unat d"
    using lt(1) unfolding q(4) [symmetric] by simp_all
  moreover have "unat r' = mpn_val m up n mod unat d" using lt(2) unfolding r'(3) [symmetric] by simp
  ultimately show ?thesis using q(1,3) r'(1) by (metis word_unat_eq_iff)
qed

theorem mpn_divmod_1_witness:
  "\<exists>m' r. mpn_divmod_1 1 40 0 0 3 10 [7, 0, 5] = Some (m', r) \<and> changes [7, 0, 5] m' 0 3 \<and>
     mpn_val m' 0 3 = mpn_val [7, 0, 5] 0 3 div unat (10 :: limb) \<and> unat r = mpn_val [7, 0, 5] 0 3 mod unat (10 :: limb) \<and>
     mpn_mod_1 1 1 0 3 10 [7, 0, 5] = Some r"
  by (rule mpn_divmod_1_correct) simp_all

end
