(* ===== verification/Mpn_Div.thy ===== *)
theory Mpn_Div
  imports Mpn_Div_1
begin

text \<open>
  Long division: \<open>mpn_divrem\<close> of \<^verbatim>\<open>src/original/stdlib/divrem.c\<close>, with its special cases for divisors
  of one and two limbs and its general case, Knuth's algorithm D.

  The quotient may be extended by \<open>k\<close> fraction limbs (\<open>qextra_limbs\<close>).  The division of two limbs by
  one is the portable one.
\<close>

subsection \<open>The routine\<close>

fun div_zeros :: "divider \<Rightarrow> nat \<Rightarrow> nat \<Rightarrow> limb \<Rightarrow> mem \<Rightarrow> (mem \<times> limb) option" where
  "div_zeros dv qp 0 n1 m = Some (m, n1)"
| "div_zeros dv qp (Suc i) n1 m =
     do { (q, n1) \<leftarrow> dv n1 0;
          m \<leftarrow> wr m (qp + i) q;
          div_zeros dv qp i n1 m }"

definition divrem_1 :: "nat \<Rightarrow> nat \<Rightarrow> nat \<Rightarrow> nat \<Rightarrow> nat \<Rightarrow> mem \<Rightarrow> (mem \<times> limb) option" where
  "divrem_1 qp k np nsize dp m =
     do { d \<leftarrow> rd m dp;
          n1 \<leftarrow> rd m (np + (nsize - 1));
          let (n1, most_significant_q_limb) = (if d \<le> n1 then (n1 - d, 1) else (n1, 0));
          (m, n1) \<leftarrow> div_limbs (\<lambda>nh nl. udiv_qrnnd_c nh nl d) (qp + k) np (nsize - 1) n1 m;
          (m, n1) \<leftarrow> div_zeros (\<lambda>nh nl. udiv_qrnnd_c nh nl d) qp k n1 m;
          m \<leftarrow> wr m np n1;
          Some (m, most_significant_q_limb) }"

text \<open>
  The label \<open>q_test\<close>: lower the estimate of the quotient while it is too large.  The loop returns the
  new values of \<open>q\<close>, \<open>r\<close>, \<open>n1\<close> and \<open>n0\<close>.
\<close>

partial_function (option) q_test ::
  "limb \<Rightarrow> limb \<Rightarrow> limb \<Rightarrow> limb \<Rightarrow> limb \<Rightarrow> limb \<Rightarrow> limb \<Rightarrow> (limb \<times> limb \<times> limb \<times> limb) option" where
  "q_test d1 d0 n2 q r n1 n0 =
     (if r < n1 \<or> n1 = r \<and> n2 < n0
      then let q = q - 1; (n1, n0) = sub_ddmmss n1 n0 0 d0; r = r + d1 in
           if d1 \<le> r then q_test d1 d0 n2 q r n1 n0 else Some (q, r, n1, n0)
      else Some (q, r, n1, n0))"

declare q_test.simps [code]

definition divrem_2_finish :: "limb \<Rightarrow> limb \<Rightarrow> limb \<Rightarrow> limb \<Rightarrow> limb \<Rightarrow> limb \<Rightarrow> limb \<Rightarrow> (limb \<times> limb \<times> limb) option" where
  "divrem_2_finish d1 d0 n2 q r n1 n0 =
     do { (q, r, n1, n0) \<leftarrow> q_test d1 d0 n2 q r n1 n0;
          let (n1, n0) = sub_ddmmss r n2 n1 n0;
          Some (q, n1, n0) }"

definition divrem_2_digit :: "limb \<Rightarrow> limb \<Rightarrow> limb \<Rightarrow> limb \<Rightarrow> limb \<Rightarrow> (limb \<times> limb \<times> limb) option" where
  "divrem_2_digit d1 d0 n1 n0 n2 =
     (if n1 = d1
      then let q = NOT 0; r = n0 + d1 in
           if r < d1 then let (n1, n0) = add_ssaaaa (r - d0) n2 0 d0 in Some (q, n1, n0)
           else divrem_2_finish d1 d0 n2 q r (d0 - of_bool (d0 \<noteq> 0)) (- d0)
      else do { (q, r) \<leftarrow> udiv_qrnnd_c n1 n0 d1;
                let (n1, n0) = umul_ppmm d0 q;
                divrem_2_finish d1 d0 n2 q r n1 n0 })"

fun divrem_2_loop :: "nat \<Rightarrow> nat \<Rightarrow> limb \<Rightarrow> limb \<Rightarrow> nat \<Rightarrow> nat \<Rightarrow> limb \<Rightarrow> limb \<Rightarrow> mem \<Rightarrow> (mem \<times> nat \<times> limb \<times> limb) option" where
  "divrem_2_loop k qp d1 d0 0 np n1 n0 m = Some (m, np, n1, n0)"
| "divrem_2_loop k qp d1 d0 (Suc i) np n1 n0 m =
     do { (np, m) \<leftarrow> if k \<le> i then Some (np - 1, m) else do { m \<leftarrow> wr m np 0; Some (np, m) };
          n2 \<leftarrow> rd m np;
          (q, n1, n0) \<leftarrow> divrem_2_digit d1 d0 n1 n0 n2;
          m \<leftarrow> wr m (qp + i) q;
          divrem_2_loop k qp d1 d0 i np n1 n0 m }"

definition divrem_2 :: "nat \<Rightarrow> nat \<Rightarrow> nat \<Rightarrow> nat \<Rightarrow> nat \<Rightarrow> mem \<Rightarrow> (mem \<times> limb) option" where
  "divrem_2 qp k np nsize dp m =
     (let np = np + (nsize - 2) in
      do { d1 \<leftarrow> rd m (dp + 1);
           d0 \<leftarrow> rd m dp;
           n1 \<leftarrow> rd m (np + 1);
           n0 \<leftarrow> rd m np;
           let (n1, n0, most_significant_q_limb) =
             (if d1 \<le> n1 \<and> (d1 < n1 \<or> d0 \<le> n0)
              then let (n1, n0) = sub_ddmmss n1 n0 d1 d0 in (n1, n0, 1) else (n1, n0, 0));
           (m, np, n1, n0) \<leftarrow> divrem_2_loop k qp d1 d0 (k + nsize - 2) np n1 n0 m;
           m \<leftarrow> wr m (np + 1) n1;
           m \<leftarrow> wr m np n0;
           Some (m, most_significant_q_limb) })"

text \<open>The general case.  \<open>adjust_q\<close> is the loop that lowers the estimate with the second limb of the divisor.\<close>

partial_function (option) adjust_q :: "limb \<Rightarrow> limb \<Rightarrow> limb \<Rightarrow> limb \<Rightarrow> limb \<Rightarrow> limb \<Rightarrow> limb \<Rightarrow> limb option" where
  "adjust_q dX d1 n2 q r n1 n0 =
     (if r < n1 \<or> n1 = r \<and> n2 < n0
      then let q = q - 1; r = r + dX in
           if r < dX then Some q
           else adjust_q dX d1 n2 q r (n1 - of_bool (n0 < d1)) (n0 - d1)
      else Some q)"

declare adjust_q.simps [code]

definition divrem_digit :: "nat \<Rightarrow> limb \<Rightarrow> limb \<Rightarrow> limb \<Rightarrow> nat \<Rightarrow> mem \<Rightarrow> limb option" where
  "divrem_digit dsize dX d1 n0 np m =
     (if n0 = dX then Some (NOT 0)
      else do { nh \<leftarrow> rd m (np + (dsize - 1));
                (q, r) \<leftarrow> udiv_qrnnd_c n0 nh dX;
                let (n1, n0) = umul_ppmm d1 q;
                nl \<leftarrow> rd m (np + (dsize - 2));
                adjust_q dX d1 nl q r n1 n0 })"

definition divrem_step :: "nat \<Rightarrow> nat \<Rightarrow> limb \<Rightarrow> limb \<Rightarrow> limb \<Rightarrow> limb \<Rightarrow> nat \<Rightarrow> mem \<Rightarrow> (mem \<times> limb) option" where
  "divrem_step dp dsize dX d1 n0 n2 np m =
     do { q \<leftarrow> divrem_digit dsize dX d1 n0 np m;
          (m, cy_limb) \<leftarrow> mpn_submul_1 np dp dsize q m;
          if n2 \<noteq> cy_limb
          then do { (m, cy) \<leftarrow> mpn_add_n np np dp dsize m; Some (m, q - 1) }
          else Some (m, q) }"

definition divrem_position :: "nat \<Rightarrow> nat \<Rightarrow> nat \<Rightarrow> nat \<Rightarrow> mem \<Rightarrow> (nat \<times> limb \<times> mem) option" where
  "divrem_position k dsize i np m =
     (if k \<le> i then do { n2 \<leftarrow> rd m (np - 1 + dsize); Some (np - 1, n2, m) }
      else do { n2 \<leftarrow> rd m (np + (dsize - 1));
                m \<leftarrow> MPN_COPY_DECR (np + 1) np dsize m;
                m \<leftarrow> wr m np 0;
                Some (np, n2, m) })"

fun divrem_loop :: "nat \<Rightarrow> nat \<Rightarrow> nat \<Rightarrow> nat \<Rightarrow> limb \<Rightarrow> limb \<Rightarrow> nat \<Rightarrow> nat \<Rightarrow> limb \<Rightarrow> mem \<Rightarrow> mem option" where
  "divrem_loop k qp dp dsize dX d1 0 np n0 m = Some m"
| "divrem_loop k qp dp dsize dX d1 (Suc i) np n0 m =
     do { (np, n2, m) \<leftarrow> divrem_position k dsize i np m;
          (m, q) \<leftarrow> divrem_step dp dsize dX d1 n0 n2 np m;
          m \<leftarrow> wr m (qp + i) q;
          n0 \<leftarrow> rd m (np + (dsize - 1));
          divrem_loop k qp dp dsize dX d1 i np n0 m }"

definition divrem_long :: "nat \<Rightarrow> nat \<Rightarrow> nat \<Rightarrow> nat \<Rightarrow> nat \<Rightarrow> nat \<Rightarrow> mem \<Rightarrow> (mem \<times> limb) option" where
  "divrem_long qp k np nsize dp dsize m =
     (let np = np + (nsize - dsize) in
      do { dX \<leftarrow> rd m (dp + (dsize - 1));
           d1 \<leftarrow> rd m (dp + (dsize - 2));
           n0 \<leftarrow> rd m (np + (dsize - 1));
           c \<leftarrow> if dX \<le> n0 then if dX < n0 then Some True else map_option (\<lambda>c. 0 \<le> c) (mpn_cmp np dp (dsize - 1) m)
                else Some False;
           (m, n0, most_significant_q_limb) \<leftarrow>
             if c then do { (m, cy) \<leftarrow> mpn_sub_n np np dp dsize m; n0 \<leftarrow> rd m (np + (dsize - 1)); Some (m, n0, 1) }
             else Some (m, n0, 0);
           m \<leftarrow> divrem_loop k qp dp dsize dX d1 (k + nsize - dsize) np n0 m;
           Some (m, most_significant_q_limb) })"

definition mpn_divrem :: "nat \<Rightarrow> nat \<Rightarrow> nat \<Rightarrow> nat \<Rightarrow> nat \<Rightarrow> nat \<Rightarrow> mem \<Rightarrow> (mem \<times> limb) option" where
  "mpn_divrem qp k np nsize dp dsize m =
     (if dsize = 0 then None
      else if dsize = 1 then divrem_1 qp k np nsize dp m
      else if dsize = 2 then divrem_2 qp k np nsize dp m
      else divrem_long qp k np nsize dp dsize m)"

subsection \<open>Estimating a quotient limb\<close>

text \<open>
  The state of an estimate \<open>q\<close> of the quotient of \<open>A * \<beta> + n2\<close> by \<open>d1 * \<beta> + d0\<close>: what is left of \<open>A\<close> is
  \<open>r\<close>, and \<open>q + 1\<close> is known to be too large.  The code keeps \<open>r\<close> modulo \<open>\<beta>\<close> and stops when it overflows.
\<close>

definition estimate :: "nat \<Rightarrow> nat \<Rightarrow> nat \<Rightarrow> nat \<Rightarrow> nat \<Rightarrow> nat \<Rightarrow> bool" where
  "estimate d1 d0 n2 A q r \<longleftrightarrow> q * d1 + r = A \<and> (r < d1 \<or> d1 \<le> r \<and> (r - d1) * \<beta> + n2 < (q + 1) * d0)"

lemma estimate_next:
  "estimate d1 d0 n2 A q r \<Longrightarrow> r * \<beta> + n2 < q * d0 \<Longrightarrow> 0 < q \<and> estimate d1 d0 n2 A (q - 1) (r + d1)"
  by (cases q) (auto simp: estimate_def)

lemma estimate_done:
  assumes "estimate d1 d0 n2 A q r" "q * d0 \<le> r * \<beta> + n2" "n2 < \<beta>"
  shows "q * (d1 * \<beta> + d0) + (r * \<beta> + n2 - q * d0) = A * \<beta> + n2" "r * \<beta> + n2 - q * d0 < d1 * \<beta> + d0"
proof -
  have A: "A = q * d1 + r" using assms(1) by (simp add: estimate_def)
  show "q * (d1 * \<beta> + d0) + (r * \<beta> + n2 - q * d0) = A * \<beta> + n2"
    using assms(2) unfolding A by (simp add: algebra_simps)
  from assms(1) consider "r < d1" | "d1 \<le> r" "(r - d1) * \<beta> + n2 < (q + 1) * d0" by (auto simp: estimate_def)
  then show "r * \<beta> + n2 - q * d0 < d1 * \<beta> + d0"
  proof cases
    case 1
    then have "(r + 1) * \<beta> \<le> d1 * \<beta>" by (intro mult_le_mono1) simp
    with assms(3) show ?thesis by (simp add: distrib_right)
  next
    case 2
    then have "r * \<beta> = (r - d1) * \<beta> + d1 * \<beta>" by (metis distrib_right le_add_diff_inverse2)
    with 2(2) assms(2) show ?thesis by (simp only: distrib_right mult_1)
  qed
qed

lemma two_limbs_less:
  "(r < n1 \<or> n1 = r \<and> n2 < n0) \<longleftrightarrow> unat r * \<beta> + unat n2 < unat n1 * \<beta> + unat (n0 :: limb)"
proof (cases r n1 rule: linorder_cases)
  case less
  then have "(unat r + 1) * \<beta> \<le> unat n1 * \<beta>" by (intro mult_le_mono1) (simp add: word_less_nat_alt)
  then have "unat r * \<beta> + unat n2 < unat n1 * \<beta> + unat n0"
    using limb_bound [of n2] unfolding distrib_right mult_1 by linarith
  with less show ?thesis by simp
next
  case equal
  then show ?thesis by (simp add: word_less_nat_alt)
next
  case greater
  then have "(unat n1 + 1) * \<beta> \<le> unat r * \<beta>" by (intro mult_le_mono1) (simp add: word_less_nat_alt)
  then have "\<not> unat r * \<beta> + unat n2 < unat n1 * \<beta> + unat n0"
    using limb_bound [of n0] unfolding distrib_right mult_1 by linarith
  with greater show ?thesis by auto
qed

lemma two_limbs_bound: "unat x * \<beta> + unat y < \<beta> * \<beta>" for x y :: limb
proof -
  have "(unat x + 1) * \<beta> \<le> \<beta> * \<beta>" using limb_bound [of x] by (intro mult_le_mono1) linarith
  then show ?thesis using limb_bound [of y] unfolding distrib_right mult_1 by linarith
qed

lemma beta_pred: "(\<beta> - 1) * x + x = \<beta> * x"
  using mult_eq_if [of \<beta> x] by simp

lemma unat_dec: "0 < unat q \<Longrightarrow> unat (q - 1 :: limb) = unat q - 1"
  by (subst unat_sub) (simp_all add: word_le_nat_alt)

lemma borrow_test: "x < x - y \<longleftrightarrow> x < y" for x y :: limb
proof (cases "x < x - y")
  case True
  have "unat (x - y) + unat y = unat x + \<beta>" using sub_borrow [of x y] True by simp
  then have "unat x < unat y" using limb_bound [of "x - y"] by linarith
  with True show ?thesis by (simp add: word_less_nat_alt)
next
  case False
  have "unat (x - y) + unat y = unat x" using sub_borrow [of x y] False by simp
  then have "\<not> unat x < unat y" by simp
  with False show ?thesis by (simp add: word_less_nat_alt)
qed

lemma limb_product_less: "unat (q :: limb) * unat (d :: limb) < \<beta> * \<beta>"
  by (intro mult_strict_mono) auto

lemma q_test_correct:
  assumes "estimate (unat d1) (unat d0) (unat n2) A (unat q) (unat r)" "unat n1 * \<beta> + unat n0 = unat q * unat d0"
  shows "\<exists>q' r' n1' n0' \<rho>. q_test d1 d0 n2 q r n1 n0 = Some (q', r', n1', n0') \<and>
    unat n1' * \<beta> + unat n0' = unat q' * unat d0 \<and> unat r' = \<rho> mod \<beta> \<and>
    estimate (unat d1) (unat d0) (unat n2) A (unat q') \<rho> \<and> unat q' * unat d0 \<le> \<rho> * \<beta> + unat n2"
  using assms
proof (induction "unat q" arbitrary: q r n1 n0 rule: less_induct)
  case less
  show ?case
  proof (cases "r < n1 \<or> n1 = r \<and> n2 < n0")
    case False
    then have "unat q * unat d0 \<le> unat r * \<beta> + unat n2" using less.prems(2) two_limbs_less by (metis not_le)
    moreover have "q_test d1 d0 n2 q r n1 n0 = Some (q, r, n1, n0)"
      unfolding q_test.simps [of d1 d0 n2 q] using False by auto
    moreover have "unat r = unat r mod \<beta>" by simp
    ultimately show ?thesis using less.prems by blast
  next
    case True
    then have big: "unat r * \<beta> + unat n2 < unat q * unat d0" using less.prems(2) two_limbs_less by metis
    note next' = estimate_next [OF less.prems(1) big]
    then have q: "unat (q - 1) = unat q - 1" by (intro unat_dec) simp
    obtain h l where s: "sub_ddmmss n1 n0 0 d0 = (h, l)" by force
    have "unat q * unat d0 = (unat q - 1) * unat d0 + unat d0"
      using next' by (metis Suc_diff_1 mult_Suc add.commute)
    with sub_ddmmss_correct [OF s] less.prems(2) have hl: "unat h * \<beta> + unat l = unat (q - 1) * unat d0"
      unfolding q by simp
    show ?thesis
    proof (cases "d1 \<le> r + d1")
      case ok: True
      then have r: "unat (r + d1) = unat r + unat d1"
        using add_carry' [of r d1] by (simp add: not_less [symmetric])
      have "unat (q - 1) < unat q" using q next' by simp
      from less.hyps [OF this, of "r + d1" h l] next' hl q r
      show ?thesis unfolding q_test.simps [of d1 d0 n2 q] using True ok s by (simp add: Let_def)
    next
      case False
      then have r: "unat r + unat d1 = unat (r + d1) + \<beta>" using add_carry' [of r d1] by (simp add: not_le)
      have "(unat r + unat d1) * \<beta> + unat n2 \<ge> \<beta> * \<beta>" unfolding r by (simp add: distrib_right)
      then have "unat (q - 1) * unat d0 \<le> (unat r + unat d1) * \<beta> + unat n2"
        using limb_product_less [of "q - 1" d0] by linarith
      moreover have "q_test d1 d0 n2 q r n1 n0 = Some (q - 1, r + d1, h, l)"
        unfolding q_test.simps [of d1 d0 n2 q] using True False s by (simp add: Let_def)
      moreover have "unat (r + d1) = (unat r + unat d1) mod \<beta>" unfolding r by simp
      ultimately show ?thesis using next' hl q by metis
    qed
  qed
qed

lemma adjust_q_correct:
  assumes "estimate (unat dX) (unat d1) (unat n2) A (unat q) (unat r)" "unat n1 * \<beta> + unat n0 = unat q * unat d1"
  shows "\<exists>q' \<rho>. adjust_q dX d1 n2 q r n1 n0 = Some q' \<and>
    estimate (unat dX) (unat d1) (unat n2) A (unat q') \<rho> \<and> unat q' * unat d1 \<le> \<rho> * \<beta> + unat n2"
  using assms
proof (induction "unat q" arbitrary: q r n1 n0 rule: less_induct)
  case less
  show ?case
  proof (cases "r < n1 \<or> n1 = r \<and> n2 < n0")
    case False
    then have "unat q * unat d1 \<le> unat r * \<beta> + unat n2" using less.prems(2) two_limbs_less by (metis not_le)
    moreover have "adjust_q dX d1 n2 q r n1 n0 = Some q"
      unfolding adjust_q.simps [of dX d1 n2 q] using False by auto
    ultimately show ?thesis using less.prems by blast
  next
    case True
    then have big: "unat r * \<beta> + unat n2 < unat q * unat d1" using less.prems(2) two_limbs_less by metis
    note next' = estimate_next [OF less.prems(1) big]
    then have q: "unat (q - 1) = unat q - 1" by (intro unat_dec) simp
    show ?thesis
    proof (cases "r + dX < dX")
      case False
      then have r: "unat (r + dX) = unat r + unat dX" using add_carry' [of r dX] by simp
      have s: "sub_ddmmss n1 n0 0 d1 = (n1 - of_bool (n0 < d1), n0 - d1)"
        by (simp add: sub_ddmmss_def Let_def borrow_test)
      have "unat q * unat d1 = (unat q - 1) * unat d1 + unat d1"
        using next' by (metis Suc_diff_1 mult_Suc add.commute)
      with sub_ddmmss_correct [OF s] less.prems(2)
      have hl: "unat (n1 - of_bool (n0 < d1)) * \<beta> + unat (n0 - d1) = unat (q - 1) * unat d1"
        unfolding q by simp
      have "unat (q - 1) < unat q" using q next' by simp
      from less.hyps [OF this, of "r + dX" "n1 - of_bool (n0 < d1)" "n0 - d1"] next' hl q r
      show ?thesis unfolding adjust_q.simps [of dX d1 n2 q] using True False by (simp add: Let_def)
    next
      case over: True
      then have r: "unat r + unat dX = unat (r + dX) + \<beta>" using add_carry' [of r dX] by simp
      have "(unat r + unat dX) * \<beta> + unat n2 \<ge> \<beta> * \<beta>" unfolding r by (simp add: distrib_right)
      then have "unat (q - 1) * unat d1 \<le> (unat r + unat dX) * \<beta> + unat n2"
        using limb_product_less [of "q - 1" d1] by linarith
      moreover have "adjust_q dX d1 n2 q r n1 n0 = Some (q - 1)"
        unfolding adjust_q.simps [of dX d1 n2 q] using True over by (simp add: Let_def)
      ultimately show ?thesis using next' q by metis
    qed
  qed
qed

subsection \<open>Divisors of two limbs\<close>

lemma sub_ddmmss_wraps:
  assumes "sub_ddmmss ah al bh bl = (h, l)"
  obtains k where "unat h * \<beta> + unat l + (unat bh * \<beta> + unat bl) = unat ah * \<beta> + unat al + k * (\<beta> * \<beta>)"
proof -
  define b where "b \<longleftrightarrow> al < al - bl"
  have l: "l = al - bl" "h = ah - bh - of_bool b"
    using assms by (auto simp: sub_ddmmss_def Let_def b_def)
  have "unat l + unat bl = unat al + \<beta> * of_bool b" using sub_borrow [of al bl] by (simp add: l b_def)
  moreover define k :: nat where "k = of_bool (ah < ah - bh) + of_bool (ah - bh < h)"
  have "unat h + unat bh + of_bool b = unat ah + \<beta> * k"
    using sub_borrow [of ah bh] sub_borrow [of "ah - bh" "of_bool b"]
    unfolding k_def l(2) [symmetric] unat_of_bool distrib_left by linarith
  then have "(unat h + unat bh + of_bool b) * \<beta> = (unat ah + \<beta> * k) * \<beta>" by simp
  ultimately have "unat h * \<beta> + unat l + (unat bh * \<beta> + unat bl) = unat ah * \<beta> + unat al + k * (\<beta> * \<beta>)"
    by (simp only: distrib_right distrib_left ac_simps)
  then show ?thesis by (rule that)
qed

lemma same_mod_square:
  fixes a b x y :: nat
  assumes "a + x * (\<beta> * \<beta>) = b + y * (\<beta> * \<beta>)" "a < \<beta> * \<beta>" "b < \<beta> * \<beta>"
  shows "a = b"
  using assms by (metis mod_less mod_mult_self1)

lemma divrem_2_finish_correct:
  assumes "estimate (unat d1) (unat d0) (unat n2) A (unat q) (unat r)" "unat n1 * \<beta> + unat n0 = unat q * unat d0"
  shows "\<exists>q' h l. divrem_2_finish d1 d0 n2 q r n1 n0 = Some (q', h, l) \<and>
    unat q' * (unat d1 * \<beta> + unat d0) + (unat h * \<beta> + unat l) = A * \<beta> + unat n2 \<and>
    unat h * \<beta> + unat l < unat d1 * \<beta> + unat d0"
proof -
  obtain q' r' n1' n0' \<rho> where t: "q_test d1 d0 n2 q r n1 n0 = Some (q', r', n1', n0')"
    "unat n1' * \<beta> + unat n0' = unat q' * unat d0" "unat r' = \<rho> mod \<beta>"
    "estimate (unat d1) (unat d0) (unat n2) A (unat q') \<rho>" "unat q' * unat d0 \<le> \<rho> * \<beta> + unat n2"
    using q_test_correct [OF assms] by blast
  obtain h l where s: "sub_ddmmss r' n2 n1' n0' = (h, l)" by force
  let ?V = "\<rho> * \<beta> + unat n2 - unat q' * unat d0"
  note V = estimate_done [OF t(4,5) limb_bound]
  obtain k where k: "unat h * \<beta> + unat l + unat q' * unat d0 = (\<rho> mod \<beta>) * \<beta> + unat n2 + k * (\<beta> * \<beta>)"
    using sub_ddmmss_wraps [OF s] unfolding t(2,3) by blast
  have "\<rho> * \<beta> = (\<rho> mod \<beta>) * \<beta> + \<rho> div \<beta> * (\<beta> * \<beta>)"
    by (metis add.commute distrib_right div_mult_mod_eq mult.assoc)
  with k t(5) have "unat h * \<beta> + unat l + \<rho> div \<beta> * (\<beta> * \<beta>) = ?V + k * (\<beta> * \<beta>)" by linarith
  moreover have "?V < \<beta> * \<beta>" using V(2) two_limbs_bound [of d1 d0] by linarith
  ultimately have "unat h * \<beta> + unat l = ?V" by (rule same_mod_square [OF _ two_limbs_bound])
  then show ?thesis using V t(1) s by (simp add: divrem_2_finish_def)
qed

lemma divrem_2_digit_correct:
  assumes less: "unat n1 * \<beta> + unat n0 < unat d1 * \<beta> + unat d0" and d1: "\<beta> \<le> 2 * unat d1"
  shows "\<exists>q h l. divrem_2_digit d1 d0 n1 n0 n2 = Some (q, h, l) \<and>
    unat q * (unat d1 * \<beta> + unat d0) + (unat h * \<beta> + unat l) = (unat n1 * \<beta> + unat n0) * \<beta> + unat n2 \<and>
    unat h * \<beta> + unat l < unat d1 * \<beta> + unat d0"
proof (cases "n1 = d1")
  case False
  have "\<not> d1 < n1 " using less two_limbs_less [of d1 n1 d0 n0] by auto
  with False have "n1 < d1" by auto
  from udiv_qrnnd_c_correct [OF this d1, of n0] obtain q r where
    q: "udiv_qrnnd_c n1 n0 d1 = Some (q, r)" "unat q * unat d1 + unat r = unat n1 * \<beta> + unat n0" "r < d1" by blast
  obtain h l where hl: "umul_ppmm d0 q = (h, l)" by force
  have "estimate (unat d1) (unat d0) (unat n2) (unat n1 * \<beta> + unat n0) (unat q) (unat r)"
    using q(2,3) by (simp add: estimate_def word_less_nat_alt)
  moreover have "unat h * \<beta> + unat l = unat q * unat d0" using umul_ppmm_correct [OF hl] by (simp add: mult.commute)
  ultimately show ?thesis using divrem_2_finish_correct [of d1 d0 n2 _ q r h l] q(1) hl False
    by (simp add: divrem_2_digit_def)
next
  case True
  let ?A = "unat n1 * \<beta> + unat n0" and ?R = "unat n0 + unat d1"
  have n0: "unat n0 < unat d0" using less True by simp
  have q: "unat (NOT 0 :: limb) = \<beta> - 1" by (simp add: \<beta>_def unsigned_minus_1_eq_mask mask_eq_exp_minus_1)
  have A: "(\<beta> - 1) * unat d1 + ?R = ?A" using True beta_pred [of "unat d1"] by (simp add: mult.commute [of \<beta>])
  have "(unat n0 + 1) * \<beta> \<le> unat d0 * \<beta>" using n0 by (intro mult_le_mono1) simp
  then have "unat n0 * \<beta> + unat n2 < unat d0 * \<beta>" using limb_bound [of n2] unfolding distrib_right mult_1 by linarith
  then have est: "estimate (unat d1) (unat d0) (unat n2) ?A (\<beta> - 1) ?R"
    using A by (simp add: estimate_def mult.commute)
  have prod: "(\<beta> - 1) * unat d0 + unat d0 = unat d0 * \<beta>" using beta_pred [of "unat d0"] by (simp only: mult.commute [of \<beta>])
  show ?thesis
  proof (cases "n0 + d1 < d1")
    case over: True
    then have r: "unat (n0 + d1) + \<beta> = ?R" using add_carry' [of n0 d1] by simp
    obtain h l where hl: "add_ssaaaa (n0 + d1 - d0) n2 0 d0 = (h, l)" by force
    have "?R * \<beta> \<ge> \<beta> * \<beta>" unfolding r [symmetric] by (simp add: distrib_right)
    then have "(\<beta> - 1) * unat d0 \<le> ?R * \<beta> + unat n2"
      using limb_product_less [of "NOT 0" d0] unfolding q by linarith
    note V = estimate_done [OF est this limb_bound]
    have "unat (n0 + d1) < unat d0" 
    proof -
      have "unat n0 + unat d1 < unat d0 + \<beta>" using n0 limb_bound [of d1] by linarith
      then show ?thesis using r by linarith
    qed
    then have rd: "unat (n0 + d1 - d0) + unat d0 = unat (n0 + d1) + \<beta>"
      using sub_borrow [of "n0 + d1" d0] borrow_test [of "n0 + d1" d0] by (simp add: word_less_nat_alt)
    have l: "unat l + \<beta> * of_bool (l < n2) = unat n2 + unat d0"
      using add_carry [of n2 d0] hl by (auto simp: add_ssaaaa_def Let_def)
    have V': "?R * \<beta> + unat n2 - (\<beta> - 1) * unat d0 = (unat (n0 + d1 - d0) + of_bool (l < n2)) * \<beta> + unat l"
    proof -
      have "(unat (n0 + d1 - d0) + unat d0) * \<beta> = ?R * \<beta>" unfolding rd r ..
      then show ?thesis using prod l unfolding distrib_right by (simp add: mult.commute)
    qed
    have "unat h = unat (n0 + d1 - d0) + of_bool (l < n2)"
    proof -
      have "h = n0 + d1 - d0 + of_bool (l < n2)" using hl by (auto simp: add_ssaaaa_def Let_def)
      moreover have "unat (n0 + d1 - d0) + of_bool (l < n2) < \<beta>"
      proof -
        have "(unat (n0 + d1 - d0) + of_bool (l < n2)) * \<beta> < \<beta> * \<beta>"
          using V(2) two_limbs_bound [of d1 d0] unfolding V' by linarith
        then show ?thesis by (simp only: mult_less_cancel2)
      qed
      ultimately show ?thesis by (simp add: unat_add)
    qed
    with V' show ?thesis using V True over hl q by (simp add: divrem_2_digit_def Let_def)
  next
    case fits: False
    then have r: "unat (n0 + d1) = ?R" using add_carry' [of n0 d1] by simp
    have "0 < unat d0" using n0 by simp
    then have d0: "d0 \<noteq> 0" by auto
    then have "unat (- d0) + unat d0 = \<beta>" using sub_borrow [of 0 d0] by (cases "0 < - d0") (auto simp: word_gt_0)
    moreover have "unat (d0 - 1) = unat d0 - 1" by (rule unat_dec) fact
    ultimately have "unat (d0 - 1) * \<beta> + unat (- d0) = (\<beta> - 1) * unat d0"
      using prod mult_eq_if [of "unat d0" \<beta>] \<open>0 < unat d0\<close> by simp
    then have "unat (d0 - of_bool (d0 \<noteq> 0)) * \<beta> + unat (- d0) = unat (NOT 0 :: limb) * unat d0"
      using d0 q by simp
    moreover have "estimate (unat d1) (unat d0) (unat n2) ?A (unat (NOT 0 :: limb)) (unat (n0 + d1))"
      unfolding q r by (rule est)
    ultimately show ?thesis
      using divrem_2_finish_correct [of d1 d0 n2 ?A "NOT 0" "n0 + d1" "d0 - of_bool (d0 \<noteq> 0)" "- d0"]
      by (simp only: divrem_2_digit_def Let_def True fits if_True if_False simp_thms)
  qed
qed

text \<open>
  What the loops have in common.  One more quotient limb \<open>q\<close> leaves \<open>R\<close> of the limbs \<open>X\<close> that are being
  divided; \<open>lo\<close> are the limbs of the numerator still to come, and \<open>e\<close> zero limbs follow them.
\<close>

lemma div_combine:
  fixes Q q D R R' X lo :: nat
  assumes "Q * D + R' = (lo + \<beta> ^ j * R) * \<beta> ^ e" "q * D + R = X" "i = j + e"
  shows "(Q + q * \<beta> ^ i) * D + R' = (lo + \<beta> ^ j * X) * \<beta> ^ e"
proof -
  have "(Q + q * \<beta> ^ i) * D + R' = (Q * D + R') + q * D * (\<beta> ^ j * \<beta> ^ e)"
    unfolding assms(3) power_add by (simp add: algebra_simps)
  also have "\<dots> = (lo + \<beta> ^ j * (q * D + R)) * \<beta> ^ e" unfolding assms(1) by (simp add: algebra_simps)
  finally show ?thesis unfolding assms(2) .
qed

lemma only_nth: "only m m' S \<Longrightarrow> i \<notin> S \<Longrightarrow> m' ! i = m ! i"
  by (simp add: only_def)

lemma only_update: "i \<in> S \<Longrightarrow> only m (m[i := x]) S"
  unfolding only_def by (metis length_list_update nth_list_update_neq)

lemma store_limb:
  assumes "only (m[qp + i := q]) m' S" "qp + i \<notin> S" "qp + i < length m"
  shows "mpn_val m' qp (Suc i) = mpn_val m' qp i + unat q * \<beta> ^ i"
  using only_nth [OF assms(1,2)] assms(3) by (simp add: mpn_val_snoc)

lemma val_two: "mpn_val m p 2 = unat (m ! (p + 1)) * \<beta> + unat (m ! p)"
  by (simp add: numeral_2_eq_2 mpn_val_Cons)

lemma val_top_two:
  assumes "2 \<le> s"
  shows "mpn_val m p s = mpn_val m p (s - 2) + \<beta> ^ (s - 2) * (unat (m ! (p + (s - 1))) * \<beta> + unat (m ! (p + (s - 2))))"
proof -
  have "p + (s - 2) + 1 = p + (s - 1)" using assms by simp
  then show ?thesis
    using mpn_val_split [of m p "s - 2" 2] unfolding val_two le_add_diff_inverse2 [OF assms] by metis
qed

lemma divrem_2_loop_correct:
  fixes d1 d0 :: limb
  defines "D \<equiv> unat d1 * \<beta> + unat d0"
  assumes d1: "\<beta> \<le> 2 * unat d1"
  shows "unat n1 * \<beta> + unat n0 < D \<Longrightarrow> np + 2 + (i - k) \<le> length m \<Longrightarrow> qp + i \<le> length m \<Longrightarrow>
    qp + i \<le> np \<or> np + 2 \<le> qp \<Longrightarrow>
    \<exists>m' h l. divrem_2_loop k qp d1 d0 i (np + (i - k)) n1 n0 m = Some (m', np, h, l) \<and>
      only m m' ({np..<np + 2} \<union> {qp..<qp + i}) \<and> unat h * \<beta> + unat l < D \<and>
      mpn_val m' qp i * D + (unat h * \<beta> + unat l) =
        (mpn_val m np (i - k) + \<beta> ^ (i - k) * (unat n1 * \<beta> + unat n0)) * \<beta> ^ min i k"
proof (induction i arbitrary: n1 n0 m)
  case 0
  then show ?case by (simp add: only_def)
next
  case (Suc i)
  let ?S = "{np..<np + 2} \<union> {qp..<qp + Suc i}" and ?j = "i - k"
  define m1 where "m1 = (if k \<le> i then m else m[np := 0])"
  have len: "length m1 = length m" by (simp add: m1_def)
  have pos: "(if k \<le> i then Some (np + (Suc i - k) - 1, m) else do { m \<leftarrow> wr m (np + (Suc i - k)) 0; Some (np + (Suc i - k), m) }) = Some (np + ?j, m1)"
    using Suc.prems(2) by (auto simp: m1_def mem_simps Suc_diff_le)
  have n2: "rd m1 (np + ?j) = Some (m1 ! (np + ?j))" using Suc.prems(2) len by (auto simp: mem_simps)
  obtain q h l where q: "divrem_2_digit d1 d0 n1 n0 (m1 ! (np + ?j)) = Some (q, h, l)"
    "unat q * D + (unat h * \<beta> + unat l) = (unat n1 * \<beta> + unat n0) * \<beta> + unat (m1 ! (np + ?j))" "unat h * \<beta> + unat l < D"
    using divrem_2_digit_correct [OF Suc.prems(1) [unfolded D_def] d1] unfolding D_def by blast
  let ?m = "m1[qp + i := q]"
  have lay: "np + 2 + ?j \<le> length ?m" using Suc.prems(2) len diff_le_mono [of i "Suc i" k] by simp
  obtain m' h' l' where m': "divrem_2_loop k qp d1 d0 i (np + ?j) h l ?m = Some (m', np, h', l')"
    "only ?m m' ({np..<np + 2} \<union> {qp..<qp + i})" "unat h' * \<beta> + unat l' < D"
    "mpn_val m' qp i * D + (unat h' * \<beta> + unat l') =
      (mpn_val ?m np ?j + \<beta> ^ ?j * (unat h * \<beta> + unat l)) * \<beta> ^ min i k"
    using Suc.IH [OF q(3) lay] Suc.prems(3,4) len by auto
  have qi: "qp + i \<notin> {np..<np + 2} \<union> {qp..<qp + i}" "qp + i < length m1" using Suc.prems(3,4) len by auto
  have "mpn_val ?m np ?j = mpn_val m1 np ?j"
    using Suc.prems(4) by (intro changes_val [OF changes_update]) auto
  note comb = div_combine [OF m'(4) [unfolded this] q(2), of i]
  have "only m m1 ?S" by (auto simp: m1_def only_def nth_list_update)
  moreover have "only m1 ?m ?S" by (rule only_update) simp
  moreover have "only ?m m' ?S" by (rule only_mono [OF m'(2)]) auto
  ultimately have "only m m' ?S" using only_trans by blast
  moreover have "mpn_val m' qp (Suc i) * D + (unat h' * \<beta> + unat l') =
      (mpn_val m np (Suc i - k) + \<beta> ^ (Suc i - k) * (unat n1 * \<beta> + unat n0)) * \<beta> ^ min (Suc i) k"
  proof (cases "k \<le> i")
    case True
    then have "Suc i - k = Suc ?j" "min i k = k" "min (Suc i) k = k" "i = ?j + k" by auto
    then show ?thesis unfolding store_limb [OF m'(2) qi] using comb True
      by (simp add: m1_def mpn_val_snoc algebra_simps)
  next
    case False
    then have "Suc i - k = 0" "?j = 0" "min i k = i" "min (Suc i) k = Suc i" by auto
    moreover have "m1 ! np = 0" using False Suc.prems(2) by (simp add: m1_def)
    ultimately show ?thesis unfolding store_limb [OF m'(2) qi] using comb by (simp add: algebra_simps)
  qed
  moreover have "divrem_2_loop k qp d1 d0 (Suc i) (np + (Suc i - k)) n1 n0 m = Some (m', np, h', l')"
    unfolding divrem_2_loop.simps pos using n2 q(1) m'(1) qi(2) by (simp add: mem_simps)
  ultimately show ?case using m'(3) by blast
qed

lemma divrem_2_correct:
  assumes "\<beta> \<le> 2 * unat (m ! (dp + 1))" "2 \<le> n" "np + n \<le> length m" "dp + 2 \<le> length m" "qp + (k + n - 2) \<le> length m"
    and q: "qp + (k + n - 2) \<le> np \<or> np + 2 \<le> qp"
  shows "\<exists>m' h. divrem_2 qp k np n dp m = Some (m', h) \<and> only m m' ({np..<np + 2} \<union> {qp..<qp + (k + n - 2)}) \<and>
    (mpn_val m' qp (k + n - 2) + unat h * \<beta> ^ (k + n - 2)) * mpn_val m dp 2 + mpn_val m' np 2 = mpn_val m np n * \<beta> ^ k \<and>
    mpn_val m' np 2 < mpn_val m dp 2 \<and> unat h \<le> 1"
proof -
  let ?p = "np + (n - 2)" and ?i = "k + n - 2" and ?d1 = "m ! (dp + 1)" and ?d0 = "m ! dp"
  let ?n1 = "m ! (?p + 1)" and ?n0 = "m ! ?p"
  let ?D = "unat ?d1 * \<beta> + unat ?d0" and ?N = "unat ?n1 * \<beta> + unat ?n0"
  have p1: "?p + 1 = np + (n - 1)" using assms(2) by simp
  have j: "?i - k = n - 2" "min ?i k = k" "?i = n - 2 + k" using assms(2) by auto
  define c where "c \<longleftrightarrow> ?d1 \<le> ?n1 \<and> (?d1 < ?n1 \<or> ?d0 \<le> ?n0)"
  have c: "c \<longleftrightarrow> ?D \<le> ?N"
    using two_limbs_less [of ?n1 ?d1 ?n0 ?d0] unfolding c_def by auto
  obtain h l where hl: "(if c then sub_ddmmss ?n1 ?n0 ?d1 ?d0 else (?n1, ?n0)) = (h, l)" by force
  have N: "of_bool c * ?D + (unat h * \<beta> + unat l) = ?N"
    using hl c sub_ddmmss_correct [of ?n1 ?n0 ?d1 ?d0 h l] by (cases c) auto
  have lt: "unat h * \<beta> + unat l < ?D"
  proof (cases c)
    case True
    have "\<beta> * \<beta> \<le> 2 * unat ?d1 * \<beta>" using assms(1) by (rule mult_le_mono1)
    then have "\<beta> * \<beta> \<le> 2 * ?D" unfolding distrib_left mult.assoc by (rule trans_le_add1)
    with N True two_limbs_bound [of ?n1 ?n0] show ?thesis by simp
  qed (use N c in simp)
  have lay: "np + 2 + (?i - k) \<le> length m" using assms(2,3) by (simp add: j)
  obtain m1 h' l' where m1: "divrem_2_loop k qp ?d1 ?d0 ?i ?p h l m = Some (m1, np, h', l')"
    "only m m1 ({np..<np + 2} \<union> {qp..<qp + ?i})" "unat h' * \<beta> + unat l' < ?D"
    "mpn_val m1 qp ?i * ?D + (unat h' * \<beta> + unat l') = (mpn_val m np (n - 2) + \<beta> ^ (n - 2) * (unat h * \<beta> + unat l)) * \<beta> ^ k"
    using divrem_2_loop_correct [OF assms(1) lt lay assms(5) q] unfolding j(1,2) by blast
  let ?m = "m1[np + 1 := h', np := l']"
  have len: "np + 1 < length m1" using only_length [OF m1(2)] assms(2,3) by simp
  have "mpn_val ?m qp ?i = mpn_val m1 qp ?i"
    using q by (intro mpn_val_cong) (auto simp: nth_list_update)
  moreover have "mpn_val ?m np 2 = unat h' * \<beta> + unat l'" using len by (simp add: val_two)
  moreover have "mpn_val m np n = mpn_val m np (n - 2) + \<beta> ^ (n - 2) * ?N"
    unfolding p1 by (rule val_top_two [OF assms(2)])
  ultimately have "(mpn_val ?m qp ?i + unat (of_bool c :: limb) * \<beta> ^ ?i) * mpn_val m dp 2 + mpn_val ?m np 2 = mpn_val m np n * \<beta> ^ k"
    using div_combine [OF m1(4) N j(3)] by (simp add: val_two)
  moreover have "only m ?m ({np..<np + 2} \<union> {qp..<qp + ?i})"
    by (rule only_trans [OF m1(2)]) (auto simp: only_def nth_list_update)
  moreover have "divrem_2 qp k np n dp m = Some (?m, of_bool c)"
  proof -
    have rds: "rd m (dp + 1) = Some ?d1" "rd m dp = Some ?d0" "rd m (?p + 1) = Some ?n1" "rd m ?p = Some ?n0"
      and wrs: "wr m1 (np + 1) h' = Some (m1[np + 1 := h'])" "wr (m1[np + 1 := h']) np l' = Some ?m"
      using assms(2-4) len by (simp_all add: mem_simps)
    have "(if ?d1 \<le> ?n1 \<and> (?d1 < ?n1 \<or> ?d0 \<le> ?n0) then case sub_ddmmss ?n1 ?n0 ?d1 ?d0 of (n1, n0) \<Rightarrow> (n1, n0, 1)
      else (?n1, ?n0, 0)) = (h, l, of_bool c :: limb)"
      using hl unfolding c_def by (auto split: if_splits)
    then show ?thesis by (simp only: divrem_2_def Let_def rds wrs m1(1) Option.bind.simps prod.case)
  qed
  moreover have "mpn_val ?m np 2 < mpn_val m dp 2" using len m1(3) by (simp add: val_two)
  ultimately show ?thesis by (intro exI [of _ ?m] exI [of _ "of_bool c"]) simp
qed

subsection \<open>Divisors of one limb\<close>

lemma div_zeros_correct:
  assumes d: "\<beta> \<le> 2 * unat d"
  shows "r < d \<Longrightarrow> qp + k \<le> length m \<Longrightarrow>
    \<exists>m' r'. div_zeros (\<lambda>nh nl. udiv_qrnnd_c nh nl d) qp k r m = Some (m', r') \<and> r' < d \<and> changes m m' qp k \<and>
      mpn_val m' qp k * unat d + unat r' = unat r * \<beta> ^ k"
proof (induction k arbitrary: r m)
  case (Suc i)
  obtain q r1 where q: "udiv_qrnnd_c r 0 d = Some (q, r1)" "unat q * unat d + unat r1 = unat r * \<beta>" "r1 < d"
    using plain.divides [OF d Suc.prems(1), of 0] by auto
  let ?m = "m[qp + i := q]"
  obtain m' r' where m': "div_zeros (\<lambda>nh nl. udiv_qrnnd_c nh nl d) qp i r1 ?m = Some (m', r')" "r' < d" "changes ?m m' qp i"
    "mpn_val m' qp i * unat d + unat r' = unat r1 * \<beta> ^ i"
    using Suc.IH [OF q(3), of ?m] Suc.prems(2) by auto
  have "m' ! (qp + i) = q" using changes_nth [OF m'(3), of "qp + i"] Suc.prems(2) by simp
  then have "mpn_val m' qp (Suc i) * unat d + unat r' = (unat q * unat d + unat r1) * \<beta> ^ i"
    using m'(4) by (simp add: mpn_val_snoc algebra_simps)
  also have "\<dots> = unat r * \<beta> ^ Suc i" unfolding q(2) by simp
  finally have "mpn_val m' qp (Suc i) * unat d + unat r' = unat r * \<beta> ^ Suc i" .
  moreover have "changes m m' qp (Suc i)" by (rule changes_comp [OF changes_update m'(3)]) simp_all
  ultimately show ?case using q(1) m'(1,2) Suc.prems(2) by (simp add: mem_simps)
qed simp

lemma divrem_1_correct:
  assumes d: "\<beta> \<le> 2 * unat (m ! dp)"
    and "1 \<le> n" "np + n \<le> length m" "dp + 1 \<le> length m" "qp + (k + n - 1) \<le> length m"
    and q: "qp + (k + n - 1) \<le> np \<or> np + 1 \<le> qp"
  shows "\<exists>m' h. divrem_1 qp k np n dp m = Some (m', h) \<and> only m m' ({np..<np + 1} \<union> {qp..<qp + (k + n - 1)}) \<and>
    (mpn_val m' qp (k + n - 1) + unat h * \<beta> ^ (k + n - 1)) * mpn_val m dp 1 + mpn_val m' np 1 = mpn_val m np n * \<beta> ^ k \<and>
    mpn_val m' np 1 < mpn_val m dp 1 \<and> unat h \<le> 1"
proof -
  obtain i where n: "n = Suc i" using assms(2) by (cases n) auto
  let ?d = "m ! dp" and ?n1 = "m ! (np + i)" and ?i = "k + i"
  define c where "c \<longleftrightarrow> ?d \<le> ?n1"
  define r where "r = (if c then ?n1 - ?d else ?n1)"
  have N: "of_bool c * unat ?d + unat r = unat ?n1" by (auto simp: r_def c_def unat_sub word_le_nat_alt)
  have r: "r < ?d"
  proof (cases c)
    case True
    then have "unat ?d + unat r = unat ?n1" using N by simp
    then show ?thesis unfolding word_less_nat_alt using d limb_bound [of ?n1] by linarith
  qed (simp add: r_def c_def)
  obtain m1 r1 where m1: "div_limbs (\<lambda>nh nl. udiv_qrnnd_c nh nl ?d) (qp + k) np i r m = Some (m1, r1)" "r1 < ?d"
    "changes m m1 (qp + k) i" "mpn_val m1 (qp + k) i * unat ?d + unat r1 = unat r * \<beta> ^ i + mpn_val m np i"
    using plain.div_limbs_correct [OF d r, of "qp + k" i m np] assms(3,5) q by (auto simp: n)
  have "qp + k \<le> length m1" using changes_length [OF m1(3)] assms(5) by (simp add: n)
  from div_zeros_correct [OF d m1(2) this] obtain m2 r2 where
    m2: "div_zeros (\<lambda>nh nl. udiv_qrnnd_c nh nl ?d) qp k r1 m1 = Some (m2, r2)" "r2 < ?d" "changes m1 m2 qp k"
    "mpn_val m2 qp k * unat ?d + unat r2 = unat r1 * \<beta> ^ k" by blast
  have hi: "mpn_val m2 (qp + k) i = mpn_val m1 (qp + k) i" by (rule changes_val [OF m2(3)]) simp
  have len: "length m2 = length m" using changes_length m1(3) m2(3) by metis
  have "(mpn_val m2 qp ?i + of_bool c * \<beta> ^ ?i) * unat ?d + unat r2 = (mpn_val m np i + \<beta> ^ i * unat ?n1) * \<beta> ^ k"
  proof (rule div_combine [OF _ N])
    have "mpn_val m2 qp ?i * unat ?d + unat r2 = (mpn_val m1 (qp + k) i * unat ?d + unat r1) * \<beta> ^ k"
      unfolding mpn_val_split [of m2 qp k i] hi using m2(4) by (simp add: algebra_simps)
    then show "mpn_val m2 qp ?i * unat ?d + unat r2 = (mpn_val m np i + \<beta> ^ i * unat r) * \<beta> ^ k"
      unfolding m1(4) by (simp add: algebra_simps)
  qed simp
  moreover have "mpn_val (m2[np := r2]) qp ?i = mpn_val m2 qp ?i"
    using q by (intro mpn_val_cong) (auto simp: n nth_list_update)
  moreover have "only m (m2[np := r2]) ({np..<np + 1} \<union> {qp..<qp + ?i})"
    by (rule only_trans [OF only_trans [OF changes_only [OF m1(3)] changes_only [OF m2(3)]] only_update]) auto
  moreover have "divrem_1 qp k np n dp m = Some (m2[np := r2], of_bool c)"
    using assms(3,4) m1(1) m2(1) len unfolding divrem_1_def
    by (simp add: n Let_def mem_simps r_def c_def split: if_splits)
  ultimately show ?thesis using m2(2) len assms(3)
    by (intro exI [of _ "m2[np := r2]"] exI [of _ "of_bool c"])
      (simp add: n word_less_nat_alt mpn_val_snoc algebra_simps)
qed

subsection \<open>Longer divisors\<close>

text \<open>
  The quotient of the three leading limbs by the two leading limbs of the divisor is at most one
  larger than the quotient limb.
\<close>

lemma quotient_estimate:
  fixes D D0 D3 X X0 X3 B q \<rho> :: nat
  assumes "D = D0 + B * D3" "D0 < B" "X = X0 + B * X3" "X0 < B" "q * D3 + \<rho> = X3" "\<rho> < D3" "q < \<beta>" "\<beta> \<le> D3"
  shows "X < (q + 1) * D" "q * D \<le> X + D"
proof -
  have "X < B * (X3 + 1)" using assms(3,4) by simp
  also have "\<dots> \<le> B * ((q + 1) * D3)" using assms(5,6) by (intro mult_le_mono2) simp
  also have "\<dots> \<le> (q + 1) * D" unfolding assms(1) by (simp add: algebra_simps)
  finally show "X < (q + 1) * D" .
  have "q * D0 \<le> \<beta> * B" using assms(2,7) by (intro mult_le_mono) auto
  also have "\<dots> \<le> D3 * B" using assms(8) by (rule mult_le_mono1)
  finally have "q * D0 \<le> D" unfolding assms(1) by (simp add: mult.commute)
  moreover have "B * (q * D3) \<le> X" unfolding assms(3) assms(5) [symmetric] by (simp add: distrib_left)
  ultimately show "q * D \<le> X + D" unfolding assms(1) by (simp add: algebra_simps)
qed

lemma quotient_estimate_max:
  fixes D D1 X X1 B dX :: nat
  assumes "D = D1 + B * dX" "D1 < B" "X = X1 + B * \<beta> * dX" "\<beta> \<le> 2 * dX"
  shows "(\<beta> - 1) * D \<le> X + D"
proof -
  have "\<beta> * D1 \<le> \<beta> * B" using assms(2) by simp
  also have "\<dots> \<le> 2 * dX * B" using assms(4) by (rule mult_le_mono1)
  finally have "\<beta> * D1 + \<beta> * (B * dX) \<le> X + 2 * (B * dX)" unfolding assms(3) by (simp add: ac_simps)
  then have "(\<beta> - 1) * D + D \<le> X + 2 * (B * dX)" unfolding beta_pred using assms(1) by (simp only: distrib_left)
  with assms(1) show ?thesis by simp
qed

lemma divrem_digit_correct:
  fixes m dp np s n2
  defines "D \<equiv> mpn_val m dp s" and "X \<equiv> unat n2 * \<beta> ^ s + mpn_val m np s"
  assumes s: "2 \<le> s" "np + s \<le> length m" and dX: "\<beta> \<le> 2 * unat (m ! (dp + (s - 1)))" and X: "X < D * \<beta>"
  shows "\<exists>q. divrem_digit s (m ! (dp + (s - 1))) (m ! (dp + (s - 2))) n2 np m = Some q \<and>
    X < (unat q + 1) * D \<and> unat q * D \<le> X + D"
proof -
  let ?dX = "m ! (dp + (s - 1))" and ?d1 = "m ! (dp + (s - 2))"
  have top: "mpn_val m p s = mpn_val m p (s - 1) + \<beta> ^ (s - 1) * unat (m ! (p + (s - 1)))" for p
    using mpn_val_split [of m p "s - 1" 1] s(1) by simp
  have beta: "\<beta> ^ s = \<beta> ^ (s - 1) * \<beta>" using s(1) by (simp flip: power_Suc2)
  show ?thesis
  proof (cases "n2 = ?dX")
    case True
    have "(\<beta> - 1) * D \<le> X + D"
      unfolding D_def X_def by (rule quotient_estimate_max [OF top mpn_val_less _ dX]) (simp add: True beta ac_simps)
    moreover have "X < (\<beta> - 1 + 1) * D" using X by (simp add: mult.commute)
    moreover have "unat (NOT 0 :: limb) = \<beta> - 1" by (simp add: \<beta>_def unsigned_minus_1_eq_mask mask_eq_exp_minus_1)
    ultimately have "X < (unat (NOT 0 :: limb) + 1) * D \<and> unat (NOT 0 :: limb) * D \<le> X + D" by (simp only:)
    then show ?thesis unfolding divrem_digit_def using True by (intro exI [of _ "NOT 0"]) simp
  next
    case False
    let ?w2 = "m ! (np + (s - 1))" and ?w1 = "m ! (np + (s - 2))" and ?B = "\<beta> ^ (s - 2)"
    have "\<not> ?dX < n2"
    proof
      assume "?dX < n2"
      then have "(unat ?dX + 1) * \<beta> ^ s \<le> unat n2 * \<beta> ^ s" by (intro mult_le_mono1) (simp add: word_less_nat_alt)
      moreover have "D < (unat ?dX + 1) * \<beta> ^ (s - 1)"
        unfolding D_def top [of dp] using mpn_val_less [of m dp "s - 1"] by (simp add: distrib_right mult.commute)
      then have "D * \<beta> < (unat ?dX + 1) * \<beta> ^ (s - 1) * \<beta>" by simp
      ultimately show False using X unfolding X_def beta by (simp only: mult.assoc)
    qed
    with False have "n2 < ?dX" by auto
    from udiv_qrnnd_c_correct [OF this dX, of ?w2] obtain q r where
      q: "udiv_qrnnd_c n2 ?w2 ?dX = Some (q, r)" "unat q * unat ?dX + unat r = unat n2 * \<beta> + unat ?w2" "r < ?dX" by blast
    obtain h l where hl: "umul_ppmm ?d1 q = (h, l)" by force
    have "estimate (unat ?dX) (unat ?d1) (unat ?w1) (unat n2 * \<beta> + unat ?w2) (unat q) (unat r)"
      using q(2,3) by (simp add: estimate_def word_less_nat_alt)
    moreover have "unat h * \<beta> + unat l = unat q * unat ?d1" using umul_ppmm_correct [OF hl] by (simp add: mult.commute)
    ultimately obtain q' \<rho> where q': "adjust_q ?dX ?d1 ?w1 q r h l = Some q'"
      "estimate (unat ?dX) (unat ?d1) (unat ?w1) (unat n2 * \<beta> + unat ?w2) (unat q') \<rho>"
      "unat q' * unat ?d1 \<le> \<rho> * \<beta> + unat ?w1"
      using adjust_q_correct by blast
    note V = estimate_done [OF q'(2,3) limb_bound]
    have two: "mpn_val m p s = mpn_val m p (s - 2) + ?B * (unat (m ! (p + (s - 1))) * \<beta> + unat (m ! (p + (s - 2))))" for p
      by (rule val_top_two [OF s(1)])
    have X3: "X = mpn_val m np (s - 2) + ?B * ((unat n2 * \<beta> + unat ?w2) * \<beta> + unat ?w1)"
    proof -
      have "\<beta> ^ s = ?B * \<beta> * \<beta>" using s(1) by (metis add_2_eq_Suc' le_add_diff_inverse2 power_Suc2)
      then show ?thesis unfolding X_def two [of np] by (simp add: algebra_simps)
    qed
    have "0 < unat ?dX" using dX by (cases "unat ?dX") auto
    then have "1 * \<beta> \<le> unat ?dX * \<beta>" by (intro mult_le_mono1) simp
    then have "\<beta> \<le> unat ?dX * \<beta> + unat ?d1" by linarith
    note est = quotient_estimate [OF two [of dp] mpn_val_less X3 mpn_val_less V limb_bound this]
    show ?thesis using est q(1) hl q'(1) s False unfolding D_def
      by (simp add: divrem_digit_def mem_simps)
  qed
qed

lemma divrem_step_correct:
  fixes m dp np s n2
  defines "D \<equiv> mpn_val m dp s" and "X \<equiv> unat n2 * \<beta> ^ s + mpn_val m np s"
  assumes s: "2 \<le> s" "np + s \<le> length m" "dp + s \<le> length m" "apart np s dp s"
    and dX: "\<beta> \<le> 2 * unat (m ! (dp + (s - 1)))" and X: "X < D * \<beta>"
  shows "\<exists>m' q. divrem_step dp s (m ! (dp + (s - 1))) (m ! (dp + (s - 2))) n2 n2 np m = Some (m', q) \<and>
    changes m m' np s \<and> unat q * D + mpn_val m' np s = X \<and> mpn_val m' np s < D"
proof -
  obtain q where q: "divrem_digit s (m ! (dp + (s - 1))) (m ! (dp + (s - 2))) n2 np m = Some q"
    "X < (unat q + 1) * D" "unat q * D \<le> X + D"
    using divrem_digit_correct [OF s(1,2) dX] X unfolding X_def D_def by blast
  have ahead: "ahead np dp s" by (rule apart_ahead [OF s(4)]) simp_all
  have pos: "0 < s" using s(1) by simp
  obtain m1 cy where m1: "mpn_submul_1 np dp s q m = Some (m1, cy)" "changes m m1 np s"
    "mpn_val m1 np s + D * unat q = mpn_val m np s + \<beta> ^ s * unat cy"
    using mpn_submul_1_correct [OF pos s(2,3) ahead] unfolding D_def by blast
  have bal: "X + unat cy * \<beta> ^ s = unat q * D + mpn_val m1 np s + unat n2 * \<beta> ^ s"
    using m1(3) unfolding X_def by (simp add: mult.commute)
  have D: "D < \<beta> ^ s" unfolding D_def by (rule mpn_val_less)
  note small = mpn_val_less [of m1 np s]
  show ?thesis
  proof (cases "unat q * D \<le> X")
    case True
    have "unat n2 = unat cy"
    proof (rule linorder_cases [of "unat n2" "unat cy"])
      assume "unat n2 < unat cy"
      then have "(unat n2 + 1) * \<beta> ^ s \<le> unat cy * \<beta> ^ s" by (intro mult_le_mono1) simp
      then show ?thesis using bal small True unfolding distrib_right mult_1 by linarith
    next
      assume "unat cy < unat n2"
      then have "(unat cy + 1) * \<beta> ^ s \<le> unat n2 * \<beta> ^ s" by (intro mult_le_mono1) simp
      then show ?thesis using bal D q(2) unfolding distrib_right mult_1 by linarith
    qed
    then have eq: "n2 = cy" by (simp add: word_unat_eq_iff)
    have "unat q * D + mpn_val m1 np s = X" using bal unfolding eq by simp
    moreover from this have "mpn_val m1 np s < D" using q(2) by simp
    ultimately show ?thesis using q(1) m1(1,2) eq by (simp add: divrem_step_def)
  next
    case False
    have ne: "n2 \<noteq> cy" using bal False by auto
    have lens: "np + s \<le> length m1" "dp + s \<le> length m1" using changes_length [OF m1(2)] s(2,3) by simp_all
    have D1: "mpn_val m1 dp s = D"
      unfolding D_def using s(4) by (intro changes_val [OF m1(2)]) (auto simp: apart_def)
    obtain m2 c where m2: "mpn_add_n np np dp s m1 = Some (m2, c)" "changes m1 m2 np s" "unat c \<le> 1"
      "mpn_val m2 np s + \<beta> ^ s * unat c = mpn_val m1 np s + D"
      using mpn_add_n_correct [OF pos lens(1,1,2) ahead_refl ahead] unfolding D1 by blast
    have "0 < unat q" using False by (cases "unat q") auto
    then have q1: "unat (q - 1) = unat q - 1" by (rule unat_dec)
    then have qD: "unat (q - 1) * D + D = unat q * D" using \<open>0 < unat q\<close> by (metis Suc_diff_1 mult_Suc add.commute)
    have cy: "unat cy = unat n2 + 1"
    proof (rule linorder_cases [of "unat cy" "unat n2 + 1"])
      assume "unat cy < unat n2 + 1"
      then have "unat cy * \<beta> ^ s \<le> unat n2 * \<beta> ^ s" by (intro mult_le_mono1) simp
      then show ?thesis using bal False by linarith
    next
      assume "unat n2 + 1 < unat cy"
      then have "(unat n2 + 2) * \<beta> ^ s \<le> unat cy * \<beta> ^ s" by (intro mult_le_mono1) simp
      then show ?thesis using bal D small q(3) unfolding distrib_right by linarith
    qed
    have sum: "unat (q - 1) * D + (mpn_val m1 np s + D) = X + \<beta> ^ s"
      using bal qD unfolding cy by (simp add: distrib_right)
    have "mpn_val m2 np s < \<beta> ^ s" by (rule mpn_val_less)
    moreover have "\<beta> ^ s \<le> mpn_val m1 np s + D" using sum qD q(3) by linarith
    ultimately have "unat c = 1" using m2(3,4) by (cases "unat c") auto
    then have "unat (q - 1) * D + mpn_val m2 np s = X" using m2(4) sum by simp
    moreover from this have "mpn_val m2 np s < D" using False qD by linarith
    moreover have "changes m m2 np s" by (rule changes_trans [OF m1(2) m2(2)])
    ultimately show ?thesis using q(1) m1(1) m2(1) ne by (simp add: divrem_step_def)
  qed
qed

text \<open>
  The limbs that the loop may still change: the rest of the numerator with the remainder, the
  quotient limbs to come and, for fraction limbs, the limb that \<open>MPN_COPY_DECR\<close> writes above the remainder.
\<close>

definition div_frame :: "nat \<Rightarrow> nat \<Rightarrow> nat \<Rightarrow> nat \<Rightarrow> nat \<Rightarrow> nat set" where
  "div_frame np s k qp i = {np..<np + s + (i - k)} \<union> (if 0 < k \<and> 0 < i then {np + s} else {}) \<union> {qp..<qp + i}"

lemma div_frame_Suc: "div_frame np s k qp i \<subseteq> div_frame np s k qp (Suc i)"
  by (auto simp: div_frame_def)

lemma div_frame_digit: "qp + Suc i \<le> np \<or> np + s \<le> qp \<Longrightarrow> qp + i \<notin> div_frame np s k qp i"
  by (auto simp: div_frame_def)

lemma divrem_position_correct:
  assumes s: "1 \<le> s" and frame: "div_frame np s k qp (Suc i) \<subseteq> {..<length m}"
  defines "j \<equiv> i - k"
  shows "\<exists>m1 n2. divrem_position k s i (np + (Suc i - k)) m = Some (np + j, n2, m1) \<and>
    only m m1 (div_frame np s k qp (Suc i)) \<and> n2 = m ! (np + (Suc i - k) + (s - 1)) \<and>
    unat n2 * \<beta> ^ s + mpn_val m1 (np + j) s = (if k \<le> i then mpn_val m (np + j) (Suc s) else \<beta> * mpn_val m np s) \<and>
    mpn_val m1 np j = mpn_val m np j \<and> (i < k \<longrightarrow> m1 ! (np + s) = n2)"
proof (cases "k \<le> i")
  case True
  then have j: "Suc i - k = Suc j" by (simp add: j_def Suc_diff_le)
  have "np + j + s \<in> div_frame np s k qp (Suc i)" using j by (auto simp: div_frame_def)
  then have "np + j + s < length m" using frame by blast
  then have "divrem_position k s i (np + (Suc i - k)) m = Some (np + j, m ! (np + j + s), m)"
    using True by (simp add: divrem_position_def j mem_simps)
  moreover have "np + Suc j + (s - 1) = np + j + s" using s by simp
  ultimately show ?thesis using True by (simp add: j only_def mpn_val_snoc)
next
  case False
  then have j: "Suc i - k = 0" "j = 0" "0 < k" by (auto simp: j_def)
  have fr: "{np..<np + s + 1} \<subseteq> div_frame np s k qp (Suc i)" using j by (auto simp: div_frame_def)
  moreover have "np + s \<in> {np..<np + s + 1}" by simp
  ultimately have len: "np + s < length m" using frame by blast
  obtain m1 where m1: "MPN_COPY_DECR (np + 1) np s m = Some m1" "changes m m1 (np + 1) s"
    "\<forall>i < s. m1 ! (np + 1 + i) = m ! (np + i)"
    using MPN_COPY_DECR_correct [of "np + 1" s m np] len by auto
  let ?m = "m1[np := 0]" and ?n2 = "m ! (np + (s - 1))"
  have len1: "np + s < length m1" using changes_length [OF m1(2)] len by simp
  have top: "?m ! (np + s) = ?n2" using m1(3) [rule_format, of "s - 1"] s by simp
  have "mpn_val ?m (np + 1) s = mpn_val m np s"
    using m1(3) by (simp add: mpn_val_def)
  then have "mpn_val ?m np (Suc s) = \<beta> * mpn_val m np s" using len1 unfolding mpn_val_Cons [of ?m np] by simp
  then have "unat ?n2 * \<beta> ^ s + mpn_val ?m np s = \<beta> * mpn_val m np s"
    unfolding mpn_val_snoc [of ?m np s] top by simp
  moreover have "only m ?m (div_frame np s k qp (Suc i))"
    by (rule only_trans [OF changes_only [OF m1(2)] only_update]) (use fr in auto)
  moreover have "divrem_position k s i (np + (Suc i - k)) m = Some (np + j, ?n2, ?m)"
    using False m1(1) len len1 by (simp add: divrem_position_def j mem_simps)
  ultimately show ?thesis using False top by (simp add: j)
qed

lemma val_shift:
  "mpn_val m p j + \<beta> ^ j * mpn_val m (p + j) (Suc s) = mpn_val m p (Suc j) + \<beta> ^ Suc j * mpn_val m (p + Suc j) s"
  unfolding mpn_val_Cons [of m "p + j"] mpn_val_snoc [of m p j] by (simp add: algebra_simps)

text \<open>
  The invariant of the loop with \<open>i\<close> quotient limbs to come: the remainder is less than the divisor,
  the divisor and its leading limbs are as at the start, and the limbs that may change are inside
  the memory and apart from it.
\<close>

definition divrem_inv :: "nat \<Rightarrow> nat \<Rightarrow> nat \<Rightarrow> nat \<Rightarrow> nat \<Rightarrow> limb \<Rightarrow> limb \<Rightarrow> nat \<Rightarrow> nat \<Rightarrow> mem \<Rightarrow> bool" where
  "divrem_inv k qp np dp s dX d1 D i m \<longleftrightarrow>
     mpn_val m (np + (i - k)) s < D \<and> mpn_val m dp s = D \<and> m ! (dp + (s - 1)) = dX \<and> m ! (dp + (s - 2)) = d1 \<and>
     div_frame np s k qp i \<subseteq> {..<length m} \<and> dp + s \<le> length m \<and> {dp..<dp + s} \<inter> div_frame np s k qp i = {} \<and>
     (qp + i \<le> np \<or> np + s \<le> qp)"

lemma divrem_inv_keep:
  assumes inv: "divrem_inv k qp np dp s dX d1 D (Suc i) m" and s: "2 \<le> s"
    and o: "only m m' (div_frame np s k qp (Suc i))"
  shows "mpn_val m' dp s = D" "m' ! (dp + (s - 1)) = dX" "m' ! (dp + (s - 2)) = d1"
    "mpn_val m' (np + (i - k)) s < D \<Longrightarrow> divrem_inv k qp np dp s dX d1 D i m'"
proof -
  note inv = inv [unfolded divrem_inv_def]
  have same: "m' ! (dp + t) = m ! (dp + t)" if "t < s" for t
    using only_nth [OF o, of "dp + t"] that inv by (simp add: disjoint_iff)
  show D: "mpn_val m' dp s = D" "m' ! (dp + (s - 1)) = dX" "m' ! (dp + (s - 2)) = d1"
    using inv s same [of "s - 1"] same [of "s - 2"] mpn_val_cong [of s m' dp m, OF same] by simp_all
  assume "mpn_val m' (np + (i - k)) s < D"
  then show "divrem_inv k qp np dp s dX d1 D i m'"
    using D inv div_frame_Suc [of np s k qp i] unfolding divrem_inv_def only_length [OF o] by auto
qed

lemma divrem_inv_apart:
  assumes inv: "divrem_inv k qp np dp s dX d1 D (Suc i) m" and s: "2 \<le> s"
  shows "apart (np + (i - k)) s dp s" "np + (i - k) + s \<le> length m" "qp + i < length m"
    "{np + (i - k)..<np + (i - k) + s} \<subseteq> div_frame np s k qp (Suc i)" "qp + i \<in> div_frame np s k qp (Suc i)"
    "qp + i \<notin> {np..<np + (i - k) + s}"
proof -
  note inv = inv [unfolded divrem_inv_def]
  show part: "{np + (i - k)..<np + (i - k) + s} \<subseteq> div_frame np s k qp (Suc i)" "qp + i \<in> div_frame np s k qp (Suc i)"
    by (auto simp: div_frame_def)
  show "apart (np + (i - k)) s dp s"
  proof (rule ccontr)
    assume "\<not> ?thesis"
    then have "max (np + (i - k)) dp \<in> {dp..<dp + s} \<inter> {np + (i - k)..<np + (i - k) + s}" by (auto simp: apart_def)
    then show False using inv part by blast
  qed
  have "np + (i - k) + (s - 1) \<in> {np + (i - k)..<np + (i - k) + s}" using s by simp
  then have "np + (i - k) + (s - 1) < length m" "qp + i < length m" using part inv by blast+
  then show "np + (i - k) + s \<le> length m" "qp + i < length m" using s by simp_all
  show "qp + i \<notin> {np..<np + (i - k) + s}" using inv by auto
qed

text \<open>One round of the loop.\<close>

lemma divrem_round:
  assumes s: "2 \<le> s" and dX: "\<beta> \<le> 2 * unat dX" and inv: "divrem_inv k qp np dp s dX d1 D (Suc i) m"
  obtains m2 q where
    "divrem_loop k qp dp s dX d1 (Suc i) (np + (Suc i - k)) (m ! (np + (Suc i - k) + (s - 1))) m =
       divrem_loop k qp dp s dX d1 i (np + (i - k)) (m2[qp + i := q] ! (np + (i - k) + (s - 1))) (m2[qp + i := q])"
    "only m (m2[qp + i := q]) (div_frame np s k qp (Suc i))" "qp + i < length m2"
    "divrem_inv k qp np dp s dX d1 D i (m2[qp + i := q])"
    "unat q * D + mpn_val (m2[qp + i := q]) (np + (i - k)) s =
       (if k \<le> i then mpn_val m (np + (i - k)) (Suc s) else \<beta> * mpn_val m np s)"
    "mpn_val (m2[qp + i := q]) np (i - k) = mpn_val m np (i - k)"
    "i < k \<Longrightarrow> qp + i \<noteq> np + s \<Longrightarrow> m2[qp + i := q] ! (np + s) = m ! (np + (s - 1))"
proof -
  let ?F = "div_frame np s k qp (Suc i)" and ?j = "i - k" and ?n2 = "m ! (np + (Suc i - k) + (s - 1))"
  note prems = inv [unfolded divrem_inv_def] and parts = divrem_inv_apart [OF inv s]
  have s1: "1 \<le> s" and frame: "?F \<subseteq> {..<length m}" using s prems by auto
  obtain m1 where m1: "divrem_position k s i (np + (Suc i - k)) m = Some (np + ?j, ?n2, m1)"
    "only m m1 ?F"
    "unat ?n2 * \<beta> ^ s + mpn_val m1 (np + ?j) s = (if k \<le> i then mpn_val m (np + ?j) (Suc s) else \<beta> * mpn_val m np s)"
    "mpn_val m1 np ?j = mpn_val m np ?j" "i < k \<longrightarrow> m1 ! (np + s) = ?n2"
    using divrem_position_correct [OF s1 frame] by blast
  let ?X = "unat ?n2 * \<beta> ^ s + mpn_val m1 (np + ?j) s"
  note D1 = divrem_inv_keep(1-3) [OF inv s m1(2)]
  have len: "length m1 = length m" by (rule only_length [OF m1(2)])
  have X: "?X < D * \<beta>"
  proof (cases "k \<le> i")
    case True
    then have "np + (Suc i - k) = np + ?j + 1" by (simp add: Suc_diff_le)
    then have "mpn_val m (np + ?j + 1) s + 1 \<le> D" using prems by simp
    then have "\<beta> * (mpn_val m (np + ?j + 1) s + 1) \<le> \<beta> * D" by (rule mult_le_mono2)
    then show ?thesis using m1(3) True limb_bound [of "m ! (np + ?j)"]
      by (simp only: mpn_val_Cons if_True distrib_left mult.commute [of D])
  next
    case False
    then show ?thesis using m1(3) prems by (simp add: mult.commute)
  qed
  have lens: "np + ?j + s \<le> length m1" "dp + s \<le> length m1" using parts(2) prems len by simp_all
  obtain m2 q where m2: "divrem_step dp s dX d1 ?n2 ?n2 (np + ?j) m1 = Some (m2, q)" "changes m1 m2 (np + ?j) s"
    "unat q * D + mpn_val m2 (np + ?j) s = ?X" "mpn_val m2 (np + ?j) s < D"
    using divrem_step_correct [OF s lens parts(1), of ?n2] X dX unfolding D1 by auto
  let ?m = "m2[qp + i := q]"
  have qi: "qp + i < length m2" using parts(3) changes_length [OF m2(2)] len by simp
  have only: "only m ?m ?F"
    by (rule only_trans [OF m1(2) only_trans [OF changes_only [OF m2(2) parts(4)] only_update]]) (rule parts(5))
  have hi: "mpn_val ?m (np + ?j) s = mpn_val m2 (np + ?j) s"
    using parts(6) by (intro changes_val [OF changes_update]) auto
  have "mpn_val ?m np ?j = mpn_val m2 np ?j" using parts(6) by (intro changes_val [OF changes_update]) auto
  also have "\<dots> = mpn_val m1 np ?j" by (rule changes_val [OF m2(2)]) simp
  finally have lo: "mpn_val ?m np ?j = mpn_val m np ?j" using m1(4) by simp
  have behind: "?m ! (np + s) = m ! (np + (s - 1))" if "i < k" "qp + i \<noteq> np + s"
    using that m1(5) changes_nth [OF m2(2), of "np + s"] by simp
  have "divrem_loop k qp dp s dX d1 (Suc i) (np + (Suc i - k)) ?n2 m =
      divrem_loop k qp dp s dX d1 i (np + ?j) (?m ! (np + ?j + (s - 1))) ?m"
    using m1(1) m2(1) qi lens(1) s changes_length [OF m2(2)] by (simp add: mem_simps)
  then show ?thesis
    using that [of m2 q] only qi divrem_inv_keep(4) [OF inv s only] hi lo m2(3,4) m1(3) behind by simp
qed

lemma divrem_loop_correct:
  assumes s: "2 \<le> s" and dX: "\<beta> \<le> 2 * unat dX"
  shows "divrem_inv k qp np dp s dX d1 D i m \<Longrightarrow>
    \<exists>m'. divrem_loop k qp dp s dX d1 i (np + (i - k)) (m ! (np + (i - k) + (s - 1))) m = Some m' \<and>
      only m m' (div_frame np s k qp i) \<and> mpn_val m' np s < D \<and>
      mpn_val m' qp i * D + mpn_val m' np s =
        (mpn_val m np (i - k) + \<beta> ^ (i - k) * mpn_val m (np + (i - k)) s) * \<beta> ^ min i k \<and>
      (0 < i \<and> i \<le> k \<and> qp \<noteq> np + s \<longrightarrow> unat (m' ! (np + s)) = mpn_val m np s * \<beta> ^ (i - 1) mod D div \<beta> ^ (s - 1))"
proof (induction i arbitrary: m)
  case 0
  then show ?case by (simp add: only_def divrem_inv_def)
next
  case (Suc i)
  let ?F = "div_frame np s k qp (Suc i)" and ?j = "i - k" and ?n2 = "m ! (np + (Suc i - k) + (s - 1))"
  let ?X = "if k \<le> i then mpn_val m (np + ?j) (Suc s) else \<beta> * mpn_val m np s"
  note prems = Suc.prems [unfolded divrem_inv_def]
  obtain m2 q where r: "divrem_loop k qp dp s dX d1 (Suc i) (np + (Suc i - k)) ?n2 m =
      divrem_loop k qp dp s dX d1 i (np + ?j) (m2[qp + i := q] ! (np + ?j + (s - 1))) (m2[qp + i := q])"
    "only m (m2[qp + i := q]) ?F" "qp + i < length m2" "divrem_inv k qp np dp s dX d1 D i (m2[qp + i := q])"
    "unat q * D + mpn_val (m2[qp + i := q]) (np + ?j) s = ?X"
    "mpn_val (m2[qp + i := q]) np ?j = mpn_val m np ?j"
    "i < k \<Longrightarrow> qp + i \<noteq> np + s \<Longrightarrow> m2[qp + i := q] ! (np + s) = m ! (np + (s - 1))"
    using divrem_round [OF s dX Suc.prems] by blast
  let ?m = "m2[qp + i := q]"
  obtain m' where m': "divrem_loop k qp dp s dX d1 i (np + ?j) (?m ! (np + ?j + (s - 1))) ?m = Some m'"
    "only ?m m' (div_frame np s k qp i)" "mpn_val m' np s < D"
    "mpn_val m' qp i * D + mpn_val m' np s = (mpn_val m np ?j + \<beta> ^ ?j * mpn_val ?m (np + ?j) s) * \<beta> ^ min i k"
    "0 < i \<and> i \<le> k \<and> qp \<noteq> np + s \<longrightarrow> unat (m' ! (np + s)) = mpn_val ?m np s * \<beta> ^ (i - 1) mod D div \<beta> ^ (s - 1)"
    using Suc.IH [OF r(4)] unfolding r(6) by blast
  have "i = ?j + min i k" by simp
  note comb = div_combine [OF m'(4) r(5) this]
  have "mpn_val m' qp (Suc i) = mpn_val m' qp i + unat q * \<beta> ^ i"
    using store_limb [OF m'(2) div_frame_digit r(3)] prems by simp
  then have "mpn_val m' qp (Suc i) * D + mpn_val m' np s = (mpn_val m np ?j + \<beta> ^ ?j * ?X) * \<beta> ^ min i k"
    using comb by simp
  also have "\<dots> = (mpn_val m np (Suc i - k) + \<beta> ^ (Suc i - k) * mpn_val m (np + (Suc i - k)) s) * \<beta> ^ min (Suc i) k"
  proof (cases "k \<le> i")
    case True
    then have e: "Suc i - k = Suc ?j" "min i k = k" "min (Suc i) k = k" by auto
    show ?thesis unfolding e val_shift [symmetric] using True by (simp only: if_True)
  next
    case False
    then have "Suc i - k = 0" "?j = 0" "min i k = i" "min (Suc i) k = Suc i" by auto
    then show ?thesis using False by simp
  qed
  finally have "mpn_val m' qp (Suc i) * D + mpn_val m' np s = \<dots>" .
  moreover have "only m m' ?F" by (rule only_trans [OF r(2) only_mono [OF m'(2) div_frame_Suc]])
  moreover have "unat (m' ! (np + s)) = mpn_val m np s * \<beta> ^ i mod D div \<beta> ^ (s - 1)" if k: "Suc i \<le> k" "qp \<noteq> np + s"
  proof (cases i)
    case 0
    then have "m' = ?m" using m'(1) by simp
    then have top: "m' ! (np + s) = m ! (np + (s - 1))" using r(7) k 0 by simp
    have "mpn_val m np s < D" using prems k by simp
    moreover have "mpn_val m np s = mpn_val m np (s - 1) + \<beta> ^ (s - 1) * unat (m ! (np + (s - 1)))"
      using mpn_val_snoc [of m np "s - 1"] s by (simp add: mult.commute)
    ultimately show ?thesis using top 0 mpn_val_less [of m np "s - 1"] by simp
  next
    case (Suc i')
    have "mpn_val ?m np s = \<beta> * mpn_val m np s mod D"
    proof -
      have "unat q * D + mpn_val ?m np s = \<beta> * mpn_val m np s" "mpn_val ?m np s < D"
        using r(4,5) k unfolding divrem_inv_def by simp_all
      then show ?thesis by (metis mod_mult_self3 mod_less)
    qed
    then have "mpn_val ?m np s * \<beta> ^ i' mod D = mpn_val m np s * \<beta> ^ i mod D"
      unfolding Suc by (simp add: mod_mult_right_eq ac_simps)
    then show ?thesis using m'(5) k Suc by simp
  qed
  ultimately show ?case using m'(1,3) r(1) by simp
qed

lemma normal_double:
  assumes "1 \<le> s" "\<beta> \<le> 2 * unat (m ! (dp + (s - 1)))"
  shows "mpn_val m p s < 2 * mpn_val m dp s"
proof -
  have s: "s = Suc (s - 1)" using assms(1) by simp
  have "\<beta> * \<beta> ^ (s - 1) \<le> 2 * unat (m ! (dp + (s - 1))) * \<beta> ^ (s - 1)" using assms(2) by (rule mult_le_mono1)
  also have "\<dots> \<le> 2 * mpn_val m dp s" by (subst (2) s) (simp add: mpn_val_snoc)
  finally have "\<beta> ^ s \<le> 2 * mpn_val m dp s" by (subst s) simp
  with mpn_val_less [of m p s] show ?thesis by simp
qed

text \<open>The general case up to its loop: the divisor is subtracted once if the leading limbs are not less.\<close>

lemma divrem_long_start:
  assumes dX: "\<beta> \<le> 2 * unat (m ! (dp + (s - 1)))" and s: "2 \<le> s" "s \<le> n"
    and len: "np + n \<le> length m" "dp + s \<le> length m" and d: "apart np n dp s"
  obtains m1 c where
    "divrem_long qp k np n dp s m = map_option (\<lambda>m'. (m', of_bool c)) (divrem_loop k qp dp s (m ! (dp + (s - 1)))
       (m ! (dp + (s - 2))) (k + n - s) (np + (n - s)) (m1 ! (np + (n - s) + (s - 1))) m1)"
    "changes m m1 (np + (n - s)) s"
    "of_bool c * mpn_val m dp s + mpn_val m1 (np + (n - s)) s = mpn_val m (np + (n - s)) s"
    "mpn_val m1 (np + (n - s)) s < mpn_val m dp s"
proof -
  let ?p = "np + (n - s)" and ?dX = "m ! (dp + (s - 1))" and ?d1 = "m ! (dp + (s - 2))" and ?D = "mpn_val m dp s"
  have s1: "1 \<le> s" using s by simp
  have pl: "?p + s \<le> length m" "?p + (s - 1) < length m" using len s by simp_all
  have ap: "apart ?p s dp s" by (rule apart_sub [OF d]) (use s in auto)
  define c where "c \<longleftrightarrow> ?D \<le> mpn_val m ?p s"
  have test: "(if ?dX \<le> m ! (?p + (s - 1)) then if ?dX < m ! (?p + (s - 1)) then Some True
      else map_option (\<lambda>c. 0 \<le> c) (mpn_cmp ?p dp (s - 1) m) else Some False) = Some c"
  proof -
    have low: "mpn_cmp ?p dp (s - 1) m = Some (if mpn_val m dp (s - 1) < mpn_val m ?p (s - 1) then 1
      else if mpn_val m ?p (s - 1) = mpn_val m dp (s - 1) then 0 else - 1)"
      by (rule mpn_cmp_correct) (use pl len s in auto)
    have full: "mpn_cmp ?p dp s m = Some (if ?D < mpn_val m ?p s then 1 else if mpn_val m ?p s = ?D then 0 else - 1)"
      by (rule mpn_cmp_correct) (use pl len s in auto)
    have step: "mpn_cmp ?p dp s m = (if m ! (?p + (s - 1)) = ?dX then mpn_cmp ?p dp (s - 1) m
      else Some (if ?dX < m ! (?p + (s - 1)) then 1 else - 1))"
      using pl len s by (cases s) (auto simp: mem_simps)
    show ?thesis using full unfolding step low c_def by (auto split: if_splits)
  qed
  obtain m1 where m1: "(if c then do { (m, cy) \<leftarrow> mpn_sub_n ?p ?p dp s m; n0 \<leftarrow> rd m (?p + (s - 1)); Some (m, n0, 1) }
      else Some (m, m ! (?p + (s - 1)), 0)) = Some (m1, m1 ! (?p + (s - 1)), of_bool c :: limb)"
    "changes m m1 ?p s" "of_bool c * ?D + mpn_val m1 ?p s = mpn_val m ?p s"
  proof (cases c)
    case True
    have ah: "ahead ?p dp s" by (rule apart_ahead [OF ap]) simp_all
    have s0: "0 < s" using s by simp
    obtain m1 cy where m1: "mpn_sub_n ?p ?p dp s m = Some (m1, cy)" "changes m m1 ?p s" "unat cy \<le> 1"
      "mpn_val m1 ?p s + ?D = mpn_val m ?p s + \<beta> ^ s * unat cy"
      using mpn_sub_n_correct [OF s0 pl(1) pl(1) len(2) ahead_refl ah] by blast
    have "unat cy = 0" 
    proof (rule ccontr)
      assume "unat cy \<noteq> 0"
      then have "unat cy = 1" using m1(3) by simp
      then show False using m1(4) True mpn_val_less [of m1 ?p s] by (simp add: c_def)
    qed
    with m1 True pl(2) changes_length [OF m1(2)] that [of m1] show ?thesis by (simp add: mem_simps)
  next
    case False
    with that [of m] show ?thesis by simp
  qed
  have "mpn_val m1 ?p s < ?D"
    using m1(3) normal_double [OF s1 dX, of ?p] by (cases c) (auto simp: c_def)
  moreover have "divrem_long qp k np n dp s m = map_option (\<lambda>m'. (m', of_bool c))
      (divrem_loop k qp dp s ?dX ?d1 (k + n - s) ?p (m1 ! (?p + (s - 1))) m1)"
  proof -
    have rds: "rd m (dp + (s - 1)) = Some ?dX" "rd m (dp + (s - 2)) = Some ?d1" "rd m (?p + (s - 1)) = Some (m ! (?p + (s - 1)))"
      using len pl s by (simp_all add: mem_simps)
    show ?thesis
      by (simp only: divrem_long_def Let_def rds test m1(1) Option.bind.simps prod.case)
        (simp add: map_conv_bind_option comp_def)
  qed
  ultimately show ?thesis using that m1(2,3) by blast
qed

lemma divrem_long_frame:
  fixes m np n dp s k qp
  defines "F \<equiv> div_frame np s k qp (k + n - s)" and "D \<equiv> mpn_val m dp s"
  assumes dX: "\<beta> \<le> 2 * unat (m ! (dp + (s - 1)))" and s: "2 \<le> s" "s \<le> n"
    and len: "np + n \<le> length m" "dp + s \<le> length m" "F \<subseteq> {..<length m}"
    and q: "qp + (k + n - s) \<le> np \<or> np + s \<le> qp" and d: "apart np n dp s" "{dp..<dp + s} \<inter> F = {}"
  shows "\<exists>m' h. divrem_long qp k np n dp s m = Some (m', h) \<and> only m m' F \<and>
    (mpn_val m' qp (k + n - s) + unat h * \<beta> ^ (k + n - s)) * D + mpn_val m' np s = mpn_val m np n * \<beta> ^ k \<and>
    mpn_val m' np s < D \<and> unat h \<le> 1 \<and>
    (n = s \<and> 0 < k \<and> qp \<noteq> np + s \<longrightarrow> unat (m' ! (np + s)) = mpn_val m np s * \<beta> ^ (k - 1) mod D div \<beta> ^ (s - 1))"
proof -
  let ?p = "np + (n - s)" and ?i = "k + n - s" and ?dX = "m ! (dp + (s - 1))" and ?d1 = "m ! (dp + (s - 2))"
  have j: "?i - k = n - s" "min ?i k = k" "?i = n - s + k" using s by auto
  have part: "{?p..<?p + s} \<subseteq> F" using s by (auto simp: F_def div_frame_def j(1))
  obtain m1 c where m1: "divrem_long qp k np n dp s m = map_option (\<lambda>m'. (m', of_bool c))
      (divrem_loop k qp dp s ?dX ?d1 ?i ?p (m1 ! (?p + (s - 1))) m1)"
    "changes m m1 ?p s" "of_bool c * D + mpn_val m1 ?p s = mpn_val m ?p s" "mpn_val m1 ?p s < D"
    using divrem_long_start [OF dX s len(1,2) d(1)] unfolding D_def by blast
  have only1: "only m m1 F" by (rule changes_only [OF m1(2) part])
  have same: "m1 ! (dp + t) = m ! (dp + t)" if "t < s" for t
    using only_nth [OF only1, of "dp + t"] d(2) that by (simp add: disjoint_iff)
  have D1: "mpn_val m1 dp s = D" unfolding D_def by (rule mpn_val_cong) (rule same)
  have "divrem_inv k qp np dp s ?dX ?d1 D ?i m1"
    unfolding divrem_inv_def j(1) F_def [symmetric] only_length [OF only1]
    using m1(4) D1 same [of "s - 1"] same [of "s - 2"] s len q d(2) by simp
  from divrem_loop_correct [OF s(1) dX this, unfolded j(1,2)] obtain m' where
    m': "divrem_loop k qp dp s ?dX ?d1 ?i ?p (m1 ! (?p + (s - 1))) m1 = Some m'" "only m1 m' F" "mpn_val m' np s < D"
    "mpn_val m' qp ?i * D + mpn_val m' np s = (mpn_val m1 np (n - s) + \<beta> ^ (n - s) * mpn_val m1 ?p s) * \<beta> ^ k"
    "0 < ?i \<and> ?i \<le> k \<and> qp \<noteq> np + s \<longrightarrow> unat (m' ! (np + s)) = mpn_val m1 np s * \<beta> ^ (?i - 1) mod D div \<beta> ^ (s - 1)"
    unfolding F_def by blast
  have "mpn_val m1 np (n - s) = mpn_val m np (n - s)" by (rule changes_val [OF m1(2)]) simp
  moreover have "mpn_val m np n = mpn_val m np (n - s) + \<beta> ^ (n - s) * mpn_val m ?p s"
    using mpn_val_split [of m np "n - s" s] s(2) by simp
  ultimately have "(mpn_val m' qp ?i + unat (of_bool c :: limb) * \<beta> ^ ?i) * D + mpn_val m' np s = mpn_val m np n * \<beta> ^ k"
    using div_combine [OF m'(4) m1(3) j(3)] by simp
  moreover have "unat (m' ! (np + s)) = mpn_val m np s * \<beta> ^ (k - 1) mod D div \<beta> ^ (s - 1)"
    if "n = s" "0 < k" "qp \<noteq> np + s"
  proof -
    have "mpn_val m np s = of_bool c * D + mpn_val m1 np s" using m1(3) that by simp
    then have "mpn_val m np s mod D = mpn_val m1 np s mod D" by simp
    then have "mpn_val m np s * \<beta> ^ (k - 1) mod D = mpn_val m1 np s * \<beta> ^ (k - 1) mod D" by (rule mod_mult_cong) simp
    then show ?thesis using m'(5) that by simp
  qed
  moreover have "only m m' F" by (rule only_trans [OF only1 m'(2)])
  ultimately show ?thesis using m'(1,3) m1(1) by (intro exI [of _ m'] exI [of _ "of_bool c"]) simp
qed

lemma divrem_long_correct:
  assumes dX: "\<beta> \<le> 2 * unat (m ! (dp + (s - 1)))" and s: "2 \<le> s" "s \<le> n" and k: "k = 0 \<or> s < n"
    and len: "np + n \<le> length m" "dp + s \<le> length m" "qp + (k + n - s) \<le> length m"
    and q: "qp + (k + n - s) \<le> np \<or> np + s \<le> qp" and d: "apart np n dp s" "apart qp (k + n - s) dp s"
  shows "\<exists>m' h. divrem_long qp k np n dp s m = Some (m', h) \<and> only m m' ({np..<np + n} \<union> {qp..<qp + (k + n - s)}) \<and>
    (mpn_val m' qp (k + n - s) + unat h * \<beta> ^ (k + n - s)) * mpn_val m dp s + mpn_val m' np s = mpn_val m np n * \<beta> ^ k \<and>
    mpn_val m' np s < mpn_val m dp s \<and> unat h \<le> 1"
proof -
  have "k + n - s - k = n - s" using s by simp
  then have frame: "div_frame np s k qp (k + n - s) = {np..<np + n} \<union> {qp..<qp + (k + n - s)}"
    using k s by (auto simp: div_frame_def)
  have "div_frame np s k qp (k + n - s) \<subseteq> {..<length m}" "{dp..<dp + s} \<inter> div_frame np s k qp (k + n - s) = {}"
    using len d unfolding frame by (auto simp: apart_def)
  from divrem_long_frame [OF dX s len(1,2) this(1) q d(1) this(2)] show ?thesis unfolding frame by blast
qed

text \<open>Shifting the remainder up by one limb leaves a memory that ends with it.\<close>

lemma divrem_loop_fault:
  assumes "0 < i" "i \<le> k" "1 \<le> s" "np + s = length m"
  shows "divrem_loop k qp dp s dX d1 i np n0 m = None"
proof -
  obtain i' s' where i: "i = Suc i'" "s = Suc s'" using assms(1,3) by (metis One_nat_def Suc_le_D gr0_conv_Suc)
  have "divrem_position k s i' np m = None"
    using assms i by (simp add: divrem_position_def rd_def wr_def)
  then show ?thesis by (simp add: i(1))
qed

subsection \<open>Properties\<close>

text \<open>
  The arguments of \<open>mpn_divrem\<close>: the highest bit of the divisor is set, the numerator is at least as
  long, the divisor is apart from both other runs, and the quotient is apart from the numerator or
  lies above the remainder in it.
\<close>

definition divrem_args :: "mem \<Rightarrow> nat \<Rightarrow> nat \<Rightarrow> nat \<Rightarrow> nat \<Rightarrow> nat \<Rightarrow> nat \<Rightarrow> bool" where
  "divrem_args m qp k np nsize dp dsize \<longleftrightarrow>
     1 \<le> dsize \<and> dsize \<le> nsize \<and> 2 ^ 63 \<le> m ! (dp + (dsize - 1)) \<and>
     np + nsize \<le> length m \<and> dp + dsize \<le> length m \<and> qp + (k + nsize - dsize) \<le> length m \<and>
     apart np nsize dp dsize \<and> apart qp (k + nsize - dsize) dp dsize \<and>
     (qp + (k + nsize - dsize) \<le> np \<or> np + dsize \<le> qp)"

lemma divrem_args_normal:
  assumes "divrem_args m qp k np nsize dp dsize"
  shows "\<beta> \<le> 2 * unat (m ! (dp + (dsize - 1)))"
proof -
  have "2 ^ 63 \<le> m ! (dp + (dsize - 1))" using assms unfolding divrem_args_def by blast
  then show ?thesis by (simp add: word_le_nat_alt \<beta>_def)
qed

text \<open>
  C3: long division is right.  For a normalised divisor and arguments placed as above, \<open>mpn_divrem\<close> stores the
  quotient of the numerator - followed by \<open>k\<close> zero limbs - by the divisor, whose leading limb, 0 or
  1, it returns, and leaves the remainder in the low limbs of the numerator; no other limb
  changes.  This holds for the special cases of one and two limbs and for the general case, for
  which, when fraction limbs are asked for, the numerator has to be longer than the divisor.
\<close>

theorem mpn_divrem_correct:
  assumes "divrem_args m qp k np nsize dp dsize" "k = 0 \<or> dsize < nsize \<or> dsize \<le> 2"
  shows "\<exists>m' h. mpn_divrem qp k np nsize dp dsize m = Some (m', h) \<and>
    mpn_val m' qp (k + nsize - dsize) + unat h * \<beta> ^ (k + nsize - dsize) = mpn_val m np nsize * \<beta> ^ k div mpn_val m dp dsize \<and>
    mpn_val m' np dsize = mpn_val m np nsize * \<beta> ^ k mod mpn_val m dp dsize \<and> unat h \<le> 1 \<and>
    only m m' ({np..<np + nsize} \<union> {qp..<qp + (k + nsize - dsize)})"
proof -
  let ?i = "k + nsize - dsize"
  note a = assms(1) [unfolded divrem_args_def]
  note d = divrem_args_normal [OF assms(1)]
  have sub: "{np..<np + dsize} \<union> {qp..<qp + ?i} \<subseteq> {np..<np + nsize} \<union> {qp..<qp + ?i}" using a by auto
  have "\<exists>m' h. mpn_divrem qp k np nsize dp dsize m = Some (m', h) \<and> only m m' ({np..<np + nsize} \<union> {qp..<qp + ?i}) \<and>
    (mpn_val m' qp ?i + unat h * \<beta> ^ ?i) * mpn_val m dp dsize + mpn_val m' np dsize = mpn_val m np nsize * \<beta> ^ k \<and>
    mpn_val m' np dsize < mpn_val m dp dsize \<and> unat h \<le> 1"
  proof -
    consider "dsize = 1" | "dsize = 2" | "3 \<le> dsize" using a by linarith
    then show ?thesis
    proof cases
      case 1
      have eq: "mpn_divrem qp k np nsize dp dsize m = divrem_1 qp k np nsize dp m" by (simp add: mpn_divrem_def 1)
      have "\<beta> \<le> 2 * unat (m ! dp)" using d 1 by simp
      then show ?thesis unfolding eq using divrem_1_correct [of m dp nsize np qp k] a only_mono [OF _ sub]
        unfolding 1 by blast
    next
      case 2
      have eq: "mpn_divrem qp k np nsize dp dsize m = divrem_2 qp k np nsize dp m" by (simp add: mpn_divrem_def 2)
      have "\<beta> \<le> 2 * unat (m ! (dp + 1))" using d 2 by simp
      then show ?thesis unfolding eq using divrem_2_correct [of m dp nsize np qp k] a only_mono [OF _ sub]
        unfolding 2 by blast
    next
      case 3
      have eq: "mpn_divrem qp k np nsize dp dsize m = divrem_long qp k np nsize dp dsize m"
        using 3 by (simp add: mpn_divrem_def)
      have "2 \<le> dsize" "k = 0 \<or> dsize < nsize" using 3 assms(2) by auto
      then show ?thesis unfolding eq using divrem_long_correct [OF d, of nsize k np qp] a by blast
    qed
  qed
  then obtain m' h where m': "mpn_divrem qp k np nsize dp dsize m = Some (m', h)" "unat h \<le> 1"
    "only m m' ({np..<np + nsize} \<union> {qp..<qp + ?i})" "mpn_val m' np dsize < mpn_val m dp dsize"
    "(mpn_val m' qp ?i + unat h * \<beta> ^ ?i) * mpn_val m dp dsize + mpn_val m' np dsize = mpn_val m np nsize * \<beta> ^ k" by blast
  have "mpn_val m' qp ?i + unat h * \<beta> ^ ?i = mpn_val m np nsize * \<beta> ^ k div mpn_val m dp dsize"
    "mpn_val m' np dsize = mpn_val m np nsize * \<beta> ^ k mod mpn_val m dp dsize"
    using m'(4) unfolding m'(5) [symmetric] by simp_all
  with m'(1-3) show ?thesis by blast
qed

theorem mpn_divrem_witness:
  "\<exists>m' h. mpn_divrem 3 0 0 5 5 3 [1, 2, 3, 4, 5, 6, 7, 2 ^ 63] = Some (m', h) \<and>
     mpn_val m' 3 (0 + 5 - 3) + unat h * \<beta> ^ (0 + 5 - 3) =
       mpn_val [1, 2, 3, 4, 5, 6, 7, 2 ^ 63] 0 5 * \<beta> ^ 0 div mpn_val [1, 2, 3, 4, 5, 6, 7, 2 ^ 63] 5 3 \<and>
     mpn_val m' 0 3 = mpn_val [1, 2, 3, 4, 5, 6, 7, 2 ^ 63] 0 5 * \<beta> ^ 0 mod mpn_val [1, 2, 3, 4, 5, 6, 7, 2 ^ 63] 5 3 \<and>
     unat h \<le> 1 \<and> only [1, 2, 3, 4, 5, 6, 7, 2 ^ 63] m' ({0..<0 + 5} \<union> {3..<3 + (0 + 5 - 3)})"
  by (rule mpn_divrem_correct) (simp_all add: divrem_args_def apart_def)

text \<open>
  C36: with \<open>k > 0\<close> fraction limbs and a numerator as long as a divisor of three or more limbs, which the
  stated preconditions allow, the general case writes the limb behind the numerator.  If the
  memory ends with the numerator, the division faults, whatever the operands are.  If there is a limb
  behind it, outside the divisor and the quotient, quotient and remainder are right, but that limb
  is overwritten: it gets the leading limb of the last remainder that was shifted up, that of the
  numerator with \<open>k - 1\<close> zero limbs by the divisor.  \<open>MPN_COPY_DECR\<close> moves \<open>dsize\<close> limbs up where \<open>dsize - 1\<close>
  are meant.
\<close>

theorem mpn_divrem_overrun:
  fixes m np dp dsize
  defines "N \<equiv> mpn_val m np dsize" and "D \<equiv> mpn_val m dp dsize"
  assumes "divrem_args m qp k np dsize dp dsize" "3 \<le> dsize" "0 < k"
  shows "(length m = np + dsize \<longrightarrow> mpn_divrem qp k np dsize dp dsize m = None) \<and>
    (np + dsize < length m \<and> np + dsize \<notin> {dp..<dp + dsize} \<union> {qp..<qp + k} \<longrightarrow>
      (\<exists>m' h. mpn_divrem qp k np dsize dp dsize m = Some (m', h) \<and>
        mpn_val m' qp k + unat h * \<beta> ^ k = N * \<beta> ^ k div D \<and> mpn_val m' np dsize = N * \<beta> ^ k mod D \<and>
        unat (m' ! (np + dsize)) = N * \<beta> ^ (k - 1) mod D div \<beta> ^ (dsize - 1)))"
proof (intro conjI impI)
  note a = assms(3) [unfolded divrem_args_def]
  have eq: "mpn_divrem qp k np dsize dp dsize m = divrem_long qp k np dsize dp dsize m"
    using assms(4) by (simp add: mpn_divrem_def)
  have s: "2 \<le> dsize" "dsize \<le> dsize" using assms(4) by simp_all
  note dX = divrem_args_normal [OF assms(3)]
  have i: "k + dsize - dsize = k" by simp
  show "mpn_divrem qp k np dsize dp dsize m = None" if "length m = np + dsize"
  proof -
    obtain m1 c where m1: "divrem_long qp k np dsize dp dsize m = map_option (\<lambda>m'. (m', of_bool c))
        (divrem_loop k qp dp dsize (m ! (dp + (dsize - 1))) (m ! (dp + (dsize - 2))) (k + dsize - dsize)
          (np + (dsize - dsize)) (m1 ! (np + (dsize - dsize) + (dsize - 1))) m1)"
      "changes m m1 (np + (dsize - dsize)) dsize"
      using divrem_long_start [OF dX s] a by blast
    then show ?thesis
      using eq divrem_loop_fault [of k k dsize np m1] changes_length [OF m1(2)] that assms(4,5) by simp
  qed
  assume b: "np + dsize < length m \<and> np + dsize \<notin> {dp..<dp + dsize} \<union> {qp..<qp + k}"
  have frame: "div_frame np dsize k qp (k + dsize - dsize) = {np..<np + dsize} \<union> {np + dsize} \<union> {qp..<qp + k}"
    using assms(5) by (simp add: div_frame_def)
  have "div_frame np dsize k qp (k + dsize - dsize) \<subseteq> {..<length m}"
    "{dp..<dp + dsize} \<inter> div_frame np dsize k qp (k + dsize - dsize) = {}"
    using a b unfolding frame by (auto simp: apart_def)
  then obtain m' h where m': "mpn_divrem qp k np dsize dp dsize m = Some (m', h)"
    "(mpn_val m' qp k + unat h * \<beta> ^ k) * D + mpn_val m' np dsize = N * \<beta> ^ k" "mpn_val m' np dsize < D"
    "unat (m' ! (np + dsize)) = N * \<beta> ^ (k - 1) mod D div \<beta> ^ (dsize - 1)"
    using divrem_long_frame [OF dX s, of np k qp] a b assms(5) unfolding eq N_def D_def i by auto
  have "mpn_val m' qp k + unat h * \<beta> ^ k = N * \<beta> ^ k div D" "mpn_val m' np dsize = N * \<beta> ^ k mod D"
    using m'(3) unfolding m'(2) [symmetric] by simp_all
  with m'(1,4) show "\<exists>m' h. mpn_divrem qp k np dsize dp dsize m = Some (m', h) \<and>
      mpn_val m' qp k + unat h * \<beta> ^ k = N * \<beta> ^ k div D \<and> mpn_val m' np dsize = N * \<beta> ^ k mod D \<and>
      unat (m' ! (np + dsize)) = N * \<beta> ^ (k - 1) mod D div \<beta> ^ (dsize - 1)" by blast
qed

theorem mpn_divrem_overrun_witness:
  "mpn_divrem 0 1 4 3 1 3 [0, 5, 6, 2 ^ 63, 1, 2, 3] = None \<and>
   (\<exists>m' h. mpn_divrem 7 1 0 3 4 3 [1, 2, 3, 77, 5, 6, 2 ^ 63, 0] = Some (m', h) \<and> unat (m' ! 3) = 3)"
proof
  let ?m = "[1, 2, 3, 77, 5, 6, 2 ^ 63, 0] :: mem"
  show "mpn_divrem 0 1 4 3 1 3 [0, 5, 6, 2 ^ 63, 1, 2, 3] = None"
    using mpn_divrem_overrun [of "[0, 5, 6, 2 ^ 63, 1, 2, 3]" 0 1 4 3 1] by (simp add: divrem_args_def apart_def)
  have "divrem_args ?m 7 1 0 3 4 3" by (simp add: divrem_args_def apart_def)
  moreover have three: "mpn_val m p 3 = unat (m ! p) + \<beta> * (unat (m ! (p + 1)) + \<beta> * unat (m ! (p + 2)))" for m p
    by (simp add: numeral_3_eq_3 mpn_val_Cons)
  have "mpn_val ?m 0 3 * \<beta> ^ (1 - 1) mod mpn_val ?m 4 3 div \<beta> ^ (3 - 1) = 3"
    unfolding three by (simp add: \<beta>_def)
  ultimately show "\<exists>m' h. mpn_divrem 7 1 0 3 4 3 ?m = Some (m', h) \<and> unat (m' ! 3) = 3"
    using mpn_divrem_overrun [of ?m 7 1 0 3 4] by auto
qed

text \<open>
  C21: the loops that lower an estimated quotient limb end.  With a normalised divisor they make at
  most two rounds whatever the other operands are, because adding the leading limb of the divisor
  to the remainder twice overflows.
\<close>

theorem quotient_loops_terminate:
  assumes "\<beta> \<le> 2 * unat d1"
  shows "(\<exists>q' r' n1' n0'. q_test d1 d0 n2 q r n1 n0 = Some (q', r', n1', n0') \<and> q' \<in> {q, q - 1, q - 2}) \<and>
    (\<exists>q'. adjust_q d1 d0 n2 q r n1 n0 = Some q' \<and> q' \<in> {q, q - 1, q - 2})"
proof
  have overflow: "r + d1 + d1 < d1" if "\<not> r + d1 < d1" for r
  proof (rule ccontr)
    assume "\<not> r + d1 + d1 < d1"
    then have "unat (r + d1 + d1) = unat r + unat d1 + unat d1"
      using add_carry' [of r d1] add_carry' [of "r + d1" d1] that by simp
    then show False using assms limb_bound [of "r + d1 + d1"] by linarith
  qed
  have two: "q - 1 - 1 = q - 2" by simp
  show "\<exists>q' r' n1' n0'. q_test d1 d0 n2 q r n1 n0 = Some (q', r', n1', n0') \<and> q' \<in> {q, q - 1, q - 2}"
    using overflow [of r] unfolding q_test.simps [of d1 d0 n2 q] q_test.simps [of d1 d0 n2 "q - 1"] two Let_def
    by (auto simp: not_less split: prod.splits)
  show "\<exists>q'. adjust_q d1 d0 n2 q r n1 n0 = Some q' \<and> q' \<in> {q, q - 1, q - 2}"
    using overflow [of r] unfolding adjust_q.simps [of d1 d0 n2 q] adjust_q.simps [of d1 d0 n2 "q - 1"] two Let_def
    by (auto simp: not_less)
qed

theorem quotient_loops_terminate_witness:
  "(\<exists>q' r' n1' n0'. q_test (2 ^ 63) 7 0 5 0 6 0 = Some (q', r', n1', n0') \<and> q' \<in> {5, 5 - 1, 5 - 2}) \<and>
    (\<exists>q'. adjust_q (2 ^ 63) 7 0 5 0 6 0 = Some q' \<and> q' \<in> {5, 5 - 1, 5 - 2})"
  by (rule quotient_loops_terminate) (simp add: \<beta>_def)

end
