(* ===== verification/Spec2Isabelle.thy ===== *)
theory Spec2Isabelle
  imports Dns_Check Dns_Pack Dns_Parse Compare Qsort_Merge Dns_Base64 Inet_Addr Hsearch Mpn_Div
begin

text \<open>
  Verification of algorithmic parts of the GNU C library, version 2.39, as it stands under
  \<^verbatim>\<open>src/original\<close>.  The routines chosen are those whose behaviour is determined by their
  arguments and by memory they are handed: the codecs of the DNS resolver, sorting and searching, hash
  tables, and the multiple precision arithmetic under the conversions between binary and
  decimal floating point numbers.

  \<^bold>\<open>How the model relates to C.\<close>  \<^verbatim>\<open>Libc_Prelude\<close> fixes the conventions.  An object in memory is a list of
  cells and a pointer into it an index (or, when it only moves forward, the rest of the list).
  Every access goes through \<open>rd\<close>, \<open>wr\<close> or \<open>memcpy\<close>, which return \<open>None\<close> outside the object; a C
  function is an option-valued function, and the outer \<open>None\<close> means an access outside an object,
  a failed assertion, a division by zero, or a loop that does not end.  A theorem
  \<open>f x = Some \<dots>\<close> therefore says that the function returns and stays in its buffers.  Inside,
  \<open>Inl e\<close> is the failing return with \<open>errno = e\<close> and \<open>Inr v\<close> an ordinary return.  Uninitialised local arrays
  and allocated memory are arguments, so the theorems hold for any contents.  Bytes, 16 and 32 bit
  fields and limbs are words of their width; lengths and positions are natural numbers.

  \<^bold>\<open>Specifications\<close> are written without the routines they judge: alphabets and character classes are
  listed or given by their ranges (\<open>same_ascii\<close>, \<open>escape_chars\<close>, \<open>graphic\<close>, \<open>host_chars\<close>, \<open>digit\<close>), and lemmas relate
  the tests and tables of the code to them.

  \<^bold>\<open>Domain names\<close> (\<^verbatim>\<open>resolv/\<close>).
  \<^item> \<^verbatim>\<open>Dns_Wire\<close>: \<open>ns_name_unpack\<close>, \<open>ns_name_skip\<close>, \<open>ns_name_length_uncompressed\<close>, \<open>ns_samebinaryname\<close>.
    The inductive relation \<open>name_at\<close> says what labels a possibly compressed name denotes; unpacking is
    safe and returns on every message, cyclic pointers included, and is sound for \<open>name_at\<close>.  Which names
    it accepts is stated exactly: its loop check compares the bytes traversed, which \<open>traversed\<close> counts,
    with the message size, and so also refuses some names without a loop whose labels overlap.
    Names are compared up to the case of ASCII letters, \<open>same_name\<close>.
  \<^item> \<^verbatim>\<open>Dns_Ntop\<close> and \<^verbatim>\<open>Dns_Pton\<close>: \<open>ns_name_ntop\<close>, \<open>ns_name_uncompress\<close> and \<open>ns_name_pton\<close> against a
    text function and a reference parser, and the round trip between them.
  \<^item> \<^verbatim>\<open>Dns_Check\<close>: the four checks of \<^verbatim>\<open>res-name-checking.c\<close>, proved once in the locale
    \<open>name_check\<close> and interpreted for host, owner, mail and domain names.
  \<^item> \<^verbatim>\<open>Dns_Pack\<close>: \<open>dn_find\<close>, \<open>ns_name_pack\<close> and \<open>ns_name_compress\<close>.  The table of earlier names stays consistent
    with the message, and what was compressed is unpacked again.
  \<^item> \<^verbatim>\<open>Dns_Rr\<close>: the cursor \<open>ns_rr_cursor\<close> over the records of a packet.
  \<^item> \<^verbatim>\<open>Dns_Parse\<close>: \<open>ns_initparse\<close>, \<open>ns_parserr\<close>, \<open>ns_skiprr\<close>, \<open>ns_msg_getflag\<close>, \<open>dn_skipname\<close> and \<open>dn_expand\<close>.
    \<open>parse_reach\<close> is the set of handles that calls can produce; they are well formed, and
    \<open>ns_parserr\<close> refines the access to a table of record positions, so its cache is invisible.
  \<^item> \<^verbatim>\<open>Dns_Base64\<close>: \<open>b64_ntop\<close> and \<open>b64_pton\<close>, against reference functions, with their round trip.

  \<^bold>\<open>Internet addresses\<close> (\<^verbatim>\<open>resolv/inet_pton.c\<close>, \<^verbatim>\<open>inet_ntop.c\<close>).  \<^verbatim>\<open>Inet_Addr\<close>: both conversions for IPv4 and
  IPv6.  Every address survives the way to its text and back; on arbitrary text \<open>inet_pton\<close> is safe and
  leaves the output alone unless it succeeds; the run of zeros that is compressed is a longest one.

  \<^bold>\<open>Searching and sorting\<close> (\<^verbatim>\<open>stdlib/\<close>, \<^verbatim>\<open>misc/\<close>, \<^verbatim>\<open>string/\<close>).
  \<^item> \<^verbatim>\<open>Compare\<close>: the locale \<open>ordering_fn\<close> is the contract of a comparison function, interpreted for
    \<open>strcasecmp\<close>; \<open>bsearch\<close>, \<open>lfind\<close> and \<open>lsearch\<close> are proved for any function that meets it.
  \<^item> \<^verbatim>\<open>Qsort\<close>: \<open>qsort_r\<close> with its merge sort, indirect merge sort and heap sort, the exchange of elements on
    bytes and its refinement to an exchange in a list, and the heap invariant.
  \<^item> \<^verbatim>\<open>Qsort_Merge\<close>: the in-place merge sort equals the textbook \<open>msort\<close>; \<open>qsort_r\<close> sorts in all its cases and
    is safe for any comparison function.  It is also stable when memory is available, which the manual
    does not promise, and not otherwise.
  \<^item> \<^verbatim>\<open>Hsearch\<close>: \<open>hcreate_r\<close>, \<open>hsearch_r\<close>, \<open>hdestroy_r\<close>.  The locale \<open>entry_table\<close> is the contract of a table of
    entries; double hashing with a prime size reaches every slot, so the table implements a finite map
    and takes as many entries as were asked for.

  \<^bold>\<open>Multiple precision arithmetic\<close> (\<^verbatim>\<open>stdlib/\<close>).  All limbs are cells of one memory, because the callers rely
  on operands that overlap; the theorems state exactly which cells change.
  \<^item> \<^verbatim>\<open>Mpn_Limb\<close>: the double-limb macros of \<^verbatim>\<open>longlong.h\<close>.
  \<^item> \<^verbatim>\<open>Mpn\<close>: addition, subtraction, multiplication by a limb, shifts and comparison.  The loops with a carry
    are instances of one locale, \<open>carry_loop\<close>.
  \<^item> \<^verbatim>\<open>Mpn_Mul\<close>: \<open>mpn_mul\<close> and \<open>mpn_mul_n\<close>; Karatsuba's method and squaring compute the schoolbook product.
  \<^item> \<^verbatim>\<open>Mpn_Div_1\<close>: \<open>mpn_divmod_1\<close> and \<open>mpn_mod_1\<close> for both inner divisions, which share the locale \<open>limb_divider\<close>.
  \<^item> \<^verbatim>\<open>Mpn_Div\<close>: \<open>mpn_divrem\<close>, with the estimate of a quotient limb corrected in at most two rounds.  With
    fraction limbs and a numerator no longer than a divisor of three or more limbs it writes one limb
    behind the numerator; the theorem for that case says what it stores, and when it faults.

  \<^bold>\<open>Loops.\<close>  No definition uses fuel.  Loops that end on every input are total functions with a
  measure; loops that end only under a condition are partial functions whose result \<open>None\<close> would be
  non-termination, and the theorems show that they return \<open>Some\<close>.  Lengths and positions as natural
  numbers presuppose that objects are smaller than the address space, and messages smaller than the
  largest \<open>int\<close>.

  \<^bold>\<open>Not modelled.\<close>
  \<^item> Input and output, processes, signals, sockets and time of day (\<^verbatim>\<open>libio\<close>, \<^verbatim>\<open>io\<close>, \<^verbatim>\<open>posix\<close>, \<^verbatim>\<open>signal\<close>, \<^verbatim>\<open>socket\<close>,
    \<^verbatim>\<open>termios\<close>, \<^verbatim>\<open>rt\<close>, \<^verbatim>\<open>sunrpc\<close>): their behaviour is that of the kernel they call.
  \<^item> The dynamic linker, start-up code and threads (\<^verbatim>\<open>elf\<close>, \<^verbatim>\<open>dlfcn\<close>, \<^verbatim>\<open>csu\<close>, \<^verbatim>\<open>nptl\<close>): they depend on object file
    layout, relocation and a memory model for concurrent accesses.
  \<^item> The allocator (\<^verbatim>\<open>malloc\<close>): its state is the raw heap; here an allocation is an argument that says
    whether it succeeds and what the memory holds.
  \<^item> Locales, character sets and message catalogues (\<^verbatim>\<open>locale\<close>, \<^verbatim>\<open>iconv\<close>, \<^verbatim>\<open>iconvdata\<close>, \<^verbatim>\<open>intl\<close>, \<^verbatim>\<open>wcsmbs\<close>): they are
    driven by generated tables.
  \<^item> Floating point (\<^verbatim>\<open>math\<close>, \<^verbatim>\<open>soft-fp\<close>) and formatted conversion (\<^verbatim>\<open>stdio-common\<close>), of which only the digits
    \<open>inet_ntop\<close> needs are modelled.
  \<^item> The rest of the resolver, which sends and receives packets, and the name service switch.
  \<^item> The Rust crates of \<^verbatim>\<open>src/safe\<close>: parsers (DNS replies, tunables, patterns), replacements of helper programs and
    packaging.  They are separate programs, and this development covers the C library only.
  \<^item> Architecture specific versions of the modelled routines (\<^verbatim>\<open>sysdeps\<close>); the portable C ones are modelled.
\<close>

end
